(* ===== verification/Prelude.thy ===== *)
theory Prelude
  imports Main "HOL-Library.Word"
begin

unbundle bit_operations_syntax

section \<open>Bytes, sizes and the list lemmas the components share\<close>

text \<open>
  What every component of the library uses: the machine types of the C++ sources,
  the part of the standard library they call on byte ranges (\<open>std::search\<close>,
  \<open>std::copy\<close>, \<open>vector::resize\<close>), and the facts about them that the
  component proofs rest on.

  A \<open>char\<close> of a \<open>std::string\<close>, \<open>std::string_view\<close> or \<open>Buffer\<close> is a
  \<open>byte\<close>; the sources convert to \<open>uint8_t\<close> wherever the sign would matter, and compare
  \<open>char\<close>s only with ASCII ranges, on which the signed and the unsigned order agree.
  A \<open>size_t\<close> is a \<open>nat\<close>: the values that occur are lengths of objects in memory, so
  sums of them do not wrap; where the sources subtract sizes, the component's invariant
  states that the difference is not negative.
\<close>

subsection \<open>Types\<close>

type_synonym byte = "8 word"
type_synonym bytes = "byte list"
type_synonym u16 = "16 word"
type_synonym u32 = "32 word"
type_synonym i64 = "64 word"
type_synonym errno = int

text \<open>The bytes of an ASCII literal of the sources.\<close>

definition ascii :: "string \<Rightarrow> bytes" where
  "ascii s = map of_char s"

lemma ascii_simps [simp]:
  "ascii [] = []"
  "ascii (c # cs) = of_char c # ascii cs"
  by (simp_all add: ascii_def)

lemma length_ascii [simp]: "length (ascii s) = length s"
  by (simp add: ascii_def)

lemma ascii_append: "ascii (s @ t) = ascii s @ ascii t"
  by (simp add: ascii_def)

subsection \<open>Standard library operations on byte ranges\<close>

text \<open>\<open>std::search(first, last, pat, pat_end)\<close>: the offset of the first occurrence of
  the pattern; \<open>None\<close> stands for the returned \<open>last\<close>.\<close>

fun std_search :: "bytes \<Rightarrow> bytes \<Rightarrow> nat option" where
  "std_search pat [] = (if pat = [] then Some 0 else None)"
| "std_search pat (x # xs) =
     (if take (length pat) (x # xs) = pat then Some 0
      else map_option Suc (std_search pat xs))"

text \<open>\<open>std::copy\<close> of the bytes \<open>xs\<close> to offset \<open>i\<close> of an array.\<close>

definition copy_to :: "nat \<Rightarrow> bytes \<Rightarrow> bytes \<Rightarrow> bytes" where
  "copy_to i xs d = take i d @ xs @ drop (i + length xs) d"

text \<open>\<open>vector<char>::resize\<close>: cut off, or pad with zero bytes.\<close>

definition resize :: "nat \<Rightarrow> bytes \<Rightarrow> bytes" where
  "resize n d = take n d @ replicate (n - length d) 0"

subsection \<open>Facts about them\<close>

named_theorems range_simps \<open>lengths and slices of copied and resized arrays\<close>

lemma length_copy_to [range_simps]:
  "i + length xs \<le> length d \<Longrightarrow> length (copy_to i xs d) = length d"
  by (simp add: copy_to_def)

lemma length_resize [range_simps]: "length (resize n d) = n"
  by (simp add: resize_def)

lemma take_resize [range_simps]: "m \<le> n \<Longrightarrow> m \<le> length d \<Longrightarrow> take m (resize n d) = take m d"
  by (simp add: resize_def min_def)

lemma take_copy_to_before [range_simps]: "m \<le> i \<Longrightarrow> i \<le> length d \<Longrightarrow> take m (copy_to i xs d) = take m d"
  by (simp add: copy_to_def min_def)

lemma slice_copy_to_after:
  assumes "r \<le> i" and "i + length xs \<le> length d"
  shows "take (i + length xs - r) (drop r (copy_to i xs d)) = take (i - r) (drop r d) @ xs"
  using assms by (simp add: copy_to_def drop_take)

lemma slice_copy_to_there [range_simps]:
  "i + length xs \<le> length d \<Longrightarrow> take (length xs) (drop i (copy_to i xs d)) = xs"
  by (simp add: copy_to_def)

lemma take_drop_chain: "take n (drop k xs) @ drop (k + n) xs = drop k xs"
  by (metis append_take_drop_id drop_drop add.commute)

lemma std_search_Some:
  "std_search pat xs = Some i \<Longrightarrow>
     i + length pat \<le> length xs \<and> take (length pat) (drop i xs) = pat"
proof (induction xs arbitrary: i)
  case Nil
  then show ?case by (auto split: if_splits)
next
  case (Cons x xs)
  show ?case
  proof (cases "take (length pat) (x # xs) = pat")
    case True
    then have "length pat \<le> length (x # xs)"
      by (metis length_take min.cobounded1)
    with True Cons.prems show ?thesis by auto
  next
    case False
    with Cons show ?thesis by auto
  qed
qed

lemma std_search_first:
  "std_search pat xs = Some i \<Longrightarrow> j < i \<Longrightarrow> take (length pat) (drop j xs) \<noteq> pat"
proof (induction xs arbitrary: i j)
  case Nil
  then show ?case by (auto split: if_splits)
next
  case (Cons x xs)
  then show ?case by (cases j) (auto split: if_splits)
qed

lemma std_search_None:
  "std_search pat xs = None \<Longrightarrow> take (length pat) (drop j xs) \<noteq> pat"
proof (induction xs arbitrary: j)
  case Nil
  then show ?case by (auto split: if_splits)
next
  case (Cons x xs)
  then show ?case by (cases j) (auto split: if_splits)
qed

lemma std_search_append:
  "std_search pat xs = Some i \<Longrightarrow> std_search pat (xs @ ys) = Some i"
proof (induction xs arbitrary: i)
  case Nil
  then show ?case by (cases ys) (auto split: if_splits)
next
  case (Cons x xs)
  show ?case
  proof (cases "take (length pat) (x # xs) = pat")
    case True
    then have "length pat \<le> length (x # xs)"
      by (metis length_take min.cobounded1)
    with True have "take (length pat) ((x # xs) @ ys) = pat"
      by (simp only: take_append diff_is_0_eq' take_0 append_Nil2)
    with True Cons.prems show ?thesis by simp
  next
    case False
    with Cons.prems obtain k where k: "std_search pat xs = Some k" and i: "i = Suc k"
      by auto
    have "length pat \<le> length xs" using std_search_Some [OF k] by simp
    then have "take (length pat) ((x # xs) @ ys) = take (length pat) (x # xs)"
      by (simp only: take_append length_Cons diff_is_0_eq' le_SucI take_0 append_Nil2)
    with False Cons.IH [OF k] i show ?thesis by simp
  qed
qed

lemma std_search_skip:
  assumes "\<And>j. j < k \<Longrightarrow> take (length pat) (drop j xs) \<noteq> pat" and "k \<le> length xs"
  shows "std_search pat xs = map_option ((+) k) (std_search pat (drop k xs))"
  using assms
proof (induction k arbitrary: xs)
  case 0
  then show ?case by (simp add: option.map_ident)
next
  case (Suc k)
  from Suc.prems(2) obtain x ys where xs: "xs = x # ys" by (cases xs) auto
  have "std_search pat ys = map_option ((+) k) (std_search pat (drop k ys))"
    using Suc.prems xs by (intro Suc.IH) (force, simp)
  moreover have "take (length pat) xs \<noteq> pat" using Suc.prems(1) [of 0] by simp
  ultimately show ?case by (simp add: xs option.map_comp comp_def)
qed

lemma std_search_eq:
  assumes "take (length pat) (drop i xs) = pat" and "i \<le> length xs"
    and "\<And>j. j < i \<Longrightarrow> take (length pat) (drop j xs) \<noteq> pat"
  shows "std_search pat xs = Some i"
proof -
  have "std_search pat (drop i xs) = Some 0" using assms(1) by (cases "drop i xs") auto
  then show ?thesis using std_search_skip [of i pat xs] assms(2,3) by simp
qed

lemma std_search_take:
  assumes "std_search pat xs = Some i" and "i + length pat \<le> k"
  shows "std_search pat (take k xs) = Some i"
proof (rule std_search_eq)
  show "take (length pat) (drop i (take k xs)) = pat"
    using std_search_Some [OF assms(1)] assms(2) by (simp add: drop_take min.absorb1 add_le_imp_le_diff add.commute)
  show "i \<le> length (take k xs)" using std_search_Some [OF assms(1)] assms(2) by simp
  fix j assume "j < i"
  then show "take (length pat) (drop j (take k xs)) \<noteq> pat"
    using std_search_first [OF assms(1)] assms(2) by (simp add: drop_take min.absorb1)
qed

lemma std_search_prefix_None:
  assumes "std_search pat xs = Some i" and "k < i + length pat"
  shows "std_search pat (take k xs) = None"
proof (rule ccontr)
  assume "std_search pat (take k xs) \<noteq> None"
  then obtain j where j: "std_search pat (take k xs) = Some j" by blast
  have "j = i" using std_search_append [OF j, of "drop k xs"] assms(1) by simp
  with std_search_Some [OF j] assms(2) show False by simp
qed

lemma std_search_here: "p \<notin> set xs \<Longrightarrow> std_search (p # pat) (xs @ p # pat @ ys) = Some (length xs)"
proof (induction xs)
  case Nil
  then show ?case by simp
next
  case (Cons x xs)
  then show ?case by (auto simp: Cons_eq_append_conv)
qed

lemma std_search_absent: "p \<notin> set xs \<Longrightarrow> std_search (p # pat) xs = None"
  by (induction xs) auto

subsection \<open>Bytes of words\<close>

lemma and_0xFF: "(v :: 'a::len word) AND 0xFF = take_bit 8 v"
  by (simp add: take_bit_eq_mask mask_eq_exp_minus_1)

lemma bit_byte_bound: "bit (x :: byte) n \<Longrightarrow> n < 8"
  using bit_imp_le_length [of x n] by simp

lemma bit_byte_high:
  "\<not> bit (x :: byte) (8 + n)" "\<not> bit (x :: byte) (16 + n)" "\<not> bit (x :: byte) (24 + n)"
  using bit_byte_bound [of x] by fastforce+

lemma case_list_Some:
  "(case xs of [] \<Rightarrow> None | x # xs' \<Rightarrow> f x xs') = Some y \<longleftrightarrow> (\<exists>x xs'. xs = x # xs' \<and> f x xs' = Some y)"
  by (cases xs) simp_all

end
