(* ===== verification/Channel.thy ===== *)
theory Channel
  imports Prelude
begin

unbundle bit_operations_syntax

section \<open>Channels and the poller\<close>

text \<open>
  \<open>src/Channel.cpp\<close>, \<open>include/Channel.h\<close>, \<open>src/EPollPoller.cpp\<close> and the forwarding
  \<open>updateChannel\<close>/\<open>removeChannel\<close> of \<open>src/EventLoop.cpp\<close>. A channel is a record; its address,
  which the poller stores, is the field \<open>ch_ptr\<close>. The kernel is not modelled: the poller keeps
  the list of \<open>epoll_ctl\<close> calls it made, and \<open>interest\<close> reads that list with the meaning
  \<open>epoll_ctl(2)\<close> gives it. \<open>loop_\<close> is the poller the operations are applied to. An assertion
  that fails is \<^const>\<open>None\<close>.
\<close>

type_synonym fd = int

definition EPOLLIN :: u32 where "EPOLLIN = 0x001"
definition EPOLLPRI :: u32 where "EPOLLPRI = 0x002"
definition EPOLLOUT :: u32 where "EPOLLOUT = 0x004"
definition EPOLLERR :: u32 where "EPOLLERR = 0x008"
definition EPOLLHUP :: u32 where "EPOLLHUP = 0x010"
definition EPOLLRDHUP :: u32 where "EPOLLRDHUP = 0x2000"

definition kNoneEvent :: u32 where "kNoneEvent = 0"
definition kReadEvent :: u32 where "kReadEvent = EPOLLIN OR EPOLLPRI"
definition kWriteEvent :: u32 where "kWriteEvent = EPOLLOUT"

lemmas event_defs = EPOLLIN_def EPOLLPRI_def EPOLLOUT_def EPOLLERR_def EPOLLHUP_def EPOLLRDHUP_def
  kNoneEvent_def kReadEvent_def kWriteEvent_def

record channel =
  ch_ptr :: nat
  ch_fd :: fd
  ch_events :: u32
  ch_revents :: u32
  ch_index :: int
  ch_eventHandling :: bool
  ch_addedToLoop :: bool
  ch_tied :: bool

definition newChannel :: "nat \<Rightarrow> fd \<Rightarrow> channel" where
  "newChannel p fd =
     \<lparr>ch_ptr = p, ch_fd = fd, ch_events = 0, ch_revents = 0, ch_index = -1, ch_eventHandling = False,
      ch_addedToLoop = False, ch_tied = False\<rparr>"

definition isNoneEvent :: "channel \<Rightarrow> bool" where
  "isNoneEvent ch \<longleftrightarrow> ch_events ch = kNoneEvent"

definition isReading :: "channel \<Rightarrow> bool" where
  "isReading ch \<longleftrightarrow> ch_events ch AND kReadEvent \<noteq> 0"

definition isWriting :: "channel \<Rightarrow> bool" where
  "isWriting ch \<longleftrightarrow> ch_events ch AND kWriteEvent \<noteq> 0"

subsection \<open>EPollPoller\<close>

datatype epoll_op = EPOLL_CTL_ADD | EPOLL_CTL_MOD | EPOLL_CTL_DEL

type_synonym epoll_call = "epoll_op \<times> fd \<times> u32"

record poller =
  po_channels :: "fd \<rightharpoonup> nat"
  po_capacity :: nat
  po_calls :: "epoll_call list"

definition kInitEventListSize :: nat where "kInitEventListSize = 16"

definition newPoller :: poller where
  "newPoller = \<lparr>po_channels = Map.empty, po_capacity = kInitEventListSize, po_calls = []\<rparr>"

definition poller_update :: "epoll_op \<Rightarrow> channel \<Rightarrow> poller \<Rightarrow> poller" where
  "poller_update operation ch P =
     P\<lparr>po_calls := po_calls P @ [(operation, ch_fd ch, ch_events ch)]\<rparr>"

definition updateChannel :: "channel \<Rightarrow> poller \<Rightarrow> channel \<times> poller" where
  "updateChannel ch P =
     (if ch_index ch = -1 \<or> ch_index ch = 0 then
        (let P1 = (if ch_index ch = -1 then P\<lparr>po_channels := (po_channels P)(ch_fd ch \<mapsto> ch_ptr ch)\<rparr> else P);
             ch1 = ch\<lparr>ch_index := 1\<rparr>
         in (ch1, poller_update EPOLL_CTL_ADD ch1 P1))
      else if isNoneEvent ch then
        (ch\<lparr>ch_index := 0\<rparr>, poller_update EPOLL_CTL_DEL ch P)
      else (ch, poller_update EPOLL_CTL_MOD ch P))"

definition removeChannel :: "channel \<Rightarrow> poller \<Rightarrow> channel \<times> poller" where
  "removeChannel ch P =
     (let P1 = P\<lparr>po_channels := (po_channels P)(ch_fd ch := None)\<rparr>;
          P2 = (if ch_index ch = 1 then poller_update EPOLL_CTL_DEL ch P1 else P1)
      in (ch\<lparr>ch_index := -1\<rparr>, P2))"

definition hasChannel :: "channel \<Rightarrow> poller \<Rightarrow> bool" where
  "hasChannel ch P \<longleftrightarrow> po_channels P (ch_fd ch) = Some (ch_ptr ch)"

text \<open>\<open>poll\<close> with the result of \<open>epoll_wait\<close>: an errno, or the channels that are ready with their
  events. The list is returned as \<open>activeChannels\<close>; a full list doubles the buffer.\<close>

definition epoll_poll :: "errno + (nat \<times> u32) list \<Rightarrow> poller \<Rightarrow> (nat \<times> u32) list \<times> poller" where
  "epoll_poll waited P =
     (case waited of
        Inl _ \<Rightarrow> ([], P)
      | Inr evs \<Rightarrow>
          (evs, if evs \<noteq> [] \<and> length evs = po_capacity P then P\<lparr>po_capacity := po_capacity P * 2\<rparr> else P))"

subsection \<open>Channel operations\<close>

definition channel_update :: "channel \<Rightarrow> poller \<Rightarrow> channel \<times> poller" where
  "channel_update ch P = updateChannel (ch\<lparr>ch_addedToLoop := True\<rparr>) P"

definition enableReading :: "channel \<Rightarrow> poller \<Rightarrow> channel \<times> poller" where
  "enableReading ch P = channel_update (ch\<lparr>ch_events := ch_events ch OR kReadEvent\<rparr>) P"

definition disableReading :: "channel \<Rightarrow> poller \<Rightarrow> channel \<times> poller" where
  "disableReading ch P = channel_update (ch\<lparr>ch_events := ch_events ch AND NOT kReadEvent\<rparr>) P"

definition enableWriting :: "channel \<Rightarrow> poller \<Rightarrow> channel \<times> poller" where
  "enableWriting ch P = channel_update (ch\<lparr>ch_events := ch_events ch OR kWriteEvent\<rparr>) P"

definition disableWriting :: "channel \<Rightarrow> poller \<Rightarrow> channel \<times> poller" where
  "disableWriting ch P = channel_update (ch\<lparr>ch_events := ch_events ch AND NOT kWriteEvent\<rparr>) P"

definition disableAll :: "channel \<Rightarrow> poller \<Rightarrow> channel \<times> poller" where
  "disableAll ch P = channel_update (ch\<lparr>ch_events := kNoneEvent\<rparr>) P"

definition channel_remove :: "channel \<Rightarrow> poller \<Rightarrow> (channel \<times> poller) option" where
  "channel_remove ch P =
     (if \<not> isNoneEvent ch then None else Some (removeChannel (ch\<lparr>ch_addedToLoop := False\<rparr>) P))"

definition tie :: "channel \<Rightarrow> channel" where
  "tie ch = ch\<lparr>ch_tied := True\<rparr>"

text \<open>\<open>handleEventWithGuard\<close>: the callbacks that are set, run in this order on the state of their
  owner. \<open>eventHandling_\<close> brackets them and is only read by the destructor.\<close>

definition handleEventWithGuard ::
  "('s \<Rightarrow> 's option) \<Rightarrow> ('s \<Rightarrow> 's option) \<Rightarrow> ('s \<Rightarrow> 's option) \<Rightarrow> ('s \<Rightarrow> 's option) \<Rightarrow> u32 \<Rightarrow> 's \<Rightarrow> 's option"
where
  "handleEventWithGuard closeCb errorCb readCb writeCb revents s =
     Option.bind (if revents AND EPOLLHUP \<noteq> 0 \<and> revents AND EPOLLIN = 0 then closeCb s else Some s)
       (\<lambda>s1. Option.bind (if revents AND EPOLLERR \<noteq> 0 then errorCb s1 else Some s1)
       (\<lambda>s2. Option.bind (if revents AND (EPOLLIN OR EPOLLPRI OR EPOLLRDHUP) \<noteq> 0 then readCb s2 else Some s2)
       (\<lambda>s3. if revents AND EPOLLOUT \<noteq> 0 then writeCb s3 else Some s3)))"

subsection \<open>What the kernel watches\<close>

text \<open>\<open>epoll_ctl(2)\<close>: adding a descriptor that is watched, or changing or deleting one that is
  not, is an error.\<close>

fun epoll_ctl :: "epoll_call \<Rightarrow> (fd \<rightharpoonup> u32) \<Rightarrow> (fd \<rightharpoonup> u32) option" where
  "epoll_ctl (EPOLL_CTL_ADD, fd, ev) m = (if m fd = None then Some (m(fd \<mapsto> ev)) else None)"
| "epoll_ctl (EPOLL_CTL_MOD, fd, ev) m = (if m fd = None then None else Some (m(fd \<mapsto> ev)))"
| "epoll_ctl (EPOLL_CTL_DEL, fd, ev) m = (if m fd = None then None else Some (m(fd := None)))"

fun epoll_ctls :: "epoll_call list \<Rightarrow> (fd \<rightharpoonup> u32) \<Rightarrow> (fd \<rightharpoonup> u32) option" where
  "epoll_ctls [] m = Some m"
| "epoll_ctls (c # cs) m = Option.bind (epoll_ctl c m) (epoll_ctls cs)"

lemma epoll_ctls_snoc: "epoll_ctls (cs @ [c]) m = Option.bind (epoll_ctls cs m) (epoll_ctl c)"
  by (induction cs arbitrary: m) (simp_all split: Option.bind_splits)

text \<open>Operations on one of the channels of a loop; removing a channel that still has interest fails
  its assertion.\<close>

datatype chan_op = EnableReading | DisableReading | EnableWriting | DisableWriting | DisableAll | Remove

fun chan_step :: "chan_op \<Rightarrow> channel \<Rightarrow> poller \<Rightarrow> (channel \<times> poller) option" where
  "chan_step EnableReading ch P = Some (enableReading ch P)"
| "chan_step DisableReading ch P = Some (disableReading ch P)"
| "chan_step EnableWriting ch P = Some (enableWriting ch P)"
| "chan_step DisableWriting ch P = Some (disableWriting ch P)"
| "chan_step DisableAll ch P = Some (disableAll ch P)"
| "chan_step Remove ch P = channel_remove ch P"

fun chan_run :: "(nat \<times> chan_op) list \<Rightarrow> (nat \<Rightarrow> channel) \<Rightarrow> poller \<Rightarrow> ((nat \<Rightarrow> channel) \<times> poller) option" where
  "chan_run [] chs P = Some (chs, P)"
| "chan_run ((i, a) # as) chs P =
     (case chan_step a (chs i) P of
        None \<Rightarrow> None
      | Some (ch, P') \<Rightarrow> chan_run as (chs(i := ch)) P')"

definition watched :: "channel \<Rightarrow> u32 option" where
  "watched ch = (if ch_index ch = 1 then Some (ch_events ch) else None)"

definition listed :: "channel \<Rightarrow> nat option" where
  "listed ch = (if ch_index ch = -1 then None else Some (ch_ptr ch))"

text \<open>Every call was accepted, and both the kernel's interest list and the poller's table agree with
  the channels.\<close>

definition poller_inv :: "(nat \<Rightarrow> channel) \<Rightarrow> poller \<Rightarrow> bool" where
  "poller_inv chs P \<longleftrightarrow>
     (\<exists>m. epoll_ctls (po_calls P) Map.empty = Some m \<and>
        (\<forall>i. ch_index (chs i) \<in> {-1, 0, 1} \<and> m (ch_fd (chs i)) = watched (chs i)
           \<and> po_channels P (ch_fd (chs i)) = listed (chs i)))"

lemmas channel_ops = enableReading_def disableReading_def enableWriting_def disableWriting_def
  disableAll_def channel_update_def channel_remove_def tie_def

lemma updateChannel_effect:
  assumes "epoll_ctls (po_calls P) Map.empty = Some m" and "m (ch_fd ch) = watched ch"
    and "ch_index ch \<in> {-1, 0, 1}" and "po_channels P (ch_fd ch) = listed ch"
    and "updateChannel (ch\<lparr>ch_events := ev, ch_addedToLoop := ad\<rparr>) P = (ch', P')"
  shows "epoll_ctls (po_calls P') Map.empty = Some (m(ch_fd ch := watched ch'))
    \<and> po_channels P' = (po_channels P)(ch_fd ch := listed ch')
    \<and> ch_fd ch' = ch_fd ch \<and> ch_index ch' \<in> {-1, 0, 1}"
  using assms
  by (auto simp: updateChannel_def poller_update_def epoll_ctls_snoc watched_def listed_def Let_def
      isNoneEvent_def fun_upd_idem split: if_splits)

lemma removeChannel_effect:
  assumes "epoll_ctls (po_calls P) Map.empty = Some m" and "m (ch_fd ch) = watched ch"
    and "removeChannel (ch\<lparr>ch_addedToLoop := ad\<rparr>) P = (ch', P')"
  shows "epoll_ctls (po_calls P') Map.empty = Some (m(ch_fd ch := watched ch'))
    \<and> po_channels P' = (po_channels P)(ch_fd ch := listed ch')
    \<and> ch_fd ch' = ch_fd ch \<and> ch_index ch' \<in> {-1, 0, 1}"
  using assms
  by (auto simp: removeChannel_def poller_update_def epoll_ctls_snoc watched_def listed_def Let_def
      fun_upd_idem split: if_splits)

lemma chan_step_shape:
  assumes "chan_step a ch P = Some r"
  shows "(\<exists>ev ad. updateChannel (ch\<lparr>ch_events := ev, ch_addedToLoop := ad\<rparr>) P = r)
    \<or> (\<exists>ad. removeChannel (ch\<lparr>ch_addedToLoop := ad\<rparr>) P = r)"
  using assms by (cases a) (auto simp: channel_ops split: if_splits)

lemma chan_step_inv:
  assumes "poller_inv chs P" and "inj (\<lambda>i. ch_fd (chs i))" and "chan_step a (chs i) P = Some (ch, P')"
  shows "poller_inv (chs(i := ch)) P' \<and> ch_fd ch = ch_fd (chs i)"
proof -
  from assms(1) obtain m where m: "epoll_ctls (po_calls P) Map.empty = Some m"
    and sync: "\<And>j. ch_index (chs j) \<in> {-1, 0, 1} \<and> m (ch_fd (chs j)) = watched (chs j)
      \<and> po_channels P (ch_fd (chs j)) = listed (chs j)"
    unfolding poller_inv_def by blast
  from chan_step_shape [OF assms(3)]
  have "epoll_ctls (po_calls P') Map.empty = Some (m(ch_fd (chs i) := watched ch))
    \<and> po_channels P' = (po_channels P)(ch_fd (chs i) := listed ch)
    \<and> ch_fd ch = ch_fd (chs i) \<and> ch_index ch \<in> {-1, 0, 1}"
    using updateChannel_effect [OF m, of "chs i"] removeChannel_effect [OF m, of "chs i"] sync [of i]
    by blast
  moreover have "ch_fd (chs j) \<noteq> ch_fd (chs i)" if "j \<noteq> i" for j
    using injD [OF assms(2), of j i] that by blast
  ultimately show ?thesis using sync unfolding poller_inv_def by auto
qed

lemma chan_run_inv:
  assumes "poller_inv chs P" and "inj (\<lambda>i. ch_fd (chs i))" and "chan_run as chs P = Some (chs', P')"
  shows "poller_inv chs' P' \<and> (\<lambda>i. ch_fd (chs' i)) = (\<lambda>i. ch_fd (chs i))"
  using assms
proof (induction as chs P rule: chan_run.induct)
  case (2 i a as chs P)
  from 2(4) obtain ch P1 where s: "chan_step a (chs i) P = Some (ch, P1)"
    and r: "chan_run as (chs(i := ch)) P1 = Some (chs', P')"
    by (auto split: option.splits)
  note inv = chan_step_inv [OF 2(2,3) s]
  then have fds: "(\<lambda>j. ch_fd ((chs(i := ch)) j)) = (\<lambda>j. ch_fd (chs j))" by auto
  with 2(3) have "inj (\<lambda>j. ch_fd ((chs(i := ch)) j))" by (simp only:)
  from 2(1) [OF s refl _ this r] inv show ?case unfolding fds by blast
qed simp

subsection \<open>Property\<close>

text \<open>C34: the poller never loses track of a descriptor. Whatever sequence of enable, disable and
  remove operations the channels of a loop go through, every \<open>epoll_ctl\<close> call the poller makes is
  one the kernel accepts (no add of a watched descriptor, no change or delete of an unwatched
  one); the kernel then watches exactly the channels whose \<open>index_\<close> is 1, each with the events
  its channel asks for; and the table from descriptors to channels lists exactly the channels
  that were not removed.\<close>

theorem poller_tracks_interest:
  assumes "inj fds" and "chan_run as (\<lambda>i. newChannel i (fds i)) newPoller = Some (chs, P)"
  shows "\<exists>m. epoll_ctls (po_calls P) Map.empty = Some m
    \<and> (\<forall>i. m (fds i) = (if ch_index (chs i) = 1 then Some (ch_events (chs i)) else None))
    \<and> (\<forall>i. po_channels P (fds i) = (if ch_index (chs i) = -1 then None else Some (ch_ptr (chs i))))"
proof -
  have "poller_inv (\<lambda>i. newChannel i (fds i)) newPoller"
    by (simp add: poller_inv_def newPoller_def newChannel_def watched_def listed_def)
  from chan_run_inv [OF this _ assms(2)] assms(1) have "poller_inv chs P"
    and "\<And>i. ch_fd (chs i) = fds i"
    by (simp_all add: newChannel_def fun_eq_iff)
  then show ?thesis by (auto simp: poller_inv_def watched_def listed_def)
qed

theorem poller_tracks_interest_witness:
  "\<exists>m. epoll_ctls [(EPOLL_CTL_ADD, 5, 3), (EPOLL_CTL_MOD, 5, 7), (EPOLL_CTL_ADD, 6, 3), (EPOLL_CTL_DEL, 5, 0)]
         Map.empty = Some m \<and> m 5 = None \<and> m 6 = Some 3"
proof -
  let ?as = "[(0, EnableReading), (0, EnableWriting), (1, EnableReading), (0, DisableAll), (0, Remove)]"
  obtain chs P where r: "chan_run ?as (\<lambda>i. newChannel i (int i + 5)) newPoller = Some (chs, P)"
    and P: "po_calls P = [(EPOLL_CTL_ADD, 5, 3), (EPOLL_CTL_MOD, 5, 7), (EPOLL_CTL_ADD, 6, 3), (EPOLL_CTL_DEL, 5, 0)]"
    and c: "ch_index (chs 0) = -1" "ch_index (chs 1) = 1" "ch_events (chs 1) = 3"
    by (simp add: channel_ops updateChannel_def removeChannel_def poller_update_def newChannel_def
        newPoller_def event_defs isNoneEvent_def Let_def)
  have "inj (\<lambda>i. int i + 5)" by (simp add: inj_def)
  from poller_tracks_interest [OF this r] obtain m where m: "epoll_ctls (po_calls P) Map.empty = Some m"
    and w: "\<And>i. m (int i + 5) = (if ch_index (chs i) = 1 then Some (ch_events (chs i)) else None)" by blast
  from w [of 0] w [of 1] m c show ?thesis by (simp add: P)
qed

end
