(* ===== verification/Loop_Lifetime.thy ===== *)
theory Loop_Lifetime
  imports Channel
begin

section \<open>The life of a loop's descriptors\<close>

text \<open>
  The constructors and destructors of \<open>src/EventLoop.cpp\<close>, \<open>src/TimerQueue.cpp\<close> and \<open>src/EPollPoller.cpp\<close>, and the
  calls a loop forwards to its poller. A loop owns three descriptors, those of epoll, of its timer and of
  the wake-up counter; the last two have channels of their own. What the system calls return is an
  argument; \<^const>\<open>None\<close> is a run that aborts or fails an assertion.
\<close>

subsection \<open>State and operations\<close>

record loop_parts =
  lp_poller :: poller
  lp_epollfd :: fd
  lp_timerfdChannel :: channel
  lp_wakeupChannel :: channel
  lp_closed :: "fd list"

text \<open>\<open>other\<close> says that the thread has a loop already; the channels are at the given addresses.\<close>

definition constructLoop :: "bool \<Rightarrow> fd \<Rightarrow> nat \<times> fd \<Rightarrow> nat \<times> fd \<Rightarrow> loop_parts option" where
  "constructLoop other epollfd timer wakeup =
     (if epollfd < 0 \<or> snd timer < 0 \<or> snd wakeup < 0 \<or> other then None
      else
        (let (timerCh, P1) = enableReading (newChannel (fst timer) (snd timer)) newPoller;
             (wakeupCh, P2) = enableReading (newChannel (fst wakeup) (snd wakeup)) P1
         in Some \<lparr>lp_poller = P2, lp_epollfd = epollfd, lp_timerfdChannel = timerCh, lp_wakeupChannel = wakeupCh,
                  lp_closed = []\<rparr>))"

definition close_channel :: "channel \<Rightarrow> poller \<Rightarrow> (channel \<times> poller) option" where
  "close_channel ch P = (case disableAll ch P of (ch1, P1) \<Rightarrow> channel_remove ch1 P1)"

definition destroyTimers :: "loop_parts \<Rightarrow> loop_parts option" where
  "destroyTimers l =
     map_option (\<lambda>(ch, P). l\<lparr>lp_timerfdChannel := ch, lp_poller := P, lp_closed := lp_closed l @ [ch_fd ch]\<rparr>)
       (close_channel (lp_timerfdChannel l) (lp_poller l))"

definition destroyPoller :: "loop_parts \<Rightarrow> loop_parts" where
  "destroyPoller l = (if 0 \<le> lp_epollfd l then l\<lparr>lp_closed := lp_closed l @ [lp_epollfd l]\<rparr> else l)"

definition destroyLoop :: "loop_parts \<Rightarrow> loop_parts option" where
  "destroyLoop l =
     Option.bind (destroyTimers l)
       (\<lambda>l1. map_option
          (\<lambda>(ch, P). destroyPoller (l1\<lparr>lp_wakeupChannel := ch, lp_poller := P, lp_closed := lp_closed l1 @ [ch_fd ch]\<rparr>))
          (close_channel (lp_wakeupChannel l1) (lp_poller l1)))"

text \<open>The calls a channel makes on its loop, \<open>own\<close> that it is the channel's loop, \<open>inLoop\<close> that the thread
  is the loop's.\<close>

definition loop_updateChannel :: "bool \<Rightarrow> bool \<Rightarrow> channel \<Rightarrow> poller \<Rightarrow> (channel \<times> poller) option" where
  "loop_updateChannel own inLoop ch P = (if own \<and> inLoop then Some (updateChannel ch P) else None)"

definition loop_removeChannel :: "bool \<Rightarrow> bool \<Rightarrow> channel \<Rightarrow> poller \<Rightarrow> (channel \<times> poller) option" where
  "loop_removeChannel own inLoop ch P = (if own \<and> inLoop then Some (removeChannel ch P) else None)"

definition loop_hasChannel :: "bool \<Rightarrow> bool \<Rightarrow> channel \<Rightarrow> poller \<Rightarrow> bool option" where
  "loop_hasChannel own inLoop ch P = (if own \<and> inLoop then Some (hasChannel ch P) else None)"

subsection \<open>Nothing is left behind\<close>

lemma close_channel_ok:
  assumes "ch_index ch = 1" and "epoll_ctls (po_calls P) Map.empty = Some m" and "m (ch_fd ch) \<noteq> None"
  shows "\<exists>ch' P'. close_channel ch P = Some (ch', P') \<and> ch_fd ch' = ch_fd ch \<and> \<not> ch_addedToLoop ch'
    \<and> po_channels P' = (po_channels P)(ch_fd ch := None)
    \<and> epoll_ctls (po_calls P') Map.empty = Some (m(ch_fd ch := None))"
  using assms
  by (auto simp: close_channel_def disableAll_def channel_update_def updateChannel_def isNoneEvent_def channel_remove_def
      removeChannel_def poller_update_def epoll_ctls_snoc)

text \<open>A loop that is constructed and destroyed leaves nothing behind: whatever other channels were added
  to its poller and removed again in between, no assertion of the destructor fails, the poller has no
  channel left, the kernel watches nothing for it any more, and the three descriptors have been closed,
  each once.\<close>

theorem loop_leaves_nothing:
  assumes "constructLoop False efd (p, tfd) (q, wfd) = Some l" and "distinct [efd, tfd, wfd]"
    and "po_channels P = po_channels (lp_poller l)"
    and "epoll_ctls (po_calls P) Map.empty = epoll_ctls (po_calls (lp_poller l)) Map.empty"
  shows "\<exists>l'. destroyLoop (l\<lparr>lp_poller := P\<rparr>) = Some l' \<and> lp_closed l' = [tfd, wfd, efd]
    \<and> po_channels (lp_poller l') = Map.empty \<and> epoll_ctls (po_calls (lp_poller l')) Map.empty = Some Map.empty
    \<and> \<not> ch_addedToLoop (lp_timerfdChannel l') \<and> \<not> ch_addedToLoop (lp_wakeupChannel l')"
proof -
  note defs = constructLoop_def enableReading_def channel_update_def updateChannel_def newChannel_def newPoller_def
    poller_update_def kReadEvent_def isNoneEvent_def
  have l: "ch_index (lp_timerfdChannel l) = 1" "ch_fd (lp_timerfdChannel l) = tfd" "ch_index (lp_wakeupChannel l) = 1"
    "ch_fd (lp_wakeupChannel l) = wfd" "lp_epollfd l = efd" "0 \<le> efd" "lp_closed l = []"
    "po_channels P = [tfd \<mapsto> p, wfd \<mapsto> q]"
    using assms(1,3) by (auto simp: defs split: if_splits)
  obtain ev where m: "epoll_ctls (po_calls P) Map.empty = Some [tfd \<mapsto> ev, wfd \<mapsto> ev]"
    using assms(1,2,4) by (auto simp: defs split: if_splits)
  from close_channel_ok [OF l(1) m] l(2) assms(2) obtain ch1 P1 where 1: "close_channel (lp_timerfdChannel l) P = Some (ch1, P1)"
    "ch_fd ch1 = tfd" "\<not> ch_addedToLoop ch1" "po_channels P1 = [wfd \<mapsto> q]"
    "epoll_ctls (po_calls P1) Map.empty = Some [wfd \<mapsto> ev]"
    using l(8) by (auto simp: fun_upd_twist)
  from close_channel_ok [OF l(3) 1(5)] l(4) obtain ch2 P2 where 2: "close_channel (lp_wakeupChannel l) P1 = Some (ch2, P2)"
    "ch_fd ch2 = wfd" "\<not> ch_addedToLoop ch2" "po_channels P2 = Map.empty"
    "epoll_ctls (po_calls P2) Map.empty = Some Map.empty"
    using 1(4) by auto
  show ?thesis using l(5-7) 1 2 by (simp add: destroyLoop_def destroyTimers_def destroyPoller_def)
qed

end
