(* ===== verification/Event_Loop.thy ===== *)
theory Event_Loop
  imports Prelude
begin

section \<open>The event loop\<close>

text \<open>
  \<open>src/EventLoop.cpp\<close>: the loop of one thread, the queue of functors and the eventfd by which other
  threads wake it. Every thread's calls are steps that interleave; \<open>queueInLoop\<close> and \<open>quit\<close> from
  another thread are two of them, the change and the write of the eventfd. \<open>el_posted\<close>, \<open>el_ran\<close> and
  \<open>el_inline\<close> record the functors queued, run from the queue and run inline by \<open>runInLoop\<close>. What \<open>poll\<close>
  returns is a parameter, but the wake-up channel is only active while the eventfd is readable.
\<close>

subsection \<open>The loop and its functors\<close>

text \<open>What code does on the loop's thread, as far as the loop is concerned: it queues a functor, runs
  one inline or asks the loop to quit. A functor is named and is the list of what it does.\<close>

datatype loop_functor = Functor nat "loop_action list"
  and loop_action = QueueInLoop loop_functor | RunInLoop loop_functor | Quit

datatype channel_event = WakeupEvent | ChannelEvent "loop_action list"

text \<open>Where the loop's thread is: outside \<open>loop()\<close>, at the test of \<open>while (!quit_)\<close>, in \<open>poll\<close>, in
  the handlers of the active channels or in \<open>doPendingFunctors\<close>; the action list is what the current
  callback still has to do.\<close>

datatype loop_pc = Outside | Checking | Polling
  | Handling "loop_action list" "channel_event list"
  | Running "loop_action list" "loop_functor list"

record EventLoop =
  el_pc :: loop_pc
  el_looping :: bool
  el_quit :: bool
  el_eventHandling :: bool
  el_callingPendingFunctors :: bool
  el_iteration :: nat
  el_pendingFunctors :: "loop_functor list"
  el_wakeupFd :: nat
  el_posted :: "loop_functor list"
  el_ran :: "loop_functor list"
  el_inline :: "loop_functor list"

definition newEventLoop :: EventLoop where
  "newEventLoop =
     \<lparr>el_pc = Outside, el_looping = False, el_quit = False, el_eventHandling = False,
      el_callingPendingFunctors = False, el_iteration = 0, el_pendingFunctors = [], el_wakeupFd = 0,
      el_posted = [], el_ran = [], el_inline = []\<rparr>"

subsection \<open>Operations\<close>

text \<open>An eventfd is a 64-bit counter: a write adds, but fails when the counter would reach its
  maximum; a read takes it to 0 and fails at 0.\<close>

definition wakeup :: "EventLoop \<Rightarrow> EventLoop" where
  "wakeup el =
     (if el_wakeupFd el + 1 < 2 ^ 64 - 1 then el\<lparr>el_wakeupFd := el_wakeupFd el + 1\<rparr> else el)"

definition handleWakeup :: "EventLoop \<Rightarrow> EventLoop" where
  "handleWakeup el = el\<lparr>el_wakeupFd := 0\<rparr>"

definition push_functor :: "loop_functor \<Rightarrow> EventLoop \<Rightarrow> EventLoop" where
  "push_functor cb el =
     el\<lparr>el_pendingFunctors := el_pendingFunctors el @ [cb], el_posted := el_posted el @ [cb]\<rparr>"

definition loop_queueInLoop :: "loop_functor \<Rightarrow> EventLoop \<Rightarrow> EventLoop" where
  "loop_queueInLoop cb el =
     (let el1 = push_functor cb el
      in if el_callingPendingFunctors el1 then wakeup el1 else el1)"

definition quit :: "EventLoop \<Rightarrow> EventLoop" where
  "quit el = el\<lparr>el_quit := True\<rparr>"

text \<open>One action of a callback; \<open>runInLoop\<close> on the loop's thread calls the functor on the spot.\<close>

fun perform :: "loop_action \<Rightarrow> EventLoop \<Rightarrow> loop_action list \<times> EventLoop" where
  "perform (QueueInLoop cb) el = ([], loop_queueInLoop cb el)"
| "perform (RunInLoop (Functor n acts)) el = (acts, el\<lparr>el_inline := el_inline el @ [Functor n acts]\<rparr>)"
| "perform Quit el = ([], quit el)"

text \<open>The next step of the loop's thread; \<open>active\<close> is what \<open>poll\<close> returns if the thread is there.\<close>

definition enter_loop :: "EventLoop \<Rightarrow> EventLoop" where
  "enter_loop el = el\<lparr>el_pc := Checking, el_looping := True, el_quit := False\<rparr>"

definition swap_functors :: "EventLoop \<Rightarrow> EventLoop" where
  "swap_functors el =
     el\<lparr>el_eventHandling := False, el_callingPendingFunctors := True,
        el_pc := Running [] (el_pendingFunctors el), el_pendingFunctors := []\<rparr>"

fun loop_next :: "channel_event list \<Rightarrow> loop_pc \<Rightarrow> EventLoop \<Rightarrow> EventLoop" where
  "loop_next active Outside el = enter_loop el"
| "loop_next active Checking el =
     (if el_quit el then el\<lparr>el_pc := Outside, el_looping := False\<rparr> else el\<lparr>el_pc := Polling\<rparr>)"
| "loop_next active Polling el =
     el\<lparr>el_pc := Handling [] active, el_iteration := el_iteration el + 1, el_eventHandling := True\<rparr>"
| "loop_next active (Handling (a # as) chs) el =
     (case perform a el of (acts, el1) \<Rightarrow> el1\<lparr>el_pc := Handling (acts @ as) chs\<rparr>)"
| "loop_next active (Handling [] (WakeupEvent # chs)) el = handleWakeup el\<lparr>el_pc := Handling [] chs\<rparr>"
| "loop_next active (Handling [] (ChannelEvent acts # chs)) el = el\<lparr>el_pc := Handling acts chs\<rparr>"
| "loop_next active (Handling [] []) el = swap_functors el"
| "loop_next active (Running (a # as) fs) el =
     (case perform a el of (acts, el1) \<Rightarrow> el1\<lparr>el_pc := Running (acts @ as) fs\<rparr>)"
| "loop_next active (Running [] (Functor n acts # fs)) el =
     el\<lparr>el_pc := Running acts fs, el_ran := el_ran el @ [Functor n acts]\<rparr>"
| "loop_next active (Running [] []) el = el\<lparr>el_callingPendingFunctors := False, el_pc := Checking\<rparr>"

subsection \<open>All threads\<close>

text \<open>A state of the process: the loop and the number of calls of other threads that have pushed a
  functor or set \<open>quit_\<close> and are still to write the eventfd. With \<open>owner\<close>, the loop's thread may also
  use the loop while it is outside \<open>loop()\<close>.\<close>

inductive loop_step :: "bool \<Rightarrow> EventLoop \<times> nat \<Rightarrow> EventLoop \<times> nat \<Rightarrow> bool" for owner where
  LLoop: "(el_wakeupFd el = 0 \<Longrightarrow> WakeupEvent \<notin> set active) \<Longrightarrow>
    loop_step owner (el, owed) (loop_next active (el_pc el) el, owed)"
| LPush: "loop_step owner (el, owed) (push_functor cb el, owed + 1)"
| LQuit: "loop_step owner (el, owed) (quit el, owed + 1)"
| LWake: "0 < owed \<Longrightarrow> loop_step owner (el, owed) (wakeup el, owed - 1)"
| LOwner: "owner \<Longrightarrow> el_pc el = Outside \<Longrightarrow> loop_step owner (el, owed) (loop_queueInLoop cb el, owed)"
| LOwnerQuit: "el_pc el = Outside \<Longrightarrow> loop_step owner (el, owed) (quit el, owed)"

abbreviation loop_steps :: "bool \<Rightarrow> EventLoop \<times> nat \<Rightarrow> EventLoop \<times> nat \<Rightarrow> bool" where
  "loop_steps owner \<equiv> (loop_step owner)\<^sup>*\<^sup>*"

subsection \<open>Invariants\<close>

text \<open>What the functors still to run are, in the order they will run.\<close>

definition el_batch :: "EventLoop \<Rightarrow> loop_functor list" where
  "el_batch el = (case el_pc el of Running acts fs \<Rightarrow> fs | _ \<Rightarrow> [])"

definition loop_inv :: "EventLoop \<Rightarrow> bool" where
  "loop_inv el \<longleftrightarrow> el_posted el = el_ran el @ el_batch el @ el_pendingFunctors el
     \<and> (el_looping el \<longleftrightarrow> el_pc el \<noteq> Outside)
     \<and> (el_callingPendingFunctors el \<longleftrightarrow> (\<exists>acts fs. el_pc el = Running acts fs))
     \<and> (el_eventHandling el \<longleftrightarrow> (\<exists>acts chs. el_pc el = Handling acts chs))"

lemmas loop_defs = loop_inv_def el_batch_def wakeup_def handleWakeup_def push_functor_def loop_queueInLoop_def
  quit_def enter_loop_def swap_functors_def

lemma perform_pc: "perform a el = (acts, el1) \<Longrightarrow> el_pc el1 = el_pc el"
  by (cases "(a, el)" rule: perform.cases) (auto simp: loop_defs Let_def)

lemma wakeup_inv: "loop_inv el \<Longrightarrow> loop_inv (wakeup el)"
  by (auto simp: loop_defs)

lemma push_inv: "loop_inv el \<Longrightarrow> loop_inv (push_functor cb el)"
  by (auto simp: loop_defs)

lemma queue_inv: "loop_inv el \<Longrightarrow> loop_inv (loop_queueInLoop cb el)"
  by (simp add: loop_queueInLoop_def Let_def push_inv wakeup_inv)

lemma quit_inv: "loop_inv el \<Longrightarrow> loop_inv (quit el)"
  by (auto simp: loop_defs)

lemma perform_inv: "perform a el = (acts, el1) \<Longrightarrow> loop_inv el \<Longrightarrow> loop_inv el1"
  by (cases "(a, el)" rule: perform.cases) (auto simp: queue_inv quit_inv, auto simp: loop_inv_def el_batch_def)

lemma loop_next_inv: "loop_inv el \<Longrightarrow> loop_inv (loop_next active (el_pc el) el)"
proof (induction active "el_pc el" el rule: loop_next.induct)
  case (4 active a as chs el)
  obtain acts el1 where p: "perform a el = (acts, el1)" by (cases "perform a el")
  have "loop_inv (el1\<lparr>el_pc := Handling (acts @ as) chs\<rparr>)"
    using perform_inv [OF p 4(2)] perform_pc [OF p] 4(1) [symmetric] by (simp add: loop_inv_def el_batch_def)
  with 4(1) p show ?case by (metis loop_next.simps(4) case_prod_conv)
next
  case (8 active a as fs el)
  obtain acts el1 where p: "perform a el = (acts, el1)" by (cases "perform a el")
  have "loop_inv (el1\<lparr>el_pc := Running (acts @ as) fs\<rparr>)"
    using perform_inv [OF p 8(2)] perform_pc [OF p] 8(1) [symmetric] by (simp add: loop_inv_def el_batch_def)
  with 8(1) p show ?case by (metis loop_next.simps(8) case_prod_conv)
next
  case (1 active el) then show ?case by (simp add: loop_defs flip: 1(1))
next
  case (2 active el) then show ?case by (simp add: loop_defs flip: 2(1))
next
  case (3 active el) then show ?case by (simp add: loop_defs flip: 3(1))
next
  case (5 active chs el) then show ?case by (simp add: loop_defs flip: 5(1))
next
  case (6 active acts chs el) then show ?case by (simp add: loop_defs flip: 6(1))
next
  case (7 active el) then show ?case by (simp add: loop_defs flip: 7(1))
next
  case (9 active n acts fs el) then show ?case by (simp add: loop_defs flip: 9(1))
next
  case (10 active el) then show ?case by (simp add: loop_defs flip: 10(1))
qed

text \<open>The wake-up invariant: once the channels have been handled, functors left for the next
  iteration keep the eventfd readable, or a thread is about to write it.\<close>

definition wake_inv :: "EventLoop \<Rightarrow> nat \<Rightarrow> bool" where
  "wake_inv el owed \<longleftrightarrow> 0 < el_wakeupFd el \<or> 0 < owed \<or>
     (case el_pc el of
        Handling acts chs \<Rightarrow> True
      | Polling \<Rightarrow> el_pendingFunctors el = [] \<and> \<not> el_quit el
      | _ \<Rightarrow> el_pendingFunctors el = [])"

lemma wakeup_readable: "0 < el_wakeupFd (wakeup el)"
  by (simp add: wakeup_def)

lemma wake_perform:
  assumes "perform a el = (acts, el1)" and "wake_inv el owed" and "loop_inv el"
  shows "el_pc el = Running bs fs \<Longrightarrow> wake_inv (el1\<lparr>el_pc := Running (acts @ as) fs\<rparr>) owed"
proof (cases a)
  case (QueueInLoop cb)
  assume r: "el_pc el = Running bs fs"
  then have "el1 = wakeup (push_functor cb el)"
    using QueueInLoop assms(1,3) by (auto simp: loop_queueInLoop_def push_functor_def loop_inv_def)
  then show ?thesis using wakeup_readable by (simp add: wake_inv_def)
next
  case (RunInLoop cb)
  assume "el_pc el = Running bs fs"
  then show ?thesis using RunInLoop assms by (cases cb) (auto simp: wake_inv_def)
next
  case Quit
  assume "el_pc el = Running bs fs"
  then show ?thesis using Quit assms by (auto simp: wake_inv_def quit_def)
qed

lemma wake_next: "wake_inv el owed \<Longrightarrow> loop_inv el \<Longrightarrow> wake_inv (loop_next active (el_pc el) el) owed"
proof (induction active "el_pc el" el rule: loop_next.induct)
  case (4 active a as chs el)
  then show ?case by (simp add: wake_inv_def flip: 4(1)) (simp split: prod.splits)
next
  case (8 active a as fs el)
  obtain acts el1 where p: "perform a el = (acts, el1)" by (cases "perform a el")
  from wake_perform [OF p 8(2,3), of "a # as" fs as] 8(1) p show ?case by (metis loop_next.simps(8) case_prod_conv)
next
  case (1 active el) then show ?case by (simp add: wake_inv_def enter_loop_def flip: 1(1))
next
  case (2 active el) then show ?case by (simp add: wake_inv_def flip: 2(1))
next
  case (3 active el) then show ?case by (simp add: wake_inv_def flip: 3(1))
next
  case (5 active chs el) then show ?case by (simp add: wake_inv_def flip: 5(1))
next
  case (6 active acts chs el) then show ?case by (simp add: wake_inv_def flip: 6(1))
next
  case (7 active el) then show ?case by (simp add: wake_inv_def swap_functors_def flip: 7(1))
next
  case (9 active n acts fs el) then show ?case by (simp add: wake_inv_def flip: 9(1))
next
  case (10 active el) then show ?case by (simp add: wake_inv_def flip: 10(1))
qed

text \<open>The loop's own thread may queue functors before \<open>loop()\<close>, and then nothing makes the eventfd
  readable. What holds even so: functors queued during \<open>doPendingFunctors\<close>, and a \<open>quit\<close> during \<open>poll\<close>, have a
  wake-up.\<close>

definition owner_inv :: "EventLoop \<Rightarrow> nat \<Rightarrow> bool" where
  "owner_inv el owed \<longleftrightarrow> 0 < el_wakeupFd el \<or> 0 < owed \<or>
     (case el_pc el of
        Polling \<Rightarrow> \<not> el_quit el
      | Running acts fs \<Rightarrow> el_pendingFunctors el = []
      | _ \<Rightarrow> True)"

lemma owner_inv_running: "el_pc el = Running acts fs \<Longrightarrow> owner_inv el owed = wake_inv el owed"
  by (simp add: owner_inv_def wake_inv_def)

lemma owner_inv_wake: "owner_inv el owed \<Longrightarrow> el_pendingFunctors el = [] \<Longrightarrow> wake_inv el owed"
  by (auto simp: owner_inv_def wake_inv_def split: loop_pc.splits)

lemma owner_next:
  assumes "owner_inv el owed" and "loop_inv el"
  shows "owner_inv (loop_next active (el_pc el) el) owed"
proof (cases "el_pc el")
  case (Handling acts chs)
  then show ?thesis
    by (cases "(active, el_pc el, el)" rule: loop_next.cases) (auto simp: owner_inv_def swap_functors_def split: prod.splits)
next
  case (Running acts fs)
  with wake_next [of el owed active] assms owner_inv_running have "wake_inv (loop_next active (el_pc el) el) owed" by simp
  then show ?thesis
    using Running by (cases "(active, el_pc el, el)" rule: loop_next.cases) (auto simp: owner_inv_def wake_inv_def split: prod.splits)
qed (use assms in \<open>auto simp: owner_inv_def enter_loop_def\<close>)

lemma loop_step_inv:
  assumes "loop_step owner (el, owed) (el', owed')" and "loop_inv el"
  shows "loop_inv el'" and "\<not> owner \<Longrightarrow> wake_inv el owed \<Longrightarrow> wake_inv el' owed'"
    and "owner_inv el owed \<Longrightarrow> owner_inv el' owed'"
proof -
  show "loop_inv el'" using assms
    by (cases rule: loop_step.cases) (simp_all add: loop_next_inv push_inv quit_inv wakeup_inv queue_inv)
  show "wake_inv el' owed'" if "\<not> owner" "wake_inv el owed"
    using assms(1)
  proof (cases rule: loop_step.cases)
    case (LLoop active)
    then show ?thesis using wake_next that(2) assms(2) by simp
  next
    case LWake
    then show ?thesis using wakeup_readable by (simp add: wake_inv_def)
  qed (use that in \<open>auto simp: wake_inv_def quit_def\<close>)
  show "owner_inv el' owed'" if "owner_inv el owed"
    using assms(1)
  proof (cases rule: loop_step.cases)
    case (LLoop active)
    then show ?thesis using owner_next that assms(2) by simp
  next
    case LWake
    then show ?thesis using wakeup_readable by (simp add: owner_inv_def)
  next
    case (LOwner cb)
    then have "el_pc el' = Outside" by (simp add: loop_queueInLoop_def push_functor_def wakeup_def Let_def)
    then show ?thesis by (simp add: owner_inv_def)
  qed (use that in \<open>auto simp: owner_inv_def quit_def\<close>)
qed

lemma loop_steps_inv:
  assumes "loop_steps owner (el0, owed0) (el, owed)" and "loop_inv el0"
  shows "loop_inv el" and "\<not> owner \<Longrightarrow> wake_inv el0 owed0 \<Longrightarrow> wake_inv el owed"
    and "owner_inv el0 owed0 \<Longrightarrow> owner_inv el owed"
proof -
  have "loop_inv el \<and> (\<not> owner \<longrightarrow> wake_inv el0 owed0 \<longrightarrow> wake_inv el owed) \<and> (owner_inv el0 owed0 \<longrightarrow> owner_inv el owed)"
    using assms(1)
  proof (induction "(el, owed)" arbitrary: el owed rule: rtranclp_induct)
    case (step y)
    then show ?case using loop_step_inv by (cases y) blast
  qed (simp add: assms(2))
  then show "loop_inv el" "\<not> owner \<Longrightarrow> wake_inv el0 owed0 \<Longrightarrow> wake_inv el owed"
    "owner_inv el0 owed0 \<Longrightarrow> owner_inv el owed" by simp_all
qed

lemma newEventLoop_inv: "loop_inv newEventLoop" "owner_inv newEventLoop 0"
  by (simp_all add: newEventLoop_def loop_inv_def el_batch_def owner_inv_def)

subsection \<open>An iteration ends\<close>

primrec loop_run :: "channel_event list \<Rightarrow> nat \<Rightarrow> EventLoop \<Rightarrow> EventLoop" where
  "loop_run active 0 el = el"
| "loop_run active (Suc n) el = loop_run active n (loop_next active (el_pc el) el)"

lemma perform_grows:
  assumes "perform a el = (acts, el1)"
  shows "el_ran el1 = el_ran el" "\<exists>more. el_pendingFunctors el1 = el_pendingFunctors el @ more"
    "size_list size (acts @ as) < size_list size (a # as)"
  using assms by (cases "(a, el)" rule: perform.cases; auto simp: loop_defs Let_def)+

text \<open>Work that the handlers still have to do; every step takes some of it away.\<close>

definition handling_work :: "loop_action list \<Rightarrow> channel_event list \<Rightarrow> nat" where
  "handling_work acts chs = size_list size acts
     + (\<Sum>c \<leftarrow> chs. case c of WakeupEvent \<Rightarrow> 1 | ChannelEvent as \<Rightarrow> size_list size as + 1)"

lemma handlers_end:
  assumes "el_pc el = Handling acts chs"
  shows "\<exists>n more. el_pc (loop_run active n el) = Running [] (el_pendingFunctors el @ more)
    \<and> el_ran (loop_run active n el) = el_ran el"
  using assms
proof (induction "handling_work acts chs" arbitrary: el acts chs rule: less_induct)
  case less
  let ?el = "loop_next active (el_pc el) el"
  have step: ?case if "\<exists>n more. el_pc (loop_run active n ?el) = Running [] (el_pendingFunctors el @ more)
    \<and> el_ran (loop_run active n ?el) = el_ran el"
    using that by (metis loop_run.simps(2))
  show ?case
  proof (cases acts)
    case (Cons a as)
    obtain b el1 where p: "perform a el = (b, el1)" by (cases "perform a el")
    from perform_grows(1,2) [OF p] perform_grows(3) [OF p, of as] obtain more where
      "el_ran el1 = el_ran el" "el_pendingFunctors el1 = el_pendingFunctors el @ more"
      "handling_work (b @ as) chs < handling_work acts chs" by (auto simp: handling_work_def Cons)
    with less.hyps [of "b @ as" chs ?el] show ?thesis
      using p less.prems Cons by (intro step) auto
  next
    case Nil
    show ?thesis
    proof (cases chs)
      case Nil
      with \<open>acts = []\<close> less.prems have "el_pc ?el = Running [] (el_pendingFunctors el)" "el_ran ?el = el_ran el"
        by (simp_all add: swap_functors_def)
      then show ?thesis by (intro step exI [of _ 0] exI [of _ "[]"]) simp
    next
      case (Cons c cs)
      show ?thesis
      proof (cases c)
        case WakeupEvent
        with less.hyps [of "[]" cs ?el] less.prems Cons \<open>acts = []\<close> show ?thesis
          by (intro step) (simp add: handling_work_def handleWakeup_def)
      next
        case (ChannelEvent as)
        with less.hyps [of as cs ?el] less.prems Cons \<open>acts = []\<close> show ?thesis
          by (intro step) (simp add: handling_work_def)
      qed
    qed
  qed
qed

lemma functors_end:
  assumes "el_pc el = Running acts fs"
  shows "\<exists>n. el_pc (loop_run active n el) = Checking \<and> el_ran (loop_run active n el) = el_ran el @ fs"
  using assms
proof (induction "size_list size acts + size_list size fs" arbitrary: el acts fs rule: less_induct)
  case less
  let ?el = "loop_next active (el_pc el) el"
  have step: ?case if "\<exists>n. el_pc (loop_run active n ?el) = Checking \<and> el_ran (loop_run active n ?el) = el_ran el @ fs"
    using that by (metis loop_run.simps(2))
  show ?case
  proof (cases acts)
    case (Cons a as)
    obtain b el1 where p: "perform a el = (b, el1)" by (cases "perform a el")
    from less.hyps [of "b @ as" fs ?el] perform_grows(1,2) [OF p] perform_grows(3) [OF p, of as] p less.prems Cons show ?thesis
      by (intro step) simp
  next
    case Nil
    show ?thesis
    proof (cases fs)
      case Nil
      with \<open>acts = []\<close> less.prems show ?thesis by (intro step exI [of _ 0]) simp
    next
      case (Cons f gs)
      obtain n b where "f = Functor n b" by (cases f)
      with less.hyps [of b gs ?el] less.prems Cons \<open>acts = []\<close> show ?thesis by (intro step) simp
    qed
  qed
qed

lemma loop_run_add: "loop_run active (m + n) el = loop_run active n (loop_run active m el)"
  by (induction m arbitrary: el) simp_all

subsection \<open>A loop at work\<close>

text \<open>Another thread queues a functor, which queues a second one when it runs, while the loop's thread
  is in \<open>poll\<close>; the first line is before the thread has written the eventfd.\<close>

definition sample_functor :: loop_functor where
  "sample_functor = Functor 1 [QueueInLoop (Functor 2 [])]"

definition polling_loop :: EventLoop where
  "polling_loop = push_functor sample_functor (loop_run [] 2 newEventLoop)"

lemma polling_loop_reached: "loop_steps False (newEventLoop, 0) (polling_loop, 1)"
proof -
  have "loop_step False (newEventLoop, 0) (loop_run [] 1 newEventLoop, 0)"
    "loop_step False (loop_run [] 1 newEventLoop, 0) (loop_run [] 2 newEventLoop, 0)"
    using LLoop [of newEventLoop "[]" False 0] LLoop [of "loop_run [] 1 newEventLoop" "[]" False 0]
    by (simp_all add: numeral_2_eq_2)
  moreover have "loop_step False (loop_run [] 2 newEventLoop, 0) (polling_loop, 1)"
    using LPush [of False _ 0] by (simp add: polling_loop_def)
  ultimately show ?thesis by (meson r_into_rtranclp rtranclp.rtrancl_into_rtrancl)
qed

lemma polling_loop_state: "el_pc polling_loop = Polling" "el_pendingFunctors polling_loop = [sample_functor]"
    "el_ran polling_loop = []"
  by (simp_all add: polling_loop_def newEventLoop_def numeral_2_eq_2 enter_loop_def push_functor_def)

text \<open>The same functor, queued by the loop's own thread before \<open>loop()\<close>; nothing else happens.\<close>

definition early_loop :: EventLoop where
  "early_loop = loop_queueInLoop sample_functor newEventLoop"

lemma loop_run_steps: "loop_steps owner (el, owed) (loop_run [] n el, owed)"
proof (induction n arbitrary: el)
  case (Suc n)
  have "loop_step owner (el, owed) (loop_next [] (el_pc el) el, owed)" by (rule LLoop) simp
  with Suc show ?case by (simp add: converse_rtranclp_into_rtranclp)
qed simp

lemma early_loop_steps: "loop_steps True (newEventLoop, 0) (loop_run [] n early_loop, 0)"
proof -
  have "loop_step True (newEventLoop, 0) (early_loop, 0)"
    unfolding early_loop_def by (rule LOwner) (simp_all add: newEventLoop_def)
  with loop_run_steps [of True early_loop 0 n] show ?thesis by (simp add: converse_rtranclp_into_rtranclp)
qed

lemma early_loop_runs:
  "el_pc (loop_run [] 4 early_loop) = Running [] [sample_functor]" "el_pc (loop_run [] 8 early_loop) = Polling"
  "el_pendingFunctors (loop_run [] 8 early_loop) = [Functor 2 []]"
proof -
  have wakeup_same: "el_pc (wakeup el) = el_pc el" "el_pendingFunctors (wakeup el) = el_pendingFunctors el"
    "el_quit (wakeup el) = el_quit el" for el by (simp_all add: wakeup_def)
  note defs = early_loop_def newEventLoop_def sample_functor_def loop_queueInLoop_def push_functor_def
    enter_loop_def swap_functors_def
  show "el_pc (loop_run [] 4 early_loop) = Running [] [sample_functor]" "el_pc (loop_run [] 8 early_loop) = Polling"
    "el_pendingFunctors (loop_run [] 8 early_loop) = [Functor 2 []]"
    by (simp_all add: defs wakeup_same eval_nat_numeral)
qed

subsection \<open>Properties\<close>

text \<open>C13: functors run in the order they were queued, each exactly once, and none is lost. Whatever
  the threads do, the functors queued so far are the functors run, followed by the rest of the batch in
  execution and the pending ones; and the two flags tell truly where the loop's thread is.\<close>

theorem loop_functors_in_order:
  assumes "loop_steps owner (newEventLoop, 0) (el, owed)"
  shows "el_posted el = el_ran el @ el_batch el @ el_pendingFunctors el
    \<and> (el_looping el \<longleftrightarrow> el_pc el \<noteq> Outside)
    \<and> (el_callingPendingFunctors el \<longleftrightarrow> (\<exists>acts fs. el_pc el = Running acts fs))"
  using loop_steps_inv(1) [OF assms newEventLoop_inv(1)] by (simp_all add: loop_inv_def)

theorem loop_functors_in_order_witness:
  "el_posted polling_loop = [sample_functor] \<and> el_looping polling_loop"
  using loop_functors_in_order [OF polling_loop_reached] by (simp add: polling_loop_state el_batch_def)

text \<open>C12: no wake-up is lost. If a functor is pending or \<open>quit\<close> was requested while the loop's thread
  is in \<open>poll\<close>, the eventfd is readable, or another thread that queued or quit is just about to write it:
  however the calls interleave, \<open>poll\<close> does not sleep on work. The condition is on the loop's own thread,
  whose \<open>queueInLoop\<close> outside \<open>loop()\<close> writes no eventfd: it may have done so earlier, but since then there
  was a state with no functor pending, or one in \<open>doPendingFunctors\<close>.\<close>

theorem loop_no_lost_wakeup:
  assumes "loop_steps True (newEventLoop, 0) (el0, owed0)"
    and "el_pendingFunctors el0 = [] \<or> (\<exists>acts fs. el_pc el0 = Running acts fs)"
    and "loop_steps False (el0, owed0) (el, owed)" and "el_pc el = Polling"
    and "el_pendingFunctors el \<noteq> [] \<or> el_quit el"
  shows "0 < el_wakeupFd el \<or> 0 < owed"
proof -
  note inv = loop_steps_inv [OF assms(1) newEventLoop_inv(1)]
  from inv(3) [OF newEventLoop_inv(2)] assms(2) have "wake_inv el0 owed0"
    using owner_inv_wake owner_inv_running by blast
  then have "wake_inv el owed" using loop_steps_inv(2) [OF assms(3) inv(1)] by simp
  with assms(4,5) show ?thesis by (auto simp: wake_inv_def)
qed

theorem loop_no_lost_wakeup_witness:
  "el_pc (loop_run [] 8 early_loop) = Polling \<and> el_pendingFunctors (loop_run [] 8 early_loop) = [Functor 2 []]
    \<and> 0 < el_wakeupFd (loop_run [] 8 early_loop)"
proof -
  have "loop_steps False (loop_run [] 4 early_loop, 0) (loop_run [] 8 early_loop, 0)"
    using loop_run_steps [of False "loop_run [] 4 early_loop" 0 4] loop_run_add [of "[]" 4 4 early_loop] by simp
  from loop_no_lost_wakeup [OF early_loop_steps [of 4] _ this] show ?thesis by (simp add: early_loop_runs)
qed

text \<open>Without the condition it can happen. The loop's thread queues a functor before \<open>loop()\<close>, and with no
  other event the loop waits in \<open>poll\<close> with the functor pending, the eventfd at 0 and no thread about to
  write it; the functor runs when \<open>poll\<close> times out.\<close>

theorem loop_early_functor_waits:
  "loop_steps True (newEventLoop, 0) (loop_run [] 2 early_loop, 0) \<and> el_pc (loop_run [] 2 early_loop) = Polling
    \<and> el_pendingFunctors (loop_run [] 2 early_loop) = [sample_functor] \<and> el_wakeupFd (loop_run [] 2 early_loop) = 0"
  using early_loop_steps [of 2]
  by (simp add: early_loop_def newEventLoop_def loop_queueInLoop_def push_functor_def enter_loop_def numeral_2_eq_2)

text \<open>C27: an iteration runs what was pending. When \<open>poll\<close> returns, whatever channels are active and
  whatever their handlers and the functors do, the loop's thread comes back to the test of \<open>quit_\<close> after
  finitely many steps, and has run every functor that was pending, in order, before those queued later.\<close>

theorem loop_runs_pending:
  assumes "el_pc el = Polling"
  shows "\<exists>n more. el_pc (loop_run active n el) = Checking
    \<and> el_ran (loop_run active n el) = el_ran el @ el_pendingFunctors el @ more"
proof -
  let ?el = "loop_next active (el_pc el) el"
  have "el_pc ?el = Handling [] active" "el_ran ?el = el_ran el" "el_pendingFunctors ?el = el_pendingFunctors el"
    using assms by simp_all
  with handlers_end [of ?el "[]" active active] obtain n more where
    r: "el_pc (loop_run active n ?el) = Running [] (el_pendingFunctors el @ more)"
      "el_ran (loop_run active n ?el) = el_ran el" by auto
  from functors_end [OF r(1), of active] obtain m where
    "el_pc (loop_run active m (loop_run active n ?el)) = Checking"
    "el_ran (loop_run active m (loop_run active n ?el)) = el_ran el @ el_pendingFunctors el @ more"
    using r(2) by auto
  then show ?thesis by (metis loop_run.simps(2) loop_run_add)
qed

theorem loop_runs_pending_witness:
  "\<exists>n more. el_pc (loop_run [ChannelEvent [Quit]] n polling_loop) = Checking
    \<and> el_ran (loop_run [ChannelEvent [Quit]] n polling_loop) = sample_functor # more"
  using loop_runs_pending [of polling_loop "[ChannelEvent [Quit]]"] by (simp add: polling_loop_state)

text \<open>A \<open>quit\<close> that arrives before \<open>loop()\<close> has started is lost. Another thread calls \<open>quit\<close>, writes
  the eventfd, and only then the loop's thread enters \<open>loop()\<close>, which resets \<open>quit_\<close>: with no further
  call the loop never ends. This is what the destructor of \<open>EventLoopThread\<close> can do after \<open>startLoop\<close>
  has returned, and it then waits for the thread for ever.\<close>

theorem loop_early_quit_lost:
  "\<exists>el. loop_steps False (newEventLoop, 0) (quit newEventLoop, 1) \<and> loop_steps False (quit newEventLoop, 1) (el, 0)
     \<and> (\<forall>n. el_looping (loop_run [] n el))"
proof -
  let ?q = "wakeup (quit newEventLoop)" and ?el = "loop_next [] Outside (wakeup (quit newEventLoop))"
  have "loop_step False (newEventLoop, 0) (quit newEventLoop, 1)" using LQuit [of False newEventLoop 0] by simp
  moreover have "loop_step False (quit newEventLoop, 1) (?q, 0)" using LWake [of 1 False] by simp
  moreover have "loop_step False (?q, 0) (?el, 0)"
    using LLoop [of ?q "[]" False 0] by (simp add: wakeup_def quit_def newEventLoop_def)
  moreover have "el_looping (loop_run [] n el)"
    if "el_looping el" "\<not> el_quit el" "el_pendingFunctors el = []"
      "el_pc el \<in> {Checking, Polling, Handling [] [], Running [] []}" for n el
    using that by (induction n arbitrary: el) (auto simp: swap_functors_def)
  then have "el_looping (loop_run [] n ?el)" for n
    by (simp add: enter_loop_def wakeup_def quit_def newEventLoop_def)
  ultimately show ?thesis by (meson r_into_rtranclp rtranclp.rtrancl_into_rtrancl)
qed

end
