(* ===== verification/Event_Loop_Thread.thy ===== *)
theory Event_Loop_Thread
  imports Event_Loop
begin

section \<open>A thread that runs an event loop\<close>

text \<open>
  \<open>include/EventLoopThread.h\<close> and \<open>src/EventLoopThread.cpp\<close>: the thread that owns the object and the
  thread of \<open>threadFunc\<close>, interleaved step by step. A critical section of \<open>mutex_\<close> is one step, except
  the destructor's, which is two: \<open>quit()\<close> sets the flag and then writes the eventfd, and the loop runs
  on in between. The condition variable is its predicate. What other threads queue into the loop is
  part of the model of the loop itself; here its events carry the actions.
\<close>

subsection \<open>State and operations\<close>

text \<open>Where the thread of \<open>threadFunc\<close> is, and where the owner is.\<close>

datatype thread_pc = NotCreated | Constructing | Publishing | Entering | Looping | Clearing | Finished

datatype owner_pc = Fresh | Waiting | Started | Waking | Joining | Destroyed

text \<open>\<open>et_published\<close> says that \<open>loop_\<close> is not null; \<open>et_object\<close> is the loop \<open>threadFunc\<close> has allocated,
  as long as it lives.\<close>

record EventLoopThread =
  et_published :: bool
  et_exiting :: bool
  et_object :: "EventLoop option"
  et_thread :: thread_pc
  et_owner :: owner_pc

definition newEventLoopThread :: EventLoopThread where
  "newEventLoopThread =
     \<lparr>et_published = False, et_exiting = False, et_object = None, et_thread = NotCreated, et_owner = Fresh\<rparr>"

definition startLoop_spawn :: "EventLoopThread \<Rightarrow> EventLoopThread" where
  "startLoop_spawn t = t\<lparr>et_thread := Constructing, et_owner := Waiting\<rparr>"

text \<open>\<^const>\<open>None\<close>: the owner waits.\<close>

definition startLoop_return :: "EventLoopThread \<Rightarrow> EventLoopThread option" where
  "startLoop_return t = (if et_published t then Some (t\<lparr>et_owner := Started\<rparr>) else None)"

definition destroy_quit :: "EventLoopThread \<Rightarrow> EventLoopThread" where
  "destroy_quit t =
     (let t1 = t\<lparr>et_exiting := True\<rparr>
      in if et_published t1 then t1\<lparr>et_object := map_option quit (et_object t1), et_owner := Waking\<rparr>
         else t1\<lparr>et_owner := (if et_thread t1 = NotCreated then Destroyed else Joining)\<rparr>)"

definition destroy_wake :: "EventLoopThread \<Rightarrow> EventLoopThread" where
  "destroy_wake t = t\<lparr>et_object := map_option wakeup (et_object t), et_owner := Joining\<rparr>"

definition destroy_join :: "EventLoopThread \<Rightarrow> EventLoopThread option" where
  "destroy_join t = (if et_thread t = Finished then Some (t\<lparr>et_owner := Destroyed\<rparr>) else None)"

text \<open>The owner holds the mutex across steps only between the two parts of \<open>quit()\<close>.\<close>

definition mutex_held :: "EventLoopThread \<Rightarrow> bool" where
  "mutex_held t \<longleftrightarrow> et_owner t = Waking"

text \<open>The next step of the thread, \<^const>\<open>None\<close> when it cannot go on; \<open>active\<close> is what \<open>poll\<close> returns
  if the loop is there.\<close>

fun threadFunc :: "channel_event list \<Rightarrow> thread_pc \<Rightarrow> EventLoopThread \<Rightarrow> EventLoopThread option" where
  "threadFunc active NotCreated t = None"
| "threadFunc active Constructing t = Some (t\<lparr>et_object := Some newEventLoop, et_thread := Publishing\<rparr>)"
| "threadFunc active Publishing t =
     (if mutex_held t then None else Some (t\<lparr>et_published := True, et_thread := Entering\<rparr>))"
| "threadFunc active Entering t =
     (case et_object t of None \<Rightarrow> None
      | Some el \<Rightarrow> Some (t\<lparr>et_object := Some (enter_loop el), et_thread := Looping\<rparr>))"
| "threadFunc active Looping t =
     (case et_object t of None \<Rightarrow> None
      | Some el \<Rightarrow>
          (let el1 = loop_next active (el_pc el) el
           in Some (t\<lparr>et_object := Some el1,
                      et_thread := (if el_pc el1 = Outside then Clearing else Looping)\<rparr>)))"
| "threadFunc active Clearing t =
     (if mutex_held t then None
      else Some (t\<lparr>et_published := False, et_object := None, et_thread := Finished\<rparr>))"
| "threadFunc active Finished t = None"

subsection \<open>Both threads\<close>

text \<open>Before \<open>startLoop\<close> has returned nobody else knows the loop, so the only channels with events are
  its own.\<close>

inductive thread_step :: "EventLoopThread \<Rightarrow> EventLoopThread \<Rightarrow> bool" where
  TSpawn: "et_owner t = Fresh \<Longrightarrow> thread_step t (startLoop_spawn t)"
| TReturn: "et_owner t = Waiting \<Longrightarrow> startLoop_return t = Some t' \<Longrightarrow> thread_step t t'"
| TQuit: "et_owner t = Fresh \<or> et_owner t = Started \<Longrightarrow> thread_step t (destroy_quit t)"
| TWakeup: "et_owner t = Waking \<Longrightarrow> thread_step t (destroy_wake t)"
| TJoin: "et_owner t = Joining \<Longrightarrow> destroy_join t = Some t' \<Longrightarrow> thread_step t t'"
| TThread: "(et_owner t = Waiting \<Longrightarrow> set active \<subseteq> {WakeupEvent}) \<Longrightarrow>
    threadFunc active (et_thread t) t = Some t' \<Longrightarrow> thread_step t t'"

abbreviation thread_steps :: "EventLoopThread \<Rightarrow> EventLoopThread \<Rightarrow> bool" where
  "thread_steps \<equiv> thread_step\<^sup>*\<^sup>*"

fun thread_run :: "channel_event list list \<Rightarrow> EventLoopThread \<Rightarrow> EventLoopThread option" where
  "thread_run [] t = Some t"
| "thread_run (active # as) t =
     (case threadFunc active (et_thread t) t of None \<Rightarrow> None | Some t' \<Rightarrow> thread_run as t')"

subsection \<open>Invariants\<close>

definition published_states :: "thread_pc set" where
  "published_states = {Entering, Looping, Clearing}"

text \<open>The pointer is set exactly while the thread is between publishing and clearing it, the object
  lives then, and while the owner is inside \<open>quit()\<close> the thread is in between.\<close>

definition thread_inv :: "EventLoopThread \<Rightarrow> bool" where
  "thread_inv t \<longleftrightarrow>
     (et_published t \<longleftrightarrow> et_thread t \<in> published_states)
     \<and> (et_object t \<noteq> None \<longleftrightarrow> et_thread t = Publishing \<or> et_thread t \<in> published_states)
     \<and> (et_owner t = Waking \<longrightarrow> et_published t)
     \<and> (et_owner t = Fresh \<longrightarrow> et_thread t = NotCreated)
     \<and> (et_thread t = NotCreated \<longrightarrow> et_owner t \<in> {Fresh, Destroyed})
     \<and> (et_owner t = Destroyed \<longrightarrow> et_thread t \<in> {NotCreated, Finished})
     \<and> (\<forall>el. et_thread t = Looping \<longrightarrow> et_object t = Some el \<longrightarrow> el_pc el \<noteq> Outside)"

text \<open>While \<open>startLoop\<close> waits, the loop has nothing to do but its own channels.\<close>

definition idle_loop :: "EventLoop \<Rightarrow> bool" where
  "idle_loop el \<longleftrightarrow> \<not> el_quit el \<and> el_pendingFunctors el = []
     \<and> (case el_pc el of Handling acts chs \<Rightarrow> acts = [] \<and> set chs \<subseteq> {WakeupEvent}
          | Running acts fs \<Rightarrow> acts = [] \<and> fs = [] | _ \<Rightarrow> True)"

definition waiting_inv :: "EventLoopThread \<Rightarrow> bool" where
  "waiting_inv t \<longleftrightarrow> et_owner t = Waiting \<longrightarrow>
     et_thread t \<in> {Constructing, Publishing, Entering, Looping}
     \<and> (\<forall>el. et_object t = Some el \<longrightarrow> idle_loop el \<and> (et_thread t \<noteq> Looping \<longrightarrow> el_pc el = Outside))"

lemma idle_next:
  assumes "idle_loop el" and "el_pc el \<noteq> Outside" and "set active \<subseteq> {WakeupEvent}"
  shows "idle_loop (loop_next active (el_pc el) el)" and "el_pc (loop_next active (el_pc el) el) \<noteq> Outside"
proof -
  have "idle_loop (loop_next active (el_pc el) el) \<and> el_pc (loop_next active (el_pc el) el) \<noteq> Outside"
  proof (cases "el_pc el")
    case (Handling acts chs)
    with assms(1) have a: "acts = []" "set chs \<subseteq> {WakeupEvent}" by (simp_all add: idle_loop_def)
    show ?thesis
    proof (cases chs)
      case Nil
      with Handling a assms(1) show ?thesis by (simp add: idle_loop_def swap_functors_def)
    next
      case (Cons c cs)
      with a have "c = WakeupEvent" by simp
      with Cons Handling a assms(1) show ?thesis by (simp add: idle_loop_def handleWakeup_def)
    qed
  next
    case (Running acts fs)
    with assms(1) show ?thesis by (simp add: idle_loop_def)
  qed (use assms in \<open>simp_all add: idle_loop_def\<close>)
  then show "idle_loop (loop_next active (el_pc el) el)" "el_pc (loop_next active (el_pc el) el) \<noteq> Outside" by simp_all
qed

lemma thread_step_inv:
  assumes "thread_step t t'" and "thread_inv t" and "waiting_inv t"
  shows "thread_inv t'" and "waiting_inv t'"
proof -
  show "thread_inv t'" using assms(1)
  proof (cases rule: thread_step.cases)
    case (TThread active)
    then show ?thesis using assms(2)
      by (cases "et_thread t") (auto simp: thread_inv_def published_states_def mutex_held_def Let_def enter_loop_def
          split: if_splits option.splits)
  qed (use assms(2) in \<open>auto simp: thread_inv_def published_states_def startLoop_spawn_def startLoop_return_def
      destroy_quit_def destroy_wake_def destroy_join_def Let_def quit_def wakeup_def split: if_splits\<close>)
  show "waiting_inv t'" using assms(1)
  proof (cases rule: thread_step.cases)
    case (TThread active)
    show ?thesis
    proof (cases "et_thread t = Looping \<and> et_owner t = Waiting")
      case True
      with TThread assms(2,3) idle_next show ?thesis
        by (auto simp: waiting_inv_def thread_inv_def Let_def split: option.splits)
    next
      case False
      with TThread assms(3) show ?thesis
        by (cases "et_thread t") (auto simp: waiting_inv_def mutex_held_def Let_def enter_loop_def idle_loop_def
            newEventLoop_def split: if_splits option.splits)
    qed
  qed (use assms(2) in \<open>auto simp: waiting_inv_def thread_inv_def startLoop_spawn_def startLoop_return_def published_states_def
      destroy_quit_def destroy_wake_def destroy_join_def Let_def split: if_splits\<close>)
qed

lemma thread_steps_inv:
  assumes "thread_steps newEventLoopThread t"
  shows "thread_inv t \<and> waiting_inv t"
  using assms
proof (induction rule: rtranclp_induct)
  case base
  then show ?case by (simp add: newEventLoopThread_def thread_inv_def waiting_inv_def published_states_def)
next
  case (step t t')
  then show ?case using thread_step_inv by blast
qed

subsection \<open>A loop that was told to quit ends\<close>

lemma perform_quit: "perform a el = (acts, el1) \<Longrightarrow> el_quit el \<Longrightarrow> el_quit el1"
  by (cases "(a, el)" rule: perform.cases) (auto simp: loop_defs Let_def)

lemma loop_next_quit: "el_quit el \<Longrightarrow> el_pc el \<noteq> Outside \<Longrightarrow> el_quit (loop_next active (el_pc el) el)"
  by (cases "(active, el_pc el, el)" rule: loop_next.cases)
    (auto simp: swap_functors_def handleWakeup_def perform_quit split: prod.splits)

lemma loop_run_quit:
  "el_quit el \<Longrightarrow> \<forall>m < n. el_pc (loop_run active m el) \<noteq> Outside \<Longrightarrow> el_quit (loop_run active n el)"
proof (induction n arbitrary: el)
  case (Suc n)
  have "el_pc el \<noteq> Outside" using Suc.prems(2) by (metis loop_run.simps(1) zero_less_Suc)
  moreover have "\<forall>m < n. el_pc (loop_run active m (loop_next active (el_pc el) el)) \<noteq> Outside"
    using Suc.prems(2) by (metis Suc_less_eq loop_run.simps(2))
  ultimately show ?case using Suc.IH Suc.prems(1) loop_next_quit by simp
qed simp

lemma reaches_checking: "el_pc el \<noteq> Outside \<Longrightarrow> \<exists>n. el_pc (loop_run active n el) = Checking"
proof -
  have h: "\<exists>n. el_pc (loop_run active n e) = Checking" if "el_pc e = Handling acts chs" for e acts chs
    using handlers_end [OF that, of active] functors_end by (metis loop_run_add)
  assume "el_pc el \<noteq> Outside"
  then show ?thesis
  proof (cases "el_pc el")
    case Checking
    then show ?thesis by (intro exI [of _ 0]) simp
  next
    case Polling
    then have "el_pc (loop_next active (el_pc el) el) = Handling [] active" by simp
    from h [OF this] obtain n where "el_pc (loop_run active n (loop_next active (el_pc el) el)) = Checking" ..
    then show ?thesis by (intro exI [of _ "Suc n"]) simp
  next
    case (Running acts fs)
    then show ?thesis using functors_end by blast
  qed (use h in auto)
qed

lemma quit_ends:
  assumes "el_quit el" and "el_pc el \<noteq> Outside"
  shows "\<exists>n. el_pc (loop_run active n el) = Outside \<and> (\<forall>m < n. el_pc (loop_run active m el) \<noteq> Outside)"
proof -
  have "\<exists>n. el_pc (loop_run active n el) = Outside"
  proof (rule ccontr)
    assume never: "\<nexists>n. el_pc (loop_run active n el) = Outside"
    obtain n where c: "el_pc (loop_run active n el) = Checking" using reaches_checking [OF assms(2)] by blast
    moreover have "el_quit (loop_run active n el)" using loop_run_quit [OF assms(1)] never by blast
    ultimately have "el_pc (loop_run active (n + Suc 0) el) = Outside" by (simp only: loop_run_add) simp
    with never show False by blast
  qed
  then show ?thesis using exists_least_iff [of "\<lambda>n. el_pc (loop_run active n el) = Outside"] by blast
qed

lemma thread_run_loop:
  "et_object t = Some el \<Longrightarrow> et_thread t = Looping \<Longrightarrow> \<forall>m < n. el_pc (loop_run active (Suc m) el) \<noteq> Outside \<Longrightarrow>
     thread_run (replicate n active) t = Some (t\<lparr>et_object := Some (loop_run active n el)\<rparr>)"
proof (induction n arbitrary: t el)
  case (Suc n)
  let ?el = "loop_next active (el_pc el) el"
  have "el_pc ?el \<noteq> Outside" using Suc.prems(3) by (metis loop_run.simps zero_less_Suc)
  moreover have "\<forall>m < n. el_pc (loop_run active (Suc m) ?el) \<noteq> Outside"
    using Suc.prems(3) by (metis Suc_less_eq loop_run.simps(2))
  moreover have "threadFunc active (et_thread t) t = Some (t\<lparr>et_object := Some ?el\<rparr>)"
    using Suc.prems(1,2) \<open>el_pc ?el \<noteq> Outside\<close> by (cases t) simp
  ultimately show ?case using Suc.prems(2) Suc.IH [of "t\<lparr>et_object := Some ?el\<rparr>" ?el] by simp
qed simp

lemma thread_run_append: "thread_run (as @ bs) t = (case thread_run as t of None \<Rightarrow> None | Some t' \<Rightarrow> thread_run bs t')"
  by (induction as arbitrary: t) (auto split: option.splits)

lemma quit_thread_finishes:
  assumes "et_object t = Some el" and "et_thread t = Looping" and "el_quit el" and "el_pc el \<noteq> Outside"
    and "\<not> mutex_held t"
  shows "\<exists>n t'. thread_run (replicate n active) t = Some t' \<and> et_thread t' = Finished \<and> et_owner t' = et_owner t"
proof -
  obtain n where n: "el_pc (loop_run active n el) = Outside" "\<forall>m < n. el_pc (loop_run active m el) \<noteq> Outside"
    using quit_ends [OF assms(3,4)] by blast
  then obtain k where k: "n = Suc k" using assms(4) by (cases n) auto
  let ?t = "t\<lparr>et_object := Some (loop_run active k el)\<rparr>"
  have r: "thread_run (replicate k active) t = Some ?t"
    using n(2) k by (intro thread_run_loop [OF assms(1,2)]) (auto simp del: loop_run.simps)
  have "loop_run active (k + Suc 0) el = loop_next active (el_pc (loop_run active k el)) (loop_run active k el)"
    by (simp only: loop_run_add loop_run.simps)
  with n(1) k have "el_pc (loop_next active (el_pc (loop_run active k el)) (loop_run active k el)) = Outside" by simp
  then have "\<exists>t'. thread_run [active, active] ?t = Some t' \<and> et_thread t' = Finished \<and> et_owner t' = et_owner t"
    using assms(2,5) by (simp add: mutex_held_def Let_def)
  moreover have "thread_run (replicate (k + 2) active) t = thread_run [active, active] ?t"
    using thread_run_append [of "replicate k active" "[active, active]" t] r
    by (simp only: replicate_add option.case) (simp add: numeral_2_eq_2)
  ultimately show ?thesis by (metis (no_types))
qed

subsection \<open>Two runs\<close>

lemma thread_run_steps:
  "thread_run as t = Some t' \<Longrightarrow> list_all (\<lambda>active. set active \<subseteq> {WakeupEvent}) as \<Longrightarrow> thread_steps t t'"
proof (induction as arbitrary: t)
  case (Cons active as)
  then obtain t1 where "threadFunc active (et_thread t) t = Some t1" "thread_run as t1 = Some t'"
    by (auto split: option.splits)
  with Cons TThread [of t active t1] show ?case by (auto intro: converse_rtranclp_into_rtranclp)
qed simp

text \<open>The owner starts the thread; it gets the loop when the thread has published it, and once more
  when the thread has entered \<open>loop()\<close>.\<close>

definition started_thread :: "nat \<Rightarrow> EventLoopThread" where
  "started_thread n = the (startLoop_return (the (thread_run (replicate n []) (startLoop_spawn newEventLoopThread))))"

lemmas thread_sample_defs = startLoop_spawn_def startLoop_return_def newEventLoopThread_def mutex_held_def

lemma started_thread_state:
  "started_thread 2 = \<lparr>et_published = True, et_exiting = False, et_object = Some newEventLoop,
     et_thread = Entering, et_owner = Started\<rparr>"
  "started_thread 3 = \<lparr>et_published = True, et_exiting = False, et_object = Some (enter_loop newEventLoop),
     et_thread = Looping, et_owner = Started\<rparr>"
  by (simp_all add: started_thread_def numeral_eq_Suc thread_sample_defs)

lemma started_thread_reached: "thread_steps newEventLoopThread (started_thread 2)"
  "thread_steps newEventLoopThread (started_thread 3)"
proof -
  have s: "thread_steps newEventLoopThread (startLoop_spawn newEventLoopThread)"
    by (rule r_into_rtranclp, rule TSpawn) (simp add: newEventLoopThread_def)
  have "thread_steps newEventLoopThread (started_thread n)"
    if "thread_run (replicate n []) (startLoop_spawn newEventLoopThread) = Some t" "et_owner t = Waiting" "et_published t" for n t
  proof -
    have "thread_steps (startLoop_spawn newEventLoopThread) t" using that(1) by (rule thread_run_steps) (simp add: list_all_iff)
    moreover have "thread_step t (started_thread n)"
      using that TReturn [of t] by (simp add: started_thread_def startLoop_return_def)
    ultimately show ?thesis using s by (meson rtranclp_trans rtranclp.rtrancl_into_rtrancl)
  qed
  from this [of 2] this [of 3]
  show "thread_steps newEventLoopThread (started_thread 2)" "thread_steps newEventLoopThread (started_thread 3)"
    by (simp_all add: numeral_eq_Suc thread_sample_defs)
qed

text \<open>The owner destroys the thread as soon as \<open>startLoop\<close> has returned, before the thread has entered
  \<open>loop()\<close>.\<close>

definition early_destroyed :: EventLoopThread where
  "early_destroyed = the (thread_run [[]] (destroy_wake (destroy_quit (started_thread 2))))"

lemma early_destroyed_state:
  "early_destroyed = \<lparr>et_published = True, et_exiting = True,
     et_object = Some (enter_loop (wakeup (quit newEventLoop))), et_thread = Looping, et_owner = Joining\<rparr>"
  by (simp add: early_destroyed_def started_thread_state destroy_quit_def destroy_wake_def)

lemma early_destroyed_reached: "thread_steps newEventLoopThread early_destroyed"
proof -
  let ?q = "destroy_quit (started_thread 2)"
  have "thread_step (started_thread 2) ?q" by (rule TQuit) (simp add: started_thread_state)
  moreover have "thread_step ?q (destroy_wake ?q)"
    by (rule TWakeup) (simp add: started_thread_state destroy_quit_def)
  moreover have "thread_run [[]] (destroy_wake ?q) = Some early_destroyed"
    by (simp add: early_destroyed_def started_thread_state destroy_quit_def destroy_wake_def)
  then have "thread_steps (destroy_wake ?q) early_destroyed" by (rule thread_run_steps) simp
  ultimately show ?thesis
    using started_thread_reached(1) by (meson rtranclp_trans rtranclp.rtrancl_into_rtrancl)
qed

subsection \<open>Properties\<close>

text \<open>C14: the loop is alive whenever it is used through \<open>loop_\<close>. In every interleaving: while the pointer
  is set the object exists, so what \<open>startLoop\<close> returns is alive when it returns; while the destructor is
  between setting \<open>quit_\<close> and writing the eventfd the object still exists; and the object is gone once the
  owner has been destroyed. As long as \<open>startLoop\<close> waits, the thread has either published the loop or is
  still on the way to it.\<close>

theorem thread_loop_alive:
  assumes "thread_steps newEventLoopThread t"
  shows "(et_published t \<longrightarrow> et_object t \<noteq> None) \<and> (et_owner t = Waking \<longrightarrow> et_object t \<noteq> None)
    \<and> (et_owner t = Destroyed \<longrightarrow> et_object t = None \<and> et_thread t \<in> {NotCreated, Finished})
    \<and> (et_owner t = Waiting \<longrightarrow> et_thread t \<in> {Constructing, Publishing} \<or> startLoop_return t \<noteq> None)"
proof -
  have i: "thread_inv t" and w: "waiting_inv t" using thread_steps_inv [OF assms] by simp_all
  have "et_published t \<Longrightarrow> et_object t \<noteq> None" and "et_owner t = Waking \<Longrightarrow> et_published t"
    and "et_owner t = Destroyed \<Longrightarrow> et_thread t \<in> {NotCreated, Finished}"
    using i unfolding thread_inv_def published_states_def by blast+
  moreover have "et_thread t \<in> {NotCreated, Finished} \<Longrightarrow> et_object t = None"
    using i by (auto simp: thread_inv_def published_states_def)
  moreover have "et_owner t = Waiting \<Longrightarrow> et_thread t \<in> {Constructing, Publishing} \<or> et_published t"
    using i w unfolding thread_inv_def waiting_inv_def published_states_def by blast
  ultimately show ?thesis by (auto simp: startLoop_return_def)
qed

theorem thread_loop_alive_witness:
  "et_object (started_thread 2) \<noteq> None"
  using thread_loop_alive [OF started_thread_reached(1)] by (simp add: started_thread_state)

text \<open>C28: the destructor returns if the loop is running. When the destructor runs after the thread has
  entered \<open>loop()\<close>, then whatever channels are active and whatever their handlers and the functors do, the
  thread leaves the loop after finitely many steps of its own and \<open>join\<close> returns.\<close>

theorem thread_destructor_returns:
  assumes "thread_steps newEventLoopThread t" and "et_owner t = Started" and "et_thread t = Looping"
  shows "\<exists>n t'. thread_run (replicate n active) (destroy_wake (destroy_quit t)) = Some t'
    \<and> (\<exists>t''. destroy_join t' = Some t'' \<and> et_owner t'' = Destroyed)"
proof -
  let ?t = "destroy_wake (destroy_quit t)"
  have i: "thread_inv t" using thread_steps_inv [OF assms(1)] by simp
  with assms(3) obtain el where el: "et_object t = Some el" "el_pc el \<noteq> Outside" "et_published t"
    by (auto simp: thread_inv_def published_states_def)
  then have "et_object ?t = Some (wakeup (quit el))" "et_thread ?t = Looping" "\<not> mutex_held ?t"
    using assms(3) by (simp_all add: destroy_wake_def destroy_quit_def mutex_held_def Let_def)
  moreover have "el_quit (wakeup (quit el))" "el_pc (wakeup (quit el)) \<noteq> Outside"
    using el(2) by (simp_all add: wakeup_def quit_def)
  ultimately show ?thesis using quit_thread_finishes [of ?t _ active] by (fastforce simp: destroy_join_def)
qed

theorem thread_destructor_returns_witness:
  "\<exists>n t'. thread_run (replicate n [ChannelEvent [QueueInLoop sample_functor]])
       (destroy_wake (destroy_quit (started_thread 3))) = Some t' \<and> destroy_join t' \<noteq> None"
  using thread_destructor_returns [OF started_thread_reached(2), of "[ChannelEvent [QueueInLoop sample_functor]]"]
  by (auto simp: started_thread_state)

text \<open>C38: a thread that is destroyed too early is waited for for ever. When the owner destroys the object
  after \<open>startLoop\<close> has returned and before the thread has entered \<open>loop()\<close>, the loop resets \<open>quit_\<close> on
  entry: the state is reachable, and as long as no channel but the loop's own has an event, \<open>poll\<close> and the
  loop go round without end and \<open>join\<close> never returns.\<close>

theorem thread_early_destroy_hangs:
  assumes "list_all (\<lambda>active. set active \<subseteq> {WakeupEvent}) actives"
  shows "thread_steps newEventLoopThread early_destroyed
    \<and> (\<exists>t. thread_run actives early_destroyed = Some t \<and> et_owner t = Joining \<and> destroy_join t = None)"
proof
  show "thread_steps newEventLoopThread early_destroyed" by (rule early_destroyed_reached)
next
  have "\<exists>t'. thread_run actives t = Some t' \<and> et_owner t' = Joining \<and> et_thread t' = Looping"
    if "et_owner t = Joining" "et_thread t = Looping" "et_object t = Some el" "idle_loop el" "el_pc el \<noteq> Outside" for t el
    using that assms
  proof (induction actives arbitrary: t el)
    case (Cons active as)
    then show ?case using idle_next [OF Cons.prems(4,5), of active] by (simp add: Let_def)
  qed simp
  from this [of early_destroyed] show "\<exists>t. thread_run actives early_destroyed = Some t \<and> et_owner t = Joining \<and> destroy_join t = None"
    by (simp add: early_destroyed_state idle_loop_def enter_loop_def wakeup_def quit_def newEventLoop_def destroy_join_def)
      force
qed

theorem thread_early_destroy_hangs_witness:
  "\<exists>t. thread_run [[], [], [WakeupEvent], [], []] early_destroyed = Some t \<and> destroy_join t = None"
  using thread_early_destroy_hangs [of "[[], [], [WakeupEvent], [], []]"] by auto

end
