(* ===== verification/Std_Heap.thy ===== *)
theory Std_Heap
  imports "HOL-Library.Multiset"
begin

section \<open>Heap algorithms of the standard library\<close>

text \<open>
  \<open>std::push_heap\<close>, \<open>std::pop_heap\<close> and \<open>std::make_heap\<close> on a vector, as the timer queue uses them:
  a binary heap with the smallest key in front. The C++ standard states their contract, the
  locale \<open>heap_algorithms\<close>, and leaves the layout open; the functions below are the usual
  implementation, and the interpretation shows that they keep the contract.
\<close>

subsection \<open>The contract\<close>

definition is_heap :: "('a \<Rightarrow> int) \<Rightarrow> 'a list \<Rightarrow> bool" where
  "is_heap key xs \<longleftrightarrow> (\<forall>i < length xs. 0 < i \<longrightarrow> key (xs ! ((i - 1) div 2)) \<le> key (xs ! i))"

lemma parent_less: "0 < i \<Longrightarrow> (i - 1) div 2 < (i :: nat)"
  by auto

lemma is_heap_front: "is_heap key xs \<Longrightarrow> i < length xs \<Longrightarrow> key (xs ! 0) \<le> key (xs ! i)"
proof (induction i rule: less_induct)
  case (less i)
  show ?case
  proof (cases "i = 0")
    case False
    then have "(i - 1) div 2 < i" by auto
    with less False have "key (xs ! 0) \<le> key (xs ! ((i - 1) div 2))" by auto
    also have "\<dots> \<le> key (xs ! i)" using less.prems False by (simp add: is_heap_def)
    finally show ?thesis .
  qed simp
qed

lemma is_heap_hd:
  assumes "is_heap key xs" and "x \<in> set xs"
  shows "key (hd xs) \<le> key x"
proof -
  from assms(2) obtain i where "i < length xs" "x = xs ! i" by (auto simp: in_set_conv_nth)
  moreover from this have "hd xs = xs ! 0" by (cases xs) auto
  ultimately show ?thesis using is_heap_front [OF assms(1)] by simp
qed

lemma is_heap_take: "is_heap key xs \<Longrightarrow> is_heap key (take n xs)"
  by (auto simp: is_heap_def)

subsection \<open>Sifting\<close>

definition swap :: "nat \<Rightarrow> nat \<Rightarrow> 'a list \<Rightarrow> 'a list" where
  "swap i j xs = xs[i := xs ! j, j := xs ! i]"

lemma length_swap [simp]: "length (swap i j xs) = length xs"
  by (simp add: swap_def)

lemma nth_swap:
  "i < length xs \<Longrightarrow> j < length xs \<Longrightarrow> k < length xs \<Longrightarrow>
     swap i j xs ! k = (if k = i then xs ! j else if k = j then xs ! i else xs ! k)"
  by (auto simp: swap_def nth_list_update)

lemma mset_swap_eq [simp]: "i < length xs \<Longrightarrow> j < length xs \<Longrightarrow> mset (swap i j xs) = mset xs"
  by (simp add: swap_def mset_swap)

fun sift_up :: "('a \<Rightarrow> int) \<Rightarrow> nat \<Rightarrow> 'a list \<Rightarrow> 'a list" where
  "sift_up key i xs =
     (if 0 < i \<and> key (xs ! i) < key (xs ! ((i - 1) div 2))
      then sift_up key ((i - 1) div 2) (swap i ((i - 1) div 2) xs) else xs)"

declare sift_up.simps [simp del]

text \<open>The heap property everywhere but above position \<open>i\<close>, with the grandparent in place of the
  parent for the children of \<open>i\<close>.\<close>

definition heap_above :: "('a \<Rightarrow> int) \<Rightarrow> nat \<Rightarrow> 'a list \<Rightarrow> bool" where
  "heap_above key i xs \<longleftrightarrow>
     (\<forall>j < length xs. 0 < j \<and> j \<noteq> i \<longrightarrow> key (xs ! ((j - 1) div 2)) \<le> key (xs ! j))
     \<and> (\<forall>j < length xs. 0 < j \<and> (j - 1) div 2 = i \<and> 0 < i \<longrightarrow> key (xs ! ((i - 1) div 2)) \<le> key (xs ! j))"

lemma sift_up_ok:
  "heap_above key i xs \<Longrightarrow> i < length xs \<Longrightarrow>
     is_heap key (sift_up key i xs) \<and> mset (sift_up key i xs) = mset xs"
proof (induction key i xs rule: sift_up.induct)
  case (1 key i xs)
  let ?p = "(i - 1) div 2"
  show ?case
  proof (cases "0 < i \<and> key (xs ! i) < key (xs ! ?p)")
    case True
    have p: "?p < length xs" "?p < i" using 1(3) True by auto
    have n: "swap i ?p xs ! k = (if k = i then xs ! ?p else if k = ?p then xs ! i else xs ! k)"
      if "k < length xs" for k using that 1(3) p by (simp add: nth_swap)
    have "heap_above key ?p (swap i ?p xs)"
      unfolding heap_above_def
    proof (intro conjI allI impI)
      fix j assume j: "j < length (swap i ?p xs)" "0 < j \<and> j \<noteq> ?p"
      have pj: "(j - 1) div 2 < length xs" using j by auto
      show "key (swap i ?p xs ! ((j - 1) div 2)) \<le> key (swap i ?p xs ! j)"
      proof (cases "j = i")
        case False
        with j 1(2) have "key (xs ! ((j - 1) div 2)) \<le> key (xs ! j)" by (simp add: heap_above_def)
        moreover have "key (xs ! ?p) \<le> key (xs ! j)" if "(j - 1) div 2 = i"
          using that 1(2) j True by (auto simp: heap_above_def)
        ultimately show ?thesis using j n pj True False by auto
      qed (use j n pj p True in auto)
    next
      fix j assume j: "j < length (swap i ?p xs)" "0 < j \<and> (j - 1) div 2 = ?p \<and> 0 < ?p"
      have "(?p - 1) div 2 < ?p" using j by (intro parent_less) simp
      then have pp: "(?p - 1) div 2 < length xs" "(?p - 1) div 2 \<noteq> ?p" "(?p - 1) div 2 \<noteq> i" using p by simp_all
      have a: "key (xs ! ((?p - 1) div 2)) \<le> key (xs ! ?p)" using 1(2) p j by (simp add: heap_above_def)
      have b: "key (xs ! ?p) \<le> key (xs ! j)" if "j \<noteq> i" using that 1(2) j by (auto simp: heap_above_def)
      have e: "swap i ?p xs ! ((?p - 1) div 2) = xs ! ((?p - 1) div 2)" using n [OF pp(1)] pp(2,3) by simp
      have "j \<noteq> ?p" using j parent_less [of j] by auto
      then have f: "swap i ?p xs ! j = (if j = i then xs ! ?p else xs ! j)" using n [of j] j(1) by simp
      show "key (swap i ?p xs ! ((?p - 1) div 2)) \<le> key (swap i ?p xs ! j)"
        unfolding e f using a order_trans [OF a b] by (cases "j = i") simp_all
    qed
    with 1(1) True p 1(3) show ?thesis by (subst (1 2) sift_up.simps) simp
  next
    case False
    then have "is_heap key xs" using 1(2) by (auto simp: is_heap_def heap_above_def)
    moreover have "sift_up key i xs = xs" using False by (subst sift_up.simps) auto
    ultimately show ?thesis by simp
  qed
qed

subsection \<open>Sifting down\<close>

text \<open>\<open>sift_down key n i xs\<close> works on the first \<open>n\<close> elements.\<close>

definition smaller_child :: "('a \<Rightarrow> int) \<Rightarrow> nat \<Rightarrow> nat \<Rightarrow> 'a list \<Rightarrow> nat" where
  "smaller_child key n i xs =
     (if 2 * i + 2 < n \<and> key (xs ! (2 * i + 2)) < key (xs ! (2 * i + 1)) then 2 * i + 2 else 2 * i + 1)"

function sift_down :: "('a \<Rightarrow> int) \<Rightarrow> nat \<Rightarrow> nat \<Rightarrow> 'a list \<Rightarrow> 'a list" where
  "sift_down key n i xs =
     (let c = smaller_child key n i xs
      in if 2 * i + 1 < n \<and> key (xs ! c) < key (xs ! i) then sift_down key n c (swap i c xs) else xs)"
  by pat_completeness auto
termination
  by (relation "measure (\<lambda>(key, n, i, xs). n - i)") (auto simp: smaller_child_def)

declare sift_down.simps [simp del]

text \<open>The heap property of the first \<open>n\<close> elements from position \<open>m\<close> on, but for the children of \<open>i\<close>,
  which respect the parent of \<open>i\<close>.\<close>

definition heap_below :: "('a \<Rightarrow> int) \<Rightarrow> nat \<Rightarrow> nat \<Rightarrow> nat \<Rightarrow> 'a list \<Rightarrow> bool" where
  "heap_below key n m i xs \<longleftrightarrow>
     (\<forall>j < n. 0 < j \<and> m \<le> (j - 1) div 2 \<and> (j - 1) div 2 \<noteq> i \<longrightarrow> key (xs ! ((j - 1) div 2)) \<le> key (xs ! j))
     \<and> (\<forall>j < n. 0 < j \<and> (j - 1) div 2 = i \<and> 0 < i \<and> m \<le> (i - 1) div 2 \<longrightarrow> key (xs ! ((i - 1) div 2)) \<le> key (xs ! j))"

definition heap_from :: "('a \<Rightarrow> int) \<Rightarrow> nat \<Rightarrow> nat \<Rightarrow> 'a list \<Rightarrow> bool" where
  "heap_from key n m xs \<longleftrightarrow>
     (\<forall>j < n. 0 < j \<and> m \<le> (j - 1) div 2 \<longrightarrow> key (xs ! ((j - 1) div 2)) \<le> key (xs ! j))"

lemma child_cases: "0 < j \<Longrightarrow> (j - 1) div 2 = i \<longleftrightarrow> j = 2 * i + 1 \<or> j = 2 * i + 2" for i j :: nat
  by auto

lemma sift_down_ok:
  "heap_below key n m i xs \<Longrightarrow> n \<le> length xs \<Longrightarrow> m \<le> i \<Longrightarrow>
     heap_from key n m (sift_down key n i xs) \<and> mset (sift_down key n i xs) = mset xs
     \<and> drop n (sift_down key n i xs) = drop n xs"
proof (induction key n i xs rule: sift_down.induct)
  case (1 key n i xs)
  let ?c = "smaller_child key n i xs"
  show ?case
  proof (cases "2 * i + 1 < n \<and> key (xs ! ?c) < key (xs ! i)")
    case True
    have c: "?c < n" "i < ?c" "(?c - 1) div 2 = i" "0 < ?c" using True by (auto simp: smaller_child_def)
    have least: "key (xs ! ?c) \<le> key (xs ! j)" if "j < n" "0 < j" "(j - 1) div 2 = i" for j
      using that child_cases [of j i] by (auto simp: smaller_child_def)
    have nt: "swap i ?c xs ! k = (if k = i then xs ! ?c else if k = ?c then xs ! i else xs ! k)"
      if "k < n" for k using that 1(3) c by (simp add: nth_swap)
    have "heap_below key n m ?c (swap i ?c xs)"
      unfolding heap_below_def
    proof (intro conjI allI impI)
      fix j assume j: "j < n" "0 < j \<and> m \<le> (j - 1) div 2 \<and> (j - 1) div 2 \<noteq> ?c"
      then have pj: "(j - 1) div 2 < n" "(j - 1) div 2 < j" using parent_less [of j] by auto
      show "key (swap i ?c xs ! ((j - 1) div 2)) \<le> key (swap i ?c xs ! j)"
      proof (cases "(j - 1) div 2 = i")
        case pi: True
        then have "key (xs ! ?c) \<le> key (xs ! j)" using least j by simp
        with pi pj j nt True show ?thesis by (auto simp: less_imp_le)
      next
        case False
        then have le: "key (xs ! ((j - 1) div 2)) \<le> key (xs ! j)" using 1(2) j by (simp add: heap_below_def)
        have "key (xs ! ((j - 1) div 2)) \<le> key (xs ! ?c)" if "j = i"
          using that 1(2) c j by (simp add: heap_below_def)
        with le False j pj nt c show ?thesis by auto
      qed
    next
      fix j assume j: "j < n" "0 < j \<and> (j - 1) div 2 = ?c \<and> 0 < ?c \<and> m \<le> (?c - 1) div 2"
      then have "key (xs ! ?c) \<le> key (xs ! j)" using 1(2) c by (auto simp: heap_below_def)
      moreover have "j \<noteq> ?c" "j \<noteq> i" using j c parent_less [of j] by auto
      ultimately show "key (swap i ?c xs ! ((?c - 1) div 2)) \<le> key (swap i ?c xs ! j)"
        using j c nt by simp
    qed
    moreover have "drop n (swap i ?c xs) = drop n xs" "mset (swap i ?c xs) = mset xs"
      using c 1(3) by (simp_all add: swap_def mset_swap)
    ultimately show ?thesis
      using 1(1) [OF refl True] 1(3,4) True c by (subst (1 2 3) sift_down.simps) (simp add: Let_def)
  next
    case False
    have "key (xs ! i) \<le> key (xs ! j)" if "j < n" "0 < j" "(j - 1) div 2 = i" for j
      using that False child_cases [of j i] by (auto simp: smaller_child_def split: if_splits)
    then have "heap_from key n m xs" using 1(2) by (auto simp: heap_from_def heap_below_def)
    moreover have "sift_down key n i xs = xs" using False by (subst sift_down.simps) (auto simp: Let_def)
    ultimately show ?thesis by simp
  qed
qed

subsection \<open>push\_heap, pop\_heap, make\_heap\<close>

definition push_heap :: "('a \<Rightarrow> int) \<Rightarrow> 'a list \<Rightarrow> 'a list" where
  "push_heap key xs = sift_up key (length xs - 1) xs"

definition pop_heap :: "('a \<Rightarrow> int) \<Rightarrow> 'a list \<Rightarrow> 'a list" where
  "pop_heap key xs =
     (if xs = [] then [] else sift_down key (length xs - 1) 0 (swap 0 (length xs - 1) xs))"

fun heapify :: "('a \<Rightarrow> int) \<Rightarrow> nat \<Rightarrow> 'a list \<Rightarrow> 'a list" where
  "heapify key 0 xs = xs"
| "heapify key (Suc i) xs = heapify key i (sift_down key (length xs) i xs)"

definition make_heap :: "('a \<Rightarrow> int) \<Rightarrow> 'a list \<Rightarrow> 'a list" where
  "make_heap key xs = heapify key (length xs) xs"

lemma heap_from_0: "heap_from key (length xs) 0 xs = is_heap key xs"
  by (simp add: heap_from_def is_heap_def)

lemma push_heap_ok:
  assumes "is_heap key (butlast xs)"
  shows "is_heap key (push_heap key xs) \<and> mset (push_heap key xs) = mset xs"
proof (cases "xs = []")
  case True
  then show ?thesis by (simp add: push_heap_def sift_up.simps is_heap_def)
next
  case False
  have "heap_above key (length xs - 1) xs"
    unfolding heap_above_def
  proof (intro conjI allI impI)
    fix j assume j: "j < length xs" "0 < j \<and> j \<noteq> length xs - 1"
    then have "j < length (butlast xs)" "(j - 1) div 2 < length (butlast xs)" using parent_less [of j] by auto
    with assms j show "key (xs ! ((j - 1) div 2)) \<le> key (xs ! j)"
      by (auto simp: is_heap_def nth_butlast)
  next
    fix j assume "j < length xs" "0 < j \<and> (j - 1) div 2 = length xs - 1 \<and> 0 < length xs - 1"
    then show "key (xs ! ((length xs - 1 - 1) div 2)) \<le> key (xs ! j)" using parent_less [of j] by auto
  qed
  with sift_up_ok [of key "length xs - 1" xs] False show ?thesis by (simp add: push_heap_def)
qed

lemma pop_heap_ok:
  assumes "is_heap key xs" and "xs \<noteq> []"
  shows "last (pop_heap key xs) = hd xs" and "is_heap key (butlast (pop_heap key xs))"
    and "mset (pop_heap key xs) = mset xs"
proof -
  let ?n = "length xs - 1" and ?ys = "swap 0 (length xs - 1) xs"
  have n: "?n < length xs" "0 < length xs" using assms(2) by auto
  have y: "?ys ! k = (if k = 0 then xs ! ?n else if k = ?n then xs ! 0 else xs ! k)" if "k < length xs" for k
    using that n by (simp add: nth_swap)
  have "heap_below key ?n 0 0 ?ys"
    unfolding heap_below_def
  proof (intro conjI allI impI)
    fix j assume j: "j < ?n" "0 < j \<and> 0 \<le> (j - 1) div 2 \<and> (j - 1) div 2 \<noteq> 0"
    then have "(j - 1) div 2 < ?n" using parent_less [of j] by auto
    with j y assms(1) show "key (?ys ! ((j - 1) div 2)) \<le> key (?ys ! j)" by (auto simp: is_heap_def)
  qed simp
  from sift_down_ok [OF this, of ] n have
    h: "heap_from key ?n 0 (pop_heap key xs)" and m: "mset (pop_heap key xs) = mset ?ys"
    and d: "drop ?n (pop_heap key xs) = drop ?n ?ys"
    using assms(2) by (simp_all add: pop_heap_def)
  show ms: "mset (pop_heap key xs) = mset xs" using m n by simp
  then have len: "length (pop_heap key xs) = length xs" by (metis size_mset)
  have "drop ?n ?ys = [hd xs]"
    using y [OF n(1)] n assms(2) by (simp add: Cons_nth_drop_Suc [symmetric] hd_conv_nth)
  with d have l: "drop ?n (pop_heap key xs) = [hd xs]" by simp
  then show "last (pop_heap key xs) = hd xs" by (metis last_drop last_ConsL length_drop len n(1))
  show "is_heap key (butlast (pop_heap key xs))"
    using h len by (auto simp: is_heap_def heap_from_def nth_butlast)
qed

lemma heapify_ok:
  "i \<le> length xs \<Longrightarrow> heap_from key (length xs) i xs \<Longrightarrow>
     is_heap key (heapify key i xs) \<and> mset (heapify key i xs) = mset xs"
proof (induction i arbitrary: xs)
  case 0
  then show ?case by (simp add: heap_from_0)
next
  case (Suc i)
  have "heap_below key (length xs) i i xs"
    unfolding heap_below_def
  proof (intro conjI allI impI)
    fix j assume "j < length xs" "0 < j \<and> i \<le> (j - 1) div 2 \<and> (j - 1) div 2 \<noteq> i"
    with Suc.prems(2) show "key (xs ! ((j - 1) div 2)) \<le> key (xs ! j)" by (simp add: heap_from_def)
  next
    fix j assume "0 < j \<and> (j - 1) div 2 = i \<and> 0 < i \<and> i \<le> (i - 1) div 2"
    with parent_less [of i] show "key (xs ! ((i - 1) div 2)) \<le> key (xs ! j)" by simp
  qed
  from sift_down_ok [OF this] have s: "heap_from key (length xs) i (sift_down key (length xs) i xs)"
    "mset (sift_down key (length xs) i xs) = mset xs" by simp_all
  from s(2) have "length (sift_down key (length xs) i xs) = length xs" by (metis size_mset)
  with Suc.IH [of "sift_down key (length xs) i xs"] s Suc.prems(1) show ?case by simp
qed

lemma make_heap_ok: "is_heap key (make_heap key xs) \<and> mset (make_heap key xs) = mset xs"
proof -
  have "heap_from key (length xs) (length xs) xs" using parent_less by (fastforce simp: heap_from_def)
  then show ?thesis by (simp add: make_heap_def heapify_ok)
qed

lemma length_pop_heap [simp]: "length (pop_heap key xs) = length xs"
proof -
  have "length (sift_down key n i ys) = length ys" for key :: "'a \<Rightarrow> int" and n i ys
    by (induction key n i ys rule: sift_down.induct) (subst sift_down.simps, simp add: Let_def)
  then show ?thesis by (simp add: pop_heap_def)
qed

subsection \<open>What users of the algorithms rely on\<close>

locale heap_algorithms =
  fixes key :: "'a \<Rightarrow> int"
    and push :: "'a list \<Rightarrow> 'a list"
    and pop :: "'a list \<Rightarrow> 'a list"
    and make :: "'a list \<Rightarrow> 'a list"
  assumes push: "is_heap key xs \<Longrightarrow> is_heap key (push (xs @ [x])) \<and> mset (push (xs @ [x])) = add_mset x (mset xs)"
    and pop: "is_heap key xs \<Longrightarrow> xs \<noteq> [] \<Longrightarrow> last (pop xs) = hd xs \<and> is_heap key (butlast (pop xs)) \<and> mset (pop xs) = mset xs"
    and make: "is_heap key (make xs) \<and> mset (make xs) = mset xs"
begin

text \<open>Popping removes one element, and it is a smallest one.\<close>

lemma pop_min:
  assumes "is_heap key xs" and "xs \<noteq> []"
  shows "mset xs = add_mset (hd xs) (mset (butlast (pop xs)))" and "\<forall>x \<in> set xs. key (hd xs) \<le> key x"
proof -
  have "pop xs \<noteq> []" using pop [OF assms] assms(2) by (metis mset_zero_iff)
  then have "mset (pop xs) = add_mset (last (pop xs)) (mset (butlast (pop xs)))"
    by (metis append_butlast_last_id mset.simps(1,2) union_mset_add_mset_right mset_append add.right_neutral)
  with pop [OF assms] show "mset xs = add_mset (hd xs) (mset (butlast (pop xs)))" by metis
  show "\<forall>x \<in> set xs. key (hd xs) \<le> key x" using is_heap_hd [OF assms(1)] by blast
qed

lemma push_set: "is_heap key xs \<Longrightarrow> set (push (xs @ [x])) = insert x (set xs)"
  using push [of xs x] by (metis set_mset_mset set_mset_add_mset_insert)

lemma make_set: "set (make xs) = set xs"
  using make [of xs] by (metis set_mset_mset)

end

interpretation binary_heap: heap_algorithms key "push_heap key" "pop_heap key" "make_heap key" for key
proof unfold_locales
  show "is_heap key (push_heap key (xs @ [x])) \<and> mset (push_heap key (xs @ [x])) = add_mset x (mset xs)"
    if "is_heap key xs" for xs x
    using push_heap_ok [of key "xs @ [x]"] that by simp
  show "last (pop_heap key xs) = hd xs \<and> is_heap key (butlast (pop_heap key xs)) \<and> mset (pop_heap key xs) = mset xs"
    if "is_heap key xs" "xs \<noteq> []" for xs
    using pop_heap_ok [OF that] by simp
  show "is_heap key (make_heap key xs) \<and> mset (make_heap key xs) = mset xs" for xs
    by (rule make_heap_ok)
qed

end
