(* ===== verification/Timer_Queue.thy ===== *)
theory Timer_Queue
  imports Std_Heap
begin

section \<open>Timers\<close>

text \<open>
  \<open>include/Timer.h\<close>, \<open>src/Timer.cpp\<close> and \<open>src/TimerQueue.cpp\<close>. Times are microseconds of the
  monotonic clock. The vector of \<open>Timer*\<close> holds the timers themselves, each with its address; a
  new address comes from the parameter \<open>malloc\<close>, which may reuse addresses of deleted timers.
  \<open>tm_interval\<close> is \<^const>\<open>None\<close> for \<open>interval <= 0\<close> and otherwise the interval in microseconds.
  \<open>tq_timerfd\<close> is the time the kernel timer is armed for, \<open>tq_batch\<close> the local vector \<open>expired\<close> of
  \<open>handleRead\<close> as far as it still owns its timers, \<open>tq_tasks\<close> the functors the queue has posted to
  the loop and \<open>tq_runs\<close> the callbacks run, each with the time. A callback is user code: what it
  does with the queue is the parameter \<open>prog\<close>. A handler reads the clock once.
\<close>


subsection \<open>Data\<close>

type_synonym TimerId = "nat \<times> int"

record timer =
  tm_ptr :: nat
  tm_expiration :: int
  tm_interval :: "nat option"
  tm_sequence :: int

definition timer_id :: "timer \<Rightarrow> TimerId" where
  "timer_id t = (tm_ptr t, tm_sequence t)"

definition valid :: "int \<Rightarrow> bool" where
  "valid ts \<longleftrightarrow> ts > 0"

definition repeat :: "timer \<Rightarrow> bool" where
  "repeat t \<longleftrightarrow> tm_interval t \<noteq> None"

definition restart :: "int \<Rightarrow> timer \<Rightarrow> timer" where
  "restart now t =
     (case tm_interval t of
        Some d \<Rightarrow> t\<lparr>tm_expiration := now + int d\<rparr>
      | None \<Rightarrow> t\<lparr>tm_expiration := 0\<rparr>)"

datatype timer_task = InsertTask timer | CancelTask TimerId bool

record TimerQueue =
  tq_timers :: "timer list"
  tq_active :: "TimerId set"
  tq_calling :: bool
  tq_expired :: "TimerId set"
  tq_canceling :: "TimerId set"
  tq_timerfd :: "int option"
  tq_numCreated :: int
  tq_batch :: "timer list"
  tq_tasks :: "timer_task list"
  tq_runs :: "(TimerId \<times> int) list"

definition newTimerQueue :: TimerQueue where
  "newTimerQueue =
     \<lparr>tq_timers = [], tq_active = {}, tq_calling = False, tq_expired = {}, tq_canceling = {},
      tq_timerfd = None, tq_numCreated = 0, tq_batch = [], tq_tasks = [], tq_runs = []\<rparr>"

subsection \<open>The kernel timer\<close>

definition howMuchTimeFromNow :: "int \<Rightarrow> int \<Rightarrow> int \<times> int" where
  "howMuchTimeFromNow now when =
     (let microseconds = (if when - now < 100 then 100 else when - now)
      in (microseconds div 1000000, microseconds mod 1000000 * 1000))"

definition resetTimerfd :: "int \<Rightarrow> int \<Rightarrow> TimerQueue \<Rightarrow> TimerQueue" where
  "resetTimerfd now expiration q =
     (case howMuchTimeFromNow now expiration of
        (sec, nsec) \<Rightarrow> q\<lparr>tq_timerfd := Some (now + sec * 1000000 + nsec div 1000)\<rparr>)"

subsection \<open>Inserting and cancelling\<close>

definition timer_insert :: "int \<Rightarrow> timer \<Rightarrow> TimerQueue \<Rightarrow> bool \<times> TimerQueue" where
  "timer_insert now timer q =
     (let earliestChanged =
            (tq_timers q = [] \<or> tm_expiration timer < tm_expiration (hd (tq_timers q)));
          q1 = q\<lparr>tq_timers := push_heap tm_expiration (tq_timers q @ [timer]),
                 tq_active := insert (timer_id timer) (tq_active q)\<rparr>
      in (earliestChanged,
          if earliestChanged then resetTimerfd now (tm_expiration timer) q1 else q1))"

fun pending_inserts :: "timer_task list \<Rightarrow> timer list" where
  "pending_inserts [] = []"
| "pending_inserts (InsertTask t # ts) = t # pending_inserts ts"
| "pending_inserts (CancelTask i b # ts) = pending_inserts ts"

definition live :: "TimerQueue \<Rightarrow> timer list" where
  "live q = tq_timers q @ tq_batch q @ pending_inserts (tq_tasks q)"

definition addTimer ::
  "(nat set \<Rightarrow> nat) \<Rightarrow> bool \<Rightarrow> int \<Rightarrow> int \<Rightarrow> nat option \<Rightarrow> TimerQueue \<Rightarrow> TimerId \<times> TimerQueue" where
  "addTimer malloc inLoop now when interval q =
     (let timer = \<lparr>tm_ptr = malloc (tm_ptr ` set (live q)), tm_expiration = when, tm_interval = interval,
                   tm_sequence = tq_numCreated q + 1\<rparr>;
          q1 = q\<lparr>tq_numCreated := tq_numCreated q + 1\<rparr>
      in (timer_id timer,
          if inLoop then snd (timer_insert now timer q1)
          else q1\<lparr>tq_tasks := tq_tasks q1 @ [InsertTask timer]\<rparr>))"

fun erase_ptr :: "nat \<Rightarrow> timer list \<Rightarrow> timer list" where
  "erase_ptr p [] = []"
| "erase_ptr p (t # ts) = (if tm_ptr t = p then ts else t # erase_ptr p ts)"

definition cancelInLoop :: "TimerId \<Rightarrow> bool \<Rightarrow> TimerQueue \<Rightarrow> TimerQueue" where
  "cancelInLoop i allowRetry q =
     (if i \<in> tq_active q then
        (let q1 = q\<lparr>tq_active := tq_active q - {i}\<rparr>
         in if fst i \<in> tm_ptr ` set (tq_timers q1)
            then q1\<lparr>tq_timers := make_heap tm_expiration (erase_ptr (fst i) (tq_timers q1))\<rparr> else q1)
      else if tq_calling q \<and> i \<in> tq_expired q then q\<lparr>tq_canceling := insert i (tq_canceling q)\<rparr>
      else if allowRetry then q\<lparr>tq_tasks := tq_tasks q @ [CancelTask i False]\<rparr>
      else q)"

definition cancel :: "bool \<Rightarrow> TimerId \<Rightarrow> TimerQueue \<Rightarrow> TimerQueue" where
  "cancel inLoop i q =
     (if inLoop then cancelInLoop i True q else q\<lparr>tq_tasks := tq_tasks q @ [CancelTask i True]\<rparr>)"

definition run_timer_task :: "int \<Rightarrow> timer_task \<Rightarrow> TimerQueue \<Rightarrow> TimerQueue" where
  "run_timer_task now task q =
     (case task of
        InsertTask t \<Rightarrow> snd (timer_insert now t q)
      | CancelTask i retry \<Rightarrow> cancelInLoop i retry q)"

subsection \<open>Expiry\<close>

function getExpired :: "int \<Rightarrow> TimerQueue \<Rightarrow> timer list \<times> TimerQueue" where
  "getExpired now q =
     (if tq_timers q \<noteq> [] \<and> tm_expiration (hd (tq_timers q)) \<le> now then
        (let popped = pop_heap tm_expiration (tq_timers q);
             q1 = q\<lparr>tq_active := tq_active q - {timer_id (hd (tq_timers q))}, tq_timers := butlast popped\<rparr>
         in case getExpired now q1 of (expired, q2) \<Rightarrow> (last popped # expired, q2))
      else ([], q))"
  by pat_completeness auto
termination
  by (relation "measure (\<lambda>(now, q). length (tq_timers q))") auto

declare getExpired.simps [simp del]

datatype timer_action = AddAction int "nat option" | CancelAction TimerId

fun timer_act :: "(nat set \<Rightarrow> nat) \<Rightarrow> int \<Rightarrow> timer_action \<Rightarrow> TimerQueue \<Rightarrow> TimerQueue" where
  "timer_act malloc now (AddAction when interval) q = snd (addTimer malloc True now when interval q)"
| "timer_act malloc now (CancelAction i) q = cancel True i q"

type_synonym timer_code = "timer \<Rightarrow> TimerQueue \<Rightarrow> timer_action list"

definition timer_run ::
  "(nat set \<Rightarrow> nat) \<Rightarrow> timer_code \<Rightarrow> int \<Rightarrow> timer \<Rightarrow> TimerQueue \<Rightarrow> TimerQueue" where
  "timer_run malloc prog now t q =
     (let q1 = q\<lparr>tq_runs := tq_runs q @ [(timer_id t, now)]\<rparr>
      in fold (timer_act malloc now) (prog t q1) q1)"

fun reset_loop :: "int \<Rightarrow> timer list \<Rightarrow> TimerQueue \<Rightarrow> TimerQueue" where
  "reset_loop now [] q = q"
| "reset_loop now (t # ts) q =
     reset_loop now ts
       (let q1 = q\<lparr>tq_batch := ts\<rparr>
        in if timer_id t \<in> tq_canceling q1 then q1\<lparr>tq_canceling := tq_canceling q1 - {timer_id t}\<rparr>
           else if repeat t then snd (timer_insert now (restart now t) q1)
           else q1)"

definition timer_reset :: "int \<Rightarrow> timer list \<Rightarrow> TimerQueue \<Rightarrow> TimerQueue" where
  "timer_reset now expired q =
     (let q1 = reset_loop now expired q
      in if tq_timers q1 \<noteq> [] \<and> valid (tm_expiration (hd (tq_timers q1)))
         then resetTimerfd now (tm_expiration (hd (tq_timers q1))) q1 else q1)"

definition timer_handleRead ::
  "(nat set \<Rightarrow> nat) \<Rightarrow> timer_code \<Rightarrow> int \<Rightarrow> TimerQueue \<Rightarrow> TimerQueue" where
  "timer_handleRead malloc prog now q =
     (case getExpired now q of
        (expired, q1) \<Rightarrow>
          (let q2 = q1\<lparr>tq_batch := expired, tq_expired := timer_id ` set expired, tq_calling := True\<rparr>;
               q3 = fold (timer_run malloc prog now) expired q2;
               q4 = timer_reset now expired (q3\<lparr>tq_calling := False\<rparr>)
           in q4\<lparr>tq_expired := {}\<rparr>))"

subsection \<open>The invariant\<close>

text \<open>\<open>hs\<close> are timers that are alive but in none of the containers at the moment.\<close>

definition timer_inv :: "timer list \<Rightarrow> TimerQueue \<Rightarrow> bool" where
  "timer_inv hs q \<longleftrightarrow> is_heap tm_expiration (tq_timers q)
     \<and> distinct (map tm_ptr (hs @ live q)) \<and> distinct (map tm_sequence (hs @ live q))
     \<and> (\<forall>t \<in> set (hs @ live q). tm_sequence t \<le> tq_numCreated q)
     \<and> tq_active q = timer_id ` set (tq_timers q)
     \<and> tq_canceling q \<subseteq> timer_id ` set (tq_batch q)
     \<and> (tq_calling q \<longrightarrow> tq_expired q = timer_id ` set (tq_batch q))"

lemma distinct_map_mset: "mset xs = mset ys \<Longrightarrow> distinct (map f xs) = distinct (map f ys)"
  by (metis mset_eq_imp_distinct_iff mset_map)

text \<open>Only the multiset of live timers matters for their identities.\<close>

lemma timer_inv_cong:
  assumes "timer_inv hs q" and "mset (hs' @ live q') = mset (hs @ live q)"
    and "is_heap tm_expiration (tq_timers q')" and "tq_active q' = timer_id ` set (tq_timers q')"
    and "tq_canceling q' \<subseteq> timer_id ` set (tq_batch q')"
    and "tq_calling q' \<longrightarrow> tq_expired q' = timer_id ` set (tq_batch q')"
    and "tq_numCreated q' = tq_numCreated q"
  shows "timer_inv hs' q'"
proof -
  have "set (hs' @ live q') = set (hs @ live q)" using assms(2) by (metis set_mset_mset)
  with assms distinct_map_mset [OF assms(2)] show ?thesis unfolding timer_inv_def by metis
qed

lemma resetTimerfd_arms: "resetTimerfd now e q = q\<lparr>tq_timerfd := Some (max (now + 100) e)\<rparr>"
proof -
  have "(m :: int) div 1000000 * 1000000 + m mod 1000000 * 1000 div 1000 = m" for m by simp
  then show ?thesis
    by (simp add: resetTimerfd_def howMuchTimeFromNow_def Let_def max_def add.assoc)
qed

lemma timer_inv_timerfd [simp]: "timer_inv hs (q\<lparr>tq_timerfd := a\<rparr>) = timer_inv hs q"
    "timer_inv hs (q\<lparr>tq_runs := r\<rparr>) = timer_inv hs q"
  by (simp_all add: timer_inv_def live_def)

lemma insert_fields:
  "tq_timers (snd (timer_insert now t q)) = push_heap tm_expiration (tq_timers q @ [t])"
  "tq_active (snd (timer_insert now t q)) = insert (timer_id t) (tq_active q)"
  "tq_batch (snd (timer_insert now t q)) = tq_batch q" "tq_tasks (snd (timer_insert now t q)) = tq_tasks q"
  "tq_canceling (snd (timer_insert now t q)) = tq_canceling q" "tq_calling (snd (timer_insert now t q)) = tq_calling q"
  "tq_expired (snd (timer_insert now t q)) = tq_expired q" "tq_runs (snd (timer_insert now t q)) = tq_runs q"
  "tq_numCreated (snd (timer_insert now t q)) = tq_numCreated q"
  by (simp_all add: timer_insert_def resetTimerfd_arms Let_def)

lemma timer_insert_inv:
  assumes "timer_inv (t # hs) q"
  shows "timer_inv hs (snd (timer_insert now t q))"
proof -
  have h: "is_heap tm_expiration (tq_timers q)" using assms by (simp add: timer_inv_def)
  note p = binary_heap.push [OF h, of t] binary_heap.push_set [OF h, of t]
  show ?thesis
    by (rule timer_inv_cong [OF assms]) (use assms p in \<open>simp_all add: timer_inv_def live_def insert_fields\<close>)
qed

lemma erase_ptr_split:
  assumes "distinct (map tm_ptr ts)" and "t \<in> set ts"
  shows "mset ts = add_mset t (mset (erase_ptr (tm_ptr t) ts))"
  using assms by (induction ts) (auto dest: image_eqI [of "tm_ptr t" tm_ptr])

text \<open>Cancelling takes a timer out of the heap and deletes it, or marks it, or posts a retry.\<close>

lemma cancel_active:
  assumes "timer_inv hs q" and "i \<in> tq_active q"
  shows "\<exists>t ts. timer_id t = i \<and> mset (tq_timers q) = add_mset t (mset ts) \<and> is_heap tm_expiration ts
    \<and> cancelInLoop i b q = q\<lparr>tq_active := timer_id ` set ts, tq_timers := ts\<rparr>"
proof -
  from assms obtain t where t: "t \<in> set (tq_timers q)" "i = timer_id t" by (auto simp: timer_inv_def)
  have d: "distinct (map tm_ptr (tq_timers q))" using assms(1) by (simp add: timer_inv_def live_def)
  note m = erase_ptr_split [OF d t(1)]
  let ?ts = "make_heap tm_expiration (erase_ptr (tm_ptr t) (tq_timers q))"
  have ts: "is_heap tm_expiration ?ts" "mset ?ts = mset (erase_ptr (tm_ptr t) (tq_timers q))"
    using binary_heap.make by blast+
  have "tq_active q - {timer_id t} = timer_id ` set ?ts"
  proof -
    have s: "set (tq_timers q) = insert t (set ?ts)" using m ts(2) by (metis set_mset_mset set_mset_add_mset_insert)
    have "mset (tq_timers q) = mset (t # ?ts)" using m ts(2) by simp
    from distinct_map_mset [OF this, of tm_ptr] d have "tm_ptr t \<notin> tm_ptr ` set ?ts" by simp
    then have "timer_id t \<notin> timer_id ` set ?ts" by (auto simp: timer_id_def)
    with s assms(1) show ?thesis by (auto simp: timer_inv_def)
  qed
  then have "cancelInLoop i b q = q\<lparr>tq_active := timer_id ` set ?ts, tq_timers := ?ts\<rparr>"
    using assms(2) t by (auto simp: cancelInLoop_def timer_id_def Let_def)
  with t m ts show ?thesis by (intro exI [of _ t] exI [of _ ?ts]) simp
qed

lemma pending_inserts_append [simp]:
  "pending_inserts (as @ bs) = pending_inserts as @ pending_inserts bs"
  by (induction as rule: pending_inserts.induct) simp_all

lemma timer_inv_drop: "timer_inv (t # hs) q \<Longrightarrow> timer_inv hs q"
  by (auto simp: timer_inv_def)

lemma cancelInLoop_inv:
  assumes "timer_inv hs q"
  shows "timer_inv hs (cancelInLoop i b q)"
proof (cases "i \<in> tq_active q")
  case True
  from cancel_active [OF assms True, of b] obtain t ts where
    ts: "mset (tq_timers q) = add_mset t (mset ts)" "is_heap tm_expiration ts"
      "cancelInLoop i b q = q\<lparr>tq_active := timer_id ` set ts, tq_timers := ts\<rparr>" by blast
  have "timer_inv (t # hs) (cancelInLoop i b q)"
    by (rule timer_inv_cong [OF assms]) (use assms ts in \<open>simp_all add: timer_inv_def live_def\<close>)
  then show ?thesis by (rule timer_inv_drop)
next
  case False
  with assms show ?thesis
    by (auto simp: cancelInLoop_def timer_inv_def live_def)
qed

definition malloc_ok :: "(nat set \<Rightarrow> nat) \<Rightarrow> bool" where
  "malloc_ok malloc \<longleftrightarrow> (\<forall>A. finite A \<longrightarrow> malloc A \<notin> A)"

lemma addTimer_inv:
  assumes "timer_inv [] q" and "malloc_ok malloc"
  shows "timer_inv [] (snd (addTimer malloc inLoop now when interval q))"
proof -
  let ?t = "\<lparr>tm_ptr = malloc (tm_ptr ` set (live q)), tm_expiration = when, tm_interval = interval,
             tm_sequence = tq_numCreated q + 1\<rparr>"
  let ?q = "q\<lparr>tq_numCreated := tq_numCreated q + 1\<rparr>"
  have l: "live ?q = live q" by (simp add: live_def)
  have "tm_ptr ?t \<notin> tm_ptr ` set (live q)" using assms(2) by (simp add: malloc_ok_def)
  moreover have "tm_sequence ?t \<notin> tm_sequence ` set (live q)" and "\<forall>t \<in> set (live q). tm_sequence t \<le> tq_numCreated q"
    using assms(1) by (auto simp: timer_inv_def)
  ultimately have t: "timer_inv [?t] ?q"
    using assms(1) by (auto simp: timer_inv_def l)
  have "timer_inv [] (?q\<lparr>tq_tasks := tq_tasks ?q @ [InsertTask ?t]\<rparr>)"
    by (rule timer_inv_cong [OF t]) (use t in \<open>simp_all add: timer_inv_def live_def\<close>)
  with timer_insert_inv [OF t, of now] show ?thesis by (simp add: addTimer_def Let_def)
qed

lemma timer_act_inv: "timer_inv [] q \<Longrightarrow> malloc_ok malloc \<Longrightarrow> timer_inv [] (timer_act malloc now a q)"
  by (cases a) (simp_all add: addTimer_inv cancel_def cancelInLoop_inv)

lemma timer_run_inv: "timer_inv [] q \<Longrightarrow> malloc_ok malloc \<Longrightarrow> timer_inv [] (timer_run malloc prog now t q)"
proof -
  have "timer_inv [] q \<Longrightarrow> malloc_ok malloc \<Longrightarrow> timer_inv [] (fold (timer_act malloc now) as q)" for as q
    by (induction as arbitrary: q) (simp_all add: timer_act_inv)
  then show "timer_inv [] q \<Longrightarrow> malloc_ok malloc \<Longrightarrow> timer_inv [] (timer_run malloc prog now t q)"
    by (simp add: timer_run_def Let_def)
qed

text \<open>The batch: exactly the timers that are due, the earliest first.\<close>

lemma getExpired_ok:
  assumes "timer_inv hs q" and "getExpired now q = (ex, q')"
  shows "timer_inv (ex @ hs) q' \<and> mset (tq_timers q) = mset ex + mset (tq_timers q')
    \<and> (\<forall>t \<in> set ex. tm_expiration t \<le> now) \<and> (\<forall>t \<in> set (tq_timers q'). now < tm_expiration t)
    \<and> sorted (map tm_expiration ex) \<and> tq_batch q' = tq_batch q \<and> tq_tasks q' = tq_tasks q
    \<and> tq_runs q' = tq_runs q \<and> tq_calling q' = tq_calling q \<and> tq_canceling q' = tq_canceling q"
  using assms
proof (induction now q arbitrary: hs ex q' rule: getExpired.induct)
  case (1 now q)
  have h: "is_heap tm_expiration (tq_timers q)" using 1(2) by (simp add: timer_inv_def)
  show ?case
  proof (cases "tq_timers q \<noteq> [] \<and> tm_expiration (hd (tq_timers q)) \<le> now")
    case False
    then have "ex = []" "q' = q" using 1(3) by (auto simp: getExpired.simps [of now q])
    moreover have "\<forall>t \<in> set (tq_timers q). now < tm_expiration t"
      using False is_heap_hd [OF h] by fastforce
    ultimately show ?thesis using 1(2) by simp
  next
    case True
    let ?t = "hd (tq_timers q)" and ?ts = "butlast (pop_heap tm_expiration (tq_timers q))"
    let ?q = "q\<lparr>tq_active := tq_active q - {timer_id ?t}, tq_timers := ?ts\<rparr>"
    note pop = binary_heap.pop [OF h] binary_heap.pop_min [OF h]
    obtain ex1 where g: "getExpired now ?q = (ex1, q')" and ex: "ex = ?t # ex1"
      using 1(3) True pop(1) by (subst (asm) getExpired.simps) (auto simp: Let_def split: prod.splits)
    have m: "mset (tq_timers q) = add_mset ?t (mset ?ts)" using True pop by blast
    then have s: "set (tq_timers q) = insert ?t (set ?ts)" by (metis set_mset_mset set_mset_add_mset_insert)
    have "distinct (map tm_ptr (tq_timers q))" using 1(2) by (simp add: timer_inv_def live_def)
    with m have "tm_ptr ?t \<notin> tm_ptr ` set ?ts"
      using distinct_map_mset [of "tq_timers q" "?t # ?ts" tm_ptr] by simp
    then have "timer_id ?t \<notin> timer_id ` set ?ts" by (auto simp: timer_id_def)
    then have a: "tq_active ?q = timer_id ` set ?ts" using 1(2) s by (auto simp: timer_inv_def)
    have "timer_inv (?t # hs) ?q"
      by (rule timer_inv_cong [OF 1(2)]) (use 1(2) True pop m a in \<open>simp_all add: timer_inv_def live_def\<close>)
    from 1(1) [OF True refl refl this g] have IH: "timer_inv (ex1 @ ?t # hs) q'"
      "mset ?ts = mset ex1 + mset (tq_timers q')" "\<forall>t \<in> set ex1. tm_expiration t \<le> now"
      "\<forall>t \<in> set (tq_timers q'). now < tm_expiration t" "sorted (map tm_expiration ex1)"
      "tq_batch q' = tq_batch q" "tq_tasks q' = tq_tasks q" "tq_runs q' = tq_runs q"
      "tq_calling q' = tq_calling q" "tq_canceling q' = tq_canceling q" by simp_all
    have "timer_inv (ex @ hs) q'"
      by (rule timer_inv_cong [OF IH(1)]) (use IH(1) ex in \<open>simp_all add: timer_inv_def\<close>)
    moreover have "\<forall>t \<in> set ex1. tm_expiration ?t \<le> tm_expiration t"
    proof
      fix t assume "t \<in> set ex1"
      then have "t \<in># mset ?ts" using IH(2) by simp
      with s is_heap_hd [OF h] show "tm_expiration ?t \<le> tm_expiration t" by simp
    qed
    ultimately show ?thesis using IH m True ex by simp
  qed
qed

subsection \<open>Arming\<close>

definition armed :: "int \<Rightarrow> TimerQueue \<Rightarrow> bool" where
  "armed now q \<longleftrightarrow> tq_timers q = [] \<or>
     (\<exists>a. tq_timerfd q = Some a \<and> (\<forall>t \<in> set (tq_timers q). a \<le> max (tm_expiration t) (now + 100)))"

text \<open>While callbacks run, the timer may be unarmed, but not if an invalid time is queued: \<open>reset\<close>
  would not arm it.\<close>

definition prearmed :: "int \<Rightarrow> TimerQueue \<Rightarrow> bool" where
  "prearmed now q \<longleftrightarrow> (\<exists>t \<in> set (tq_timers q). \<not> valid (tm_expiration t)) \<longrightarrow> tq_timerfd q = Some (now + 100)"

lemma armed_mono: "armed now q \<Longrightarrow> now \<le> now' \<Longrightarrow> armed now' q"
  unfolding armed_def by (meson add_right_mono max.mono order_refl order_trans)

lemma insert_timerfd:
  "tq_timerfd (snd (timer_insert now t q)) =
     (if tq_timers q = [] \<or> tm_expiration t < tm_expiration (hd (tq_timers q))
      then Some (max (now + 100) (tm_expiration t)) else tq_timerfd q)"
  by (simp add: timer_insert_def resetTimerfd_arms Let_def)

lemma insert_set:
  "timer_inv hs q \<Longrightarrow> set (tq_timers (snd (timer_insert now t q))) = insert t (set (tq_timers q))"
  using binary_heap.push_set [of tm_expiration "tq_timers q" t] by (simp add: timer_inv_def insert_fields)

lemma insert_armed:
  assumes "timer_inv hs q" and "armed now q"
  shows "armed now (snd (timer_insert now t q))"
proof (cases "tq_timers q = [] \<or> tm_expiration t < tm_expiration (hd (tq_timers q))")
  case True
  have "tm_expiration t \<le> tm_expiration u" if "u \<in> set (tq_timers q)" for u
    using that True is_heap_hd [of tm_expiration "tq_timers q" u] assms(1) by (auto simp: timer_inv_def)
  then have "\<forall>u \<in> insert t (set (tq_timers q)). max (now + 100) (tm_expiration t) \<le> max (tm_expiration u) (now + 100)"
    by (fastforce simp: le_max_iff_disj)
  with True show ?thesis by (simp add: armed_def insert_timerfd insert_set [OF assms(1)])
next
  case False
  then have h: "hd (tq_timers q) \<in> set (tq_timers q)" "tm_expiration (hd (tq_timers q)) \<le> tm_expiration t" by auto
  from False assms(2) obtain a where a: "tq_timerfd q = Some a"
    "\<forall>u \<in> set (tq_timers q). a \<le> max (tm_expiration u) (now + 100)" by (auto simp: armed_def)
  have "a \<le> max (tm_expiration t) (now + 100)" using a(2) h by (force simp: le_max_iff_disj)
  with False a show ?thesis by (simp add: armed_def insert_timerfd insert_set [OF assms(1)])
qed

lemma insert_prearmed:
  assumes "timer_inv hs q" and "prearmed now q" and "0 \<le> now"
  shows "prearmed now (snd (timer_insert now t q))"
proof (cases "tq_timers q = [] \<or> tm_expiration t < tm_expiration (hd (tq_timers q))")
  case True
  have "tm_expiration t \<le> tm_expiration u" if "u \<in> set (tq_timers q)" for u
    using that True is_heap_hd [of tm_expiration "tq_timers q" u] assms(1) by (auto simp: timer_inv_def)
  with True assms(3) show ?thesis
    by (force simp: prearmed_def insert_timerfd insert_set [OF assms(1)] valid_def max_def)
next
  case False
  then have "hd (tq_timers q) \<in> set (tq_timers q)" "tm_expiration (hd (tq_timers q)) \<le> tm_expiration t" by auto
  then have "\<not> valid (tm_expiration t) \<Longrightarrow> \<exists>u \<in> set (tq_timers q). \<not> valid (tm_expiration u)"
    unfolding valid_def by (meson less_le_trans)
  with False assms(2) show ?thesis
    by (auto simp: prearmed_def insert_timerfd insert_set [OF assms(1)])
qed

lemma cancel_subset:
  assumes "timer_inv hs q"
  shows "set (tq_timers (cancelInLoop i b q)) \<subseteq> set (tq_timers q)"
    and "tq_timerfd (cancelInLoop i b q) = tq_timerfd q" and "tq_runs (cancelInLoop i b q) = tq_runs q"
    and "tq_batch (cancelInLoop i b q) = tq_batch q"
proof -
  show "set (tq_timers (cancelInLoop i b q)) \<subseteq> set (tq_timers q)"
  proof (cases "i \<in> tq_active q")
    case True
    from cancel_active [OF assms True, of b] obtain t ts where
      "mset (tq_timers q) = add_mset t (mset ts)" "tq_timers (cancelInLoop i b q) = ts" by auto
    then show ?thesis by (metis set_mset_mset set_mset_add_mset_insert subset_insertI)
  qed (simp add: cancelInLoop_def)
qed (simp_all add: cancelInLoop_def Let_def)

lemma cancel_armed:
  assumes "timer_inv hs q"
  shows "armed now q \<Longrightarrow> armed now (cancelInLoop i b q)" "prearmed now q \<Longrightarrow> prearmed now (cancelInLoop i b q)"
  using cancel_subset(1) [OF assms, of i b] by (auto simp: armed_def prearmed_def cancel_subset(2) [OF assms])

subsection \<open>A whole expiry\<close>

lemma timer_inv_created:
  assumes "timer_inv hs q"
  shows "timer_inv hs (q\<lparr>tq_numCreated := tq_numCreated q + 1\<rparr>)"
proof -
  have "\<forall>t \<in> set (hs @ live q). tm_sequence t \<le> tq_numCreated q + 1"
    using assms unfolding timer_inv_def by (meson zle_add1_eq_le order_less_imp_le)
  then show ?thesis using assms by (simp add: timer_inv_def live_def)
qed

lemma addTimer_True:
  "\<exists>t. snd (addTimer malloc True now when interval q)
     = snd (timer_insert now t (q\<lparr>tq_numCreated := tq_numCreated q + 1\<rparr>))"
  unfolding addTimer_def Let_def by auto

lemma timer_act_keeps:
  assumes "timer_inv [] q" and "0 \<le> now"
  shows "tq_runs (timer_act malloc now a q) = tq_runs q" "tq_batch (timer_act malloc now a q) = tq_batch q"
    and "prearmed now q \<Longrightarrow> prearmed now (timer_act malloc now a q)"
proof -
  let ?q = "q\<lparr>tq_numCreated := tq_numCreated q + 1\<rparr>"
  have "(\<exists>t. timer_act malloc now a q = snd (timer_insert now t ?q)) \<or> (\<exists>i. timer_act malloc now a q = cancelInLoop i True q)"
    using addTimer_True [of malloc now _ _ q] by (cases a) (auto simp: cancel_def)
  then consider t where "timer_act malloc now a q = snd (timer_insert now t ?q)"
    | i where "timer_act malloc now a q = cancelInLoop i True q" by blast
  note act = this
  have p: "prearmed now q \<Longrightarrow> prearmed now ?q" by (simp add: prearmed_def)
  show "tq_runs (timer_act malloc now a q) = tq_runs q" "tq_batch (timer_act malloc now a q) = tq_batch q"
    by (rule act; simp add: insert_fields cancel_subset [OF assms(1)])+
  show "prearmed now (timer_act malloc now a q)" if "prearmed now q"
    using act insert_prearmed [OF timer_inv_created [OF assms(1)] p [OF that] assms(2)]
      cancel_armed(2) [OF assms(1) that] by metis
qed

lemma timer_acts_keep:
  assumes "timer_inv [] q" and "malloc_ok malloc" and "0 \<le> now" and "prearmed now q"
  shows "timer_inv [] (fold (timer_act malloc now) as q) \<and> prearmed now (fold (timer_act malloc now) as q)
    \<and> tq_runs (fold (timer_act malloc now) as q) = tq_runs q
    \<and> tq_batch (fold (timer_act malloc now) as q) = tq_batch q"
  using assms
  by (induction as arbitrary: q) (simp_all add: timer_act_inv timer_act_keeps)

lemma callbacks_keep:
  assumes "timer_inv [] q" and "malloc_ok malloc" and "0 \<le> now" and "prearmed now q"
  shows "let q' = fold (timer_run malloc prog now) ts q in
    timer_inv [] q' \<and> prearmed now q' \<and> tq_batch q' = tq_batch q
    \<and> tq_runs q' = tq_runs q @ map (\<lambda>t. (timer_id t, now)) ts"
  using assms
proof (induction ts arbitrary: q)
  case (Cons t ts)
  let ?q = "q\<lparr>tq_runs := tq_runs q @ [(timer_id t, now)]\<rparr>"
  have "timer_inv [] ?q" "prearmed now ?q" using Cons.prems by (simp_all add: prearmed_def)
  from timer_acts_keep [OF this(1) Cons.prems(2,3) this(2), of "prog t ?q"]
    Cons.IH [of "timer_run malloc prog now t q"] Cons.prems(2,3)
  show ?case by (simp add: timer_run_def Let_def)
qed simp

lemma restart_same: "tm_ptr (restart now t) = tm_ptr t" "tm_sequence (restart now t) = tm_sequence t"
    "timer_id (restart now t) = timer_id t"
  by (simp_all add: restart_def timer_id_def split: option.splits)

lemma timer_inv_replace:
  assumes "timer_inv (t # hs) q" and "tm_ptr t' = tm_ptr t" and "tm_sequence t' = tm_sequence t"
  shows "timer_inv (t' # hs) q"
  using assms by (simp add: timer_inv_def)

lemma reset_step_inv:
  assumes "timer_inv [] q" and "tq_batch q = t # ts" and "\<not> tq_calling q"
  shows "timer_id t \<in> tq_canceling q \<Longrightarrow>
      timer_inv [] (q\<lparr>tq_batch := ts, tq_canceling := tq_canceling q - {timer_id t}\<rparr>)"
    and "timer_id t \<notin> tq_canceling q \<Longrightarrow> timer_inv [t] (q\<lparr>tq_batch := ts\<rparr>)"
proof -
  have m: "mset (t # live (q\<lparr>tq_batch := ts\<rparr>)) = mset (live q)" using assms(2) by (simp add: live_def)
  show "timer_inv [] (q\<lparr>tq_batch := ts, tq_canceling := tq_canceling q - {timer_id t}\<rparr>)" if "timer_id t \<in> tq_canceling q"
  proof (rule timer_inv_drop [of t], rule timer_inv_cong [OF assms(1)])
    show "tq_canceling (q\<lparr>tq_batch := ts, tq_canceling := tq_canceling q - {timer_id t}\<rparr>) \<subseteq>
        timer_id ` set (tq_batch (q\<lparr>tq_batch := ts, tq_canceling := tq_canceling q - {timer_id t}\<rparr>))"
      using assms(1,2) by (auto simp: timer_inv_def)
  qed (use assms m in \<open>simp_all add: timer_inv_def live_def\<close>)
  show "timer_inv [t] (q\<lparr>tq_batch := ts\<rparr>)" if "timer_id t \<notin> tq_canceling q"
  proof (rule timer_inv_cong [OF assms(1)])
    show "tq_canceling (q\<lparr>tq_batch := ts\<rparr>) \<subseteq> timer_id ` set (tq_batch (q\<lparr>tq_batch := ts\<rparr>))"
      using assms(1,2) that by (auto simp: timer_inv_def)
  qed (use assms m in \<open>simp_all add: timer_inv_def live_def\<close>)
qed

lemma reset_loop_ok:
  assumes "timer_inv [] q" and "tq_batch q = ts" and "\<not> tq_calling q" and "prearmed now q" and "0 \<le> now"
  shows "let q' = reset_loop now ts q in timer_inv [] q' \<and> tq_batch q' = [] \<and> \<not> tq_calling q'
    \<and> prearmed now q' \<and> tq_runs q' = tq_runs q"
  using assms
proof (induction ts arbitrary: q)
  case (Cons t ts)
  define q1 where "q1 = (let q1 = q\<lparr>tq_batch := ts\<rparr>
        in if timer_id t \<in> tq_canceling q1 then q1\<lparr>tq_canceling := tq_canceling q1 - {timer_id t}\<rparr>
           else if repeat t then snd (timer_insert now (restart now t) q1)
           else q1)"
  note st = reset_step_inv [OF Cons.prems(1-3)]
  have "timer_inv [] q1 \<and> tq_batch q1 = ts \<and> \<not> tq_calling q1 \<and> prearmed now q1 \<and> tq_runs q1 = tq_runs q"
  proof (cases "timer_id t \<in> tq_canceling q")
    case True
    with st(1) Cons.prems show ?thesis by (simp add: q1_def prearmed_def)
  next
    case False
    let ?q = "q\<lparr>tq_batch := ts\<rparr>"
    have i: "timer_inv [] ?q" using st(2) [OF False] by (rule timer_inv_drop)
    have "timer_inv [restart now t] ?q" using st(2) [OF False] by (rule timer_inv_replace) (simp_all add: restart_same)
    then have "timer_inv [] (snd (timer_insert now (restart now t) ?q))" by (rule timer_insert_inv)
    moreover have "prearmed now ?q" using Cons.prems(4) by (simp add: prearmed_def)
    ultimately show ?thesis
      using False i insert_prearmed [OF i _ Cons.prems(5), of "restart now t"] Cons.prems(3)
      by (simp add: q1_def insert_fields Let_def)
  qed
  moreover have "reset_loop now (t # ts) q = reset_loop now ts q1" by (simp add: q1_def)
  ultimately show ?case using Cons.IH [of q1] Cons.prems(5) by simp
qed simp

lemma timer_reset_ok:
  assumes "timer_inv [] q" and "\<not> tq_calling q" and "prearmed now q" and "0 \<le> now"
  shows "let q' = timer_reset now (tq_batch q) q in timer_inv [] q' \<and> tq_batch q' = [] \<and> \<not> tq_calling q'
    \<and> armed now q' \<and> tq_runs q' = tq_runs q"
proof -
  define q1 where "q1 = reset_loop now (tq_batch q) q"
  have q1: "timer_inv [] q1" "tq_batch q1 = []" "\<not> tq_calling q1" "prearmed now q1" "tq_runs q1 = tq_runs q"
    using reset_loop_ok [OF assms(1) refl assms(2-4)] by (simp_all add: q1_def Let_def)
  have front: "tm_expiration (hd (tq_timers q1)) \<le> tm_expiration t" if "t \<in> set (tq_timers q1)" for t
    using is_heap_hd [of tm_expiration "tq_timers q1" t] q1(1) that by (simp add: timer_inv_def)
  have "armed now (timer_reset now (tq_batch q) q)"
  proof (cases "tq_timers q1 \<noteq> [] \<and> valid (tm_expiration (hd (tq_timers q1)))")
    case True
    then have "tq_timerfd (timer_reset now (tq_batch q) q) = Some (max (now + 100) (tm_expiration (hd (tq_timers q1))))"
      "tq_timers (timer_reset now (tq_batch q) q) = tq_timers q1"
      by (simp_all add: timer_reset_def q1_def [symmetric] resetTimerfd_arms)
    with front show ?thesis by (fastforce simp: armed_def le_max_iff_disj)
  next
    case False
    then have "timer_reset now (tq_batch q) q = q1" by (auto simp: timer_reset_def q1_def [symmetric] Let_def)
    moreover have "tq_timers q1 \<noteq> [] \<Longrightarrow> tq_timerfd q1 = Some (now + 100)"
      using False q1(4) by (auto simp: prearmed_def)
    ultimately show ?thesis by (auto simp: armed_def)
  qed
  with q1 show ?thesis
    by (simp add: timer_reset_def q1_def [symmetric] resetTimerfd_arms Let_def)
qed

lemma timer_inv_calling: "timer_inv hs q \<Longrightarrow> timer_inv hs (q\<lparr>tq_calling := False\<rparr>)"
  by (simp add: timer_inv_def live_def)

lemma timer_inv_expired: "timer_inv hs q \<Longrightarrow> \<not> tq_calling q \<Longrightarrow> timer_inv hs (q\<lparr>tq_expired := e\<rparr>)"
  by (simp add: timer_inv_def live_def)

lemma timer_handleRead_ok:
  assumes "timer_inv [] q" and "tq_batch q = []" and "\<not> tq_calling q" and "malloc_ok malloc" and "0 \<le> now"
  shows "let q' = timer_handleRead malloc prog now q; ex = fst (getExpired now q) in
    timer_inv [] q' \<and> tq_batch q' = [] \<and> \<not> tq_calling q' \<and> armed now q'
    \<and> tq_runs q' = tq_runs q @ map (\<lambda>t. (timer_id t, now)) ex"
proof -
  obtain ex q1 where g: "getExpired now q = (ex, q1)" by (cases "getExpired now q")
  note e = getExpired_ok [OF assms(1) g]
  let ?q2 = "q1\<lparr>tq_batch := ex, tq_expired := timer_id ` set ex, tq_calling := True\<rparr>"
  have i1: "timer_inv ex q1" using e by simp
  have i2: "timer_inv [] ?q2"
    by (rule timer_inv_cong [OF i1]) (use i1 e assms(2) in \<open>simp_all add: timer_inv_def live_def ac_simps\<close>)
  have p2: "prearmed now ?q2" using e assms(5) by (fastforce simp: prearmed_def valid_def)
  define q3 where "q3 = fold (timer_run malloc prog now) ex ?q2"
  have q3: "timer_inv [] q3" "prearmed now q3" "tq_batch q3 = ex"
    "tq_runs q3 = tq_runs q @ map (\<lambda>t. (timer_id t, now)) ex"
    using callbacks_keep [OF i2 assms(4,5) p2, of prog ex] e by (simp_all add: q3_def Let_def)
  let ?q3 = "q3\<lparr>tq_calling := False\<rparr>"
  have "timer_inv [] ?q3" "prearmed now ?q3" using q3 by (simp_all add: timer_inv_calling prearmed_def)
  from timer_reset_ok [OF this(1) _ this(2) assms(5)] q3
  have r: "let q' = timer_reset now ex ?q3 in timer_inv [] q' \<and> tq_batch q' = [] \<and> \<not> tq_calling q'
    \<and> armed now q' \<and> tq_runs q' = tq_runs q3" by simp
  then show ?thesis
    using q3 g by (simp add: timer_handleRead_def q3_def [symmetric] Let_def armed_def timer_inv_expired)
qed

end
