(* ===== verification/Timer_Runs.thy ===== *)
theory Timer_Runs
  imports Timer_Queue
begin

text \<open>
  The timer queue of \<open>src/src/TimerQueue.cpp\<close> over time: every sequence of additions, cancellations,
  posted tasks and firings of the kernel timer, with callbacks that use the queue themselves. Timers
  are never slept through, an expiry runs what is due, and a cancelled timer stays cancelled.
\<close>

subsection \<open>The timers of an event loop\<close>

text \<open>The timer calls of \<open>EventLoop\<close> forward to its queue. A delay is given in microseconds, as
  \<open>Timestamp::operator+=\<close> makes it from seconds; \<open>now\<close> is the clock when the call is made.\<close>

definition addTimer_delay ::
  "(nat set \<Rightarrow> nat) \<Rightarrow> bool \<Rightarrow> int \<Rightarrow> int \<Rightarrow> nat option \<Rightarrow> TimerQueue \<Rightarrow> TimerId \<times> TimerQueue" where
  "addTimer_delay malloc inLoop now delay interval q =
     (let when = now + delay in addTimer malloc inLoop now when interval q)"

definition runAt :: "(nat set \<Rightarrow> nat) \<Rightarrow> bool \<Rightarrow> int \<Rightarrow> int \<Rightarrow> TimerQueue \<Rightarrow> TimerId \<times> TimerQueue" where
  "runAt malloc inLoop now when q = addTimer malloc inLoop now when None q"

definition loop_runAfter :: "(nat set \<Rightarrow> nat) \<Rightarrow> bool \<Rightarrow> int \<Rightarrow> int \<Rightarrow> TimerQueue \<Rightarrow> TimerId \<times> TimerQueue" where
  "loop_runAfter malloc inLoop now delay q = addTimer_delay malloc inLoop now delay None q"

definition runEvery :: "(nat set \<Rightarrow> nat) \<Rightarrow> bool \<Rightarrow> int \<Rightarrow> int \<Rightarrow> TimerQueue \<Rightarrow> TimerId \<times> TimerQueue" where
  "runEvery malloc inLoop now interval q =
     addTimer_delay malloc inLoop now interval (if 0 < interval then Some (nat interval) else None) q"

definition loop_cancelTimer :: "bool \<Rightarrow> TimerId \<Rightarrow> TimerQueue \<Rightarrow> TimerQueue" where
  "loop_cancelTimer inLoop i q = cancel inLoop i q"

text \<open>The destructor: the addresses of the timers it deletes. Removing the channel and closing the
  descriptor concern the loop alone.\<close>

definition destroyTimerQueue :: "TimerQueue \<Rightarrow> nat list" where
  "destroyTimerQueue q = map tm_ptr (tq_timers q)"

text \<open>The order of handles in a \<open>std::set\<close>.\<close>

definition timerIdLess :: "TimerId \<Rightarrow> TimerId \<Rightarrow> bool" where
  "timerIdLess lhs rhs =
     (if fst lhs < fst rhs then True
      else if fst rhs < fst lhs then False
      else snd lhs < snd rhs)"

lemma timerIdLess_strict_order:
  "\<not> timerIdLess i i" "timerIdLess i j \<Longrightarrow> timerIdLess j k \<Longrightarrow> timerIdLess i k"
  "\<not> timerIdLess i j \<Longrightarrow> \<not> timerIdLess j i \<Longrightarrow> i = j"
  by (auto simp: timerIdLess_def prod_eq_iff split: if_splits)

subsection \<open>Runs of the queue\<close>

text \<open>What happens to a queue between two returns to the loop: a thread adds or cancels a timer, the
  loop runs the next posted task, or the kernel timer fires and the channel calls \<open>handleRead\<close>. Time
  passes in every step.\<close>

inductive timer_step ::
  "(nat set \<Rightarrow> nat) \<Rightarrow> timer_code \<Rightarrow> int \<times> TimerQueue \<Rightarrow> int \<times> TimerQueue \<Rightarrow> bool" for malloc prog where
  TAdd: "now \<le> now' \<Longrightarrow>
    timer_step malloc prog (now, q) (now', snd (addTimer malloc inLoop now' when interval q))"
| TCancel: "now \<le> now' \<Longrightarrow> timer_step malloc prog (now, q) (now', cancel inLoop i q)"
| TTask: "now \<le> now' \<Longrightarrow> tq_tasks q = task # tasks \<Longrightarrow>
    timer_step malloc prog (now, q) (now', run_timer_task now' task (q\<lparr>tq_tasks := tasks\<rparr>))"
| TFires: "now \<le> now' \<Longrightarrow> tq_timerfd q = Some a \<Longrightarrow> a \<le> now' \<Longrightarrow>
    timer_step malloc prog (now, q) (now', timer_handleRead malloc prog now' (q\<lparr>tq_timerfd := None\<rparr>))"

inductive_cases timer_stepE: "timer_step malloc prog (now, q) s'"

abbreviation timer_steps ::
  "(nat set \<Rightarrow> nat) \<Rightarrow> timer_code \<Rightarrow> int \<times> TimerQueue \<Rightarrow> int \<times> TimerQueue \<Rightarrow> bool" where
  "timer_steps malloc prog \<equiv> (timer_step malloc prog)\<^sup>*\<^sup>*"

text \<open>The calls of the event loop are among these steps, so what holds of all runs holds of them.\<close>

lemma facade_steps:
  assumes "now \<le> now'"
  shows "timer_step malloc prog (now, q) (now', snd (runAt malloc inLoop now' when q))"
    and "timer_step malloc prog (now, q) (now', snd (loop_runAfter malloc inLoop now' delay q))"
    and "timer_step malloc prog (now, q) (now', snd (runEvery malloc inLoop now' delay q))"
    and "timer_step malloc prog (now, q) (now', loop_cancelTimer inLoop i q)"
  using assms by (simp_all add: runAt_def loop_runAfter_def runEvery_def loop_cancelTimer_def addTimer_delay_def TAdd TCancel)

text \<open>One round of \<open>doPendingFunctors\<close> over the tasks the queue has posted.\<close>

definition timer_functors :: "int \<Rightarrow> TimerQueue \<Rightarrow> TimerQueue" where
  "timer_functors now q = fold (run_timer_task now) (tq_tasks q) (q\<lparr>tq_tasks := []\<rparr>)"

definition quiet :: "TimerQueue \<Rightarrow> bool" where
  "quiet q \<longleftrightarrow> timer_inv [] q \<and> tq_batch q = [] \<and> \<not> tq_calling q"

lemma quiet_new: "quiet newTimerQueue" "armed now newTimerQueue"
  by (simp_all add: quiet_def timer_inv_def newTimerQueue_def live_def is_heap_def armed_def)

lemma cancel_keeps: "tq_calling (cancelInLoop i b q) = tq_calling q" "tq_numCreated (cancelInLoop i b q) = tq_numCreated q"
  by (simp_all add: cancelInLoop_def Let_def)

lemma cancel_quiet: "quiet q \<Longrightarrow> quiet (cancelInLoop i b q)"
  using cancel_subset(4) [of "[]" q i b] by (simp add: quiet_def cancelInLoop_inv cancel_keeps)

lemma timer_inv_tasks:
  assumes "timer_inv hs q" and "mset (hs' @ pending_inserts ts) = mset (hs @ pending_inserts (tq_tasks q))"
  shows "timer_inv hs' (q\<lparr>tq_tasks := ts\<rparr>)"
proof (rule timer_inv_cong [OF assms(1)])
  have "mset (hs' @ live (q\<lparr>tq_tasks := ts\<rparr>)) = mset (hs' @ pending_inserts ts) + (mset (tq_timers q) + mset (tq_batch q))"
    by (simp add: live_def ac_simps)
  then show "mset (hs' @ live (q\<lparr>tq_tasks := ts\<rparr>)) = mset (hs @ live q)"
    unfolding assms(2) by (simp add: live_def ac_simps)
qed (use assms(1) in \<open>simp_all add: timer_inv_def\<close>)

lemma armed_fields: "armed now (q\<lparr>tq_tasks := ts\<rparr>) = armed now q" "armed now (q\<lparr>tq_numCreated := n\<rparr>) = armed now q"
  by (simp_all add: armed_def)

lemma addTimer_keeps:
  assumes "quiet q" and "armed now q" and "malloc_ok malloc"
  shows "quiet (snd (addTimer malloc inLoop now when interval q))"
    and "armed now (snd (addTimer malloc inLoop now when interval q))"
proof -
  have i: "timer_inv [] q" using assms(1) by (simp add: quiet_def)
  show "quiet (snd (addTimer malloc inLoop now when interval q))"
    using addTimer_inv [OF i assms(3)] assms(1)
    by (simp add: quiet_def) (simp add: addTimer_def Let_def insert_fields)
  show "armed now (snd (addTimer malloc inLoop now when interval q))"
    using insert_armed [OF timer_inv_created [OF i]] assms(2)
    by (simp add: addTimer_def Let_def armed_fields)
qed

lemma run_timer_task_keeps:
  assumes "quiet q" and "armed now q" and "tq_tasks q = task # tasks"
  shows "quiet (run_timer_task now task (q\<lparr>tq_tasks := tasks\<rparr>))"
    and "armed now (run_timer_task now task (q\<lparr>tq_tasks := tasks\<rparr>))"
proof -
  let ?q = "q\<lparr>tq_tasks := tasks\<rparr>"
  have i: "timer_inv [] q" using assms(1) by (simp add: quiet_def)
  have I: "timer_inv [t] ?q" if "task = InsertTask t" for t
    using timer_inv_tasks [OF i, of "[t]" tasks] assms(3) that by simp
  have C: "timer_inv [] ?q" if "task = CancelTask j b" for j b
    using timer_inv_tasks [OF i, of "[]" tasks] assms(3) that by simp
  show "quiet (run_timer_task now task ?q)"
    using timer_insert_inv [OF I] cancel_quiet [of ?q] C assms(1)
    by (cases task) (simp_all add: run_timer_task_def quiet_def insert_fields)
  show "armed now (run_timer_task now task ?q)"
    using insert_armed [OF I] cancel_armed(1) [OF C] assms(2)
    by (cases task) (simp_all add: run_timer_task_def armed_fields)
qed

lemma timer_step_keeps:
  assumes "timer_step malloc prog (now, q) (now', q')" and "quiet q" and "armed now q" and "0 < now" and "malloc_ok malloc"
  shows "quiet q' \<and> armed now' q' \<and> 0 < now'"
  using assms(1)
proof (cases rule: timer_step.cases)
  case (TAdd b w d)
  with addTimer_keeps [OF assms(2) armed_mono [OF assms(3)] assms(5)] assms(4) show ?thesis by simp
next
  case (TCancel inLoop i)
  have "quiet (cancel inLoop i q)" "armed now' (cancel inLoop i q)"
    using cancel_quiet [OF assms(2)] cancel_armed(1) [of "[]" q now'] armed_mono [OF assms(3) TCancel(2)] assms(2)
      timer_inv_tasks [of "[]" q "[]" "tq_tasks q @ [CancelTask i True]"]
    by (simp_all add: cancel_def quiet_def armed_fields)
  with TCancel assms(4) show ?thesis by simp
next
  case (TTask task tasks)
  with run_timer_task_keeps [OF assms(2) armed_mono [OF assms(3)]] assms(4) show ?thesis by simp
next
  case (TFires a)
  let ?q = "q\<lparr>tq_timerfd := None\<rparr>"
  have "timer_inv [] ?q" "tq_batch ?q = []" "\<not> tq_calling ?q" using assms(2) by (simp_all add: quiet_def)
  from timer_handleRead_ok [OF this assms(5)] TFires assms(4) show ?thesis by (simp add: Let_def quiet_def)
qed

lemma timer_steps_keep:
  assumes "timer_steps malloc prog (start, newTimerQueue) (now, q)" and "0 < start" and "malloc_ok malloc"
  shows "quiet q \<and> armed now q \<and> 0 < now"
  using assms(1)
proof (induction "(now, q)" arbitrary: now q rule: rtranclp_induct)
  case base
  then show ?case using quiet_new assms(2) by simp
next
  case (step y)
  then show ?case using timer_step_keeps assms(3) by (cases y) blast
qed

subsection \<open>Cancelled timers\<close>

text \<open>A handle is \<open>gone\<close> when its timer was created and no live timer carries it any more.\<close>

definition gone :: "timer list \<Rightarrow> TimerId \<Rightarrow> TimerQueue \<Rightarrow> bool" where
  "gone hs i q \<longleftrightarrow> i \<notin> timer_id ` set (hs @ live q) \<and> snd i \<le> tq_numCreated q"

definition runs_of :: "TimerId \<Rightarrow> TimerQueue \<Rightarrow> (TimerId \<times> int) list" where
  "runs_of i q = filter (\<lambda>r. fst r = i) (tq_runs q)"

lemma gone_cong:
  assumes "gone hs i q" and "set (hs' @ live q') \<subseteq> set (hs @ live q)" and "tq_numCreated q' = tq_numCreated q"
  shows "gone hs' i q'"
  using assms unfolding gone_def by auto

lemma gone_insert: "gone (t # hs) i q \<Longrightarrow> timer_inv hs' q \<Longrightarrow> gone hs i (snd (timer_insert now t q))"
  by (rule gone_cong, assumption) (auto simp: live_def insert_set, auto simp: insert_fields)

lemma cancel_live:
  assumes "timer_inv hs q"
  shows "set (live (cancelInLoop i b q)) \<subseteq> set (live q)"
proof -
  have "pending_inserts (tq_tasks (cancelInLoop i b q)) = pending_inserts (tq_tasks q)"
    by (simp add: cancelInLoop_def Let_def)
  with cancel_subset [OF assms, of i b] show ?thesis by (auto simp: live_def)
qed

lemma gone_cancel: "gone hs i q \<Longrightarrow> timer_inv hs q \<Longrightarrow> gone hs i (cancelInLoop j b q)"
  by (rule gone_cong, assumption) (use cancel_live [of hs q j b] in \<open>auto simp: cancel_keeps\<close>)

lemma gone_add:
  assumes "gone [] i q" and "timer_inv [] q"
  shows "gone [] i (snd (addTimer malloc inLoop now when interval q))"
proof -
  let ?t = "\<lparr>tm_ptr = malloc (tm_ptr ` set (live q)), tm_expiration = when, tm_interval = interval,
             tm_sequence = tq_numCreated q + 1\<rparr>"
  let ?q = "q\<lparr>tq_numCreated := tq_numCreated q + 1\<rparr>"
  have "gone [?t] i ?q" using assms(1) by (auto simp: gone_def live_def timer_id_def)
  then have "gone [] i (snd (timer_insert now ?t ?q))" "gone [] i (?q\<lparr>tq_tasks := tq_tasks ?q @ [InsertTask ?t]\<rparr>)"
    using gone_insert timer_inv_created [OF assms(2)] by (blast, auto simp: gone_def live_def)
  then show ?thesis by (simp add: addTimer_def Let_def)
qed

lemma gone_act: "gone [] i q \<Longrightarrow> timer_inv [] q \<Longrightarrow> gone [] i (timer_act malloc now a q)"
  by (cases a) (simp_all add: gone_add gone_cancel cancel_def)

lemma gone_acts:
  "gone [] i q \<Longrightarrow> timer_inv [] q \<Longrightarrow> malloc_ok malloc \<Longrightarrow> gone [] i (fold (timer_act malloc now) as q)"
  by (induction as arbitrary: q) (simp_all add: gone_act timer_act_inv)

lemma gone_runs:
  "gone [] i q \<Longrightarrow> timer_inv [] q \<Longrightarrow> malloc_ok malloc \<Longrightarrow> gone [] i (fold (timer_run malloc prog now) ts q)"
proof (induction ts arbitrary: q)
  case (Cons t ts)
  have "gone [] i (q\<lparr>tq_runs := tq_runs q @ [(timer_id t, now)]\<rparr>)" using Cons.prems(1) by (simp add: gone_def live_def)
  then have "gone [] i (timer_run malloc prog now t q)"
    using gone_acts Cons.prems(2,3) by (simp add: timer_run_def Let_def)
  then show ?case using Cons.IH Cons.prems timer_run_inv by simp
qed simp

lemma gone_reset_loop:
  assumes "gone [] i q" and "timer_inv [] q" and "tq_batch q = ts" and "\<not> tq_calling q"
  shows "gone [] i (reset_loop now ts q)"
  using assms
proof (induction ts arbitrary: q)
  case (Cons t ts)
  define q1 where "q1 = (let q1 = q\<lparr>tq_batch := ts\<rparr>
        in if timer_id t \<in> tq_canceling q1 then q1\<lparr>tq_canceling := tq_canceling q1 - {timer_id t}\<rparr>
           else if repeat t then snd (timer_insert now (restart now t) q1)
           else q1)"
  note st = reset_step_inv [OF Cons.prems(2-4)]
  have g: "gone [t] i (q\<lparr>tq_batch := ts\<rparr>)" using Cons.prems(1,3) by (auto simp: gone_def live_def)
  have "timer_inv [] q1 \<and> gone [] i q1 \<and> tq_batch q1 = ts \<and> \<not> tq_calling q1"
  proof (cases "timer_id t \<in> tq_canceling q")
    case True
    with st(1) g Cons.prems show ?thesis by (simp add: q1_def gone_def live_def)
  next
    case False
    let ?q = "q\<lparr>tq_batch := ts\<rparr>"
    have i: "timer_inv [] ?q" using st(2) [OF False] by (rule timer_inv_drop)
    have "timer_inv [restart now t] ?q" using st(2) [OF False] by (rule timer_inv_replace) (simp_all add: restart_same)
    then have "timer_inv [] (snd (timer_insert now (restart now t) ?q))" by (rule timer_insert_inv)
    moreover have "gone [restart now t] i ?q" using g by (simp add: gone_def restart_same)
    ultimately show ?thesis
      using False i g gone_insert [of "restart now t" "[]" i ?q "[]" now] Cons.prems(4)
      by (simp add: q1_def insert_fields Let_def gone_def)
  qed
  moreover have "reset_loop now (t # ts) q = reset_loop now ts q1" by (simp add: q1_def)
  ultimately show ?case using Cons.IH [of q1] by simp
qed simp

lemma gone_handleRead:
  assumes "quiet q" and "gone [] i q" and "malloc_ok malloc" and "0 \<le> now"
  shows "gone [] i (timer_handleRead malloc prog now q) \<and> runs_of i (timer_handleRead malloc prog now q) = runs_of i q"
proof -
  have quiet: "timer_inv [] q" "tq_batch q = []" "\<not> tq_calling q" using assms(1) by (simp_all add: quiet_def)
  obtain ex q1 where g: "getExpired now q = (ex, q1)" by (cases "getExpired now q")
  note e = getExpired_ok [OF quiet(1) g]
  have s: "set (tq_timers q) = set ex \<union> set (tq_timers q1)" using e by (metis set_mset_mset set_mset_union)
  have n: "tq_numCreated q1 = tq_numCreated q"
    using g by (induction now q arbitrary: ex q1 rule: getExpired.induct)
      (subst (asm) (2) getExpired.simps, auto simp: Let_def split: if_splits prod.splits)
  let ?q2 = "q1\<lparr>tq_batch := ex, tq_expired := timer_id ` set ex, tq_calling := True\<rparr>"
  have i1: "timer_inv ex q1" using e by simp
  have i2: "timer_inv [] ?q2"
    by (rule timer_inv_cong [OF i1]) (use i1 e quiet(2) in \<open>simp_all add: timer_inv_def live_def ac_simps\<close>)
  have p2: "prearmed now ?q2" using e assms(4) by (fastforce simp: prearmed_def valid_def)
  have "gone [] i ?q2" by (rule gone_cong [OF assms(2)]) (use e s n in \<open>auto simp: live_def\<close>)
  define q3 where "q3 = fold (timer_run malloc prog now) ex ?q2"
  have q3: "timer_inv [] q3" "tq_batch q3 = ex" "gone [] i q3"
    using callbacks_keep [OF i2 assms(3,4) p2, of prog ex] gone_runs [OF \<open>gone [] i ?q2\<close> i2 assms(3)]
    by (simp_all add: q3_def Let_def)
  have "gone [] i (q3\<lparr>tq_calling := False\<rparr>)" using q3(3) by (simp add: gone_def live_def)
  from gone_reset_loop [OF this timer_inv_calling [OF q3(1)], of ex now] q3(2)
  have "gone [] i (timer_handleRead malloc prog now q)"
    by (simp add: timer_handleRead_def g q3_def [symmetric] timer_reset_def Let_def resetTimerfd_arms gone_def live_def)
  moreover have "i \<notin> timer_id ` set ex" using assms(2) s by (auto simp: gone_def live_def)
  then have "runs_of i (timer_handleRead malloc prog now q) = runs_of i q"
    using timer_handleRead_ok [OF quiet assms(3,4), of prog] g by (auto simp: runs_of_def Let_def filter_empty_conv)
  ultimately show ?thesis by blast
qed

lemma gone_step:
  assumes "timer_step malloc prog (now, q) (now', q')" and "quiet q" and "0 < now" and "gone [] i q" and "malloc_ok malloc"
  shows "gone [] i q' \<and> runs_of i q' = runs_of i q"
  using assms(1)
proof (cases rule: timer_step.cases)
  case (TAdd b w d)
  have "gone [] i q'" using gone_add [OF assms(4)] assms(2) TAdd by (simp add: quiet_def)
  moreover have "tq_runs q' = tq_runs q" using TAdd by (simp add: addTimer_def Let_def insert_fields)
  ultimately show ?thesis by (simp add: runs_of_def)
next
  case (TCancel b j)
  have "gone [] i q'" using gone_cancel [OF assms(4)] assms(2,4) TCancel
    by (auto simp: quiet_def cancel_def gone_def live_def)
  moreover have "tq_runs q' = tq_runs q" using TCancel cancel_subset(3) [of "[]" q] assms(2)
    by (simp add: cancel_def quiet_def)
  ultimately show ?thesis by (simp add: runs_of_def)
next
  case (TTask task tasks)
  let ?q = "q\<lparr>tq_tasks := tasks\<rparr>"
  have i: "timer_inv [] q" using assms(2) by (simp add: quiet_def)
  have I: "timer_inv [t] ?q" "gone [t] i ?q" if "task = InsertTask t" for t
    using timer_inv_tasks [OF i, of "[t]" tasks] assms(4) TTask that by (auto simp: gone_def live_def)
  have C: "timer_inv [] ?q" "gone [] i ?q" if "task = CancelTask j b" for j b
    using timer_inv_tasks [OF i, of "[]" tasks] assms(4) TTask that by (auto simp: gone_def live_def)
  have "gone [] i q'" using gone_insert [OF I(2) I(1)] gone_cancel [OF C(2) C(1)] TTask(1)
    by (cases task) (auto simp: run_timer_task_def)
  moreover have "tq_runs q' = tq_runs q" using TTask(1) cancel_subset(3) [OF C(1)]
    by (cases task) (simp_all add: run_timer_task_def insert_fields)
  ultimately show ?thesis by (simp add: runs_of_def)
next
  case (TFires a)
  let ?q = "q\<lparr>tq_timerfd := None\<rparr>"
  have "quiet ?q" "gone [] i ?q" "runs_of i ?q = runs_of i q"
    using assms(2,4) by (simp_all add: quiet_def gone_def live_def runs_of_def)
  with gone_handleRead [OF this(1,2) assms(5)] TFires assms(3) show ?thesis by simp
qed

lemma gone_steps:
  assumes "timer_steps malloc prog (now, q) (now', q')" and "quiet q" and "armed now q" and "0 < now"
    and "gone [] i q" and "malloc_ok malloc"
  shows "runs_of i q' = runs_of i q"
proof -
  have "quiet q' \<and> armed now' q' \<and> 0 < now' \<and> gone [] i q' \<and> runs_of i q' = runs_of i q"
    using assms(1)
  proof (induction "(now', q')" arbitrary: now' q' rule: rtranclp_induct)
    case (step y)
    then show ?case using timer_step_keeps gone_step assms(6) by (cases y) metis
  qed (use assms in simp)
  then show ?thesis by blast
qed

text \<open>Running posted tasks outside an expiry: what is still to be run is in hand.\<close>

definition between :: "timer_task list \<Rightarrow> int \<Rightarrow> TimerQueue \<Rightarrow> bool" where
  "between ts now q \<longleftrightarrow> timer_inv (pending_inserts ts) q \<and> tq_batch q = [] \<and> \<not> tq_calling q
     \<and> pending_inserts (tq_tasks q) = [] \<and> armed now q"

lemma between_step:
  assumes "between (k # ts) now q"
  shows "between ts now (run_timer_task now k q)" "tq_numCreated (run_timer_task now k q) = tq_numCreated q"
    "runs_of i (run_timer_task now k q) = runs_of i q"
proof -
  have I: "between ts now (cancelInLoop j b q)" if "timer_inv (pending_inserts ts) q" for j b
    using cancelInLoop_inv [OF that] cancel_subset(4) [OF that] cancel_armed(1) [OF that] assms
    by (simp add: between_def cancel_keeps) (simp add: cancelInLoop_def Let_def)
  have J: "timer_inv (pending_inserts ts) q"
    using assms timer_inv_drop by (cases k) (auto simp: between_def)
  show "between ts now (run_timer_task now k q)"
    using I [OF J] timer_insert_inv insert_armed [OF J] assms
    by (cases k) (simp_all add: run_timer_task_def between_def insert_fields)
  show "tq_numCreated (run_timer_task now k q) = tq_numCreated q"
    by (cases k) (simp_all add: run_timer_task_def insert_fields cancel_keeps)
  show "runs_of i (run_timer_task now k q) = runs_of i q"
    using cancel_subset(3) [OF J] by (cases k) (simp_all add: run_timer_task_def insert_fields runs_of_def)
qed

lemma between_run:
  "between ts now q \<Longrightarrow> between [] now (fold (run_timer_task now) ts q) \<and> runs_of i (fold (run_timer_task now) ts q) = runs_of i q
     \<and> tq_numCreated (fold (run_timer_task now) ts q) = tq_numCreated q"
  by (induction ts arbitrary: q) (simp_all add: between_step)

lemma gone_run:
  assumes "between ts now q" and "gone (pending_inserts ts) i q"
  shows "gone [] i (fold (run_timer_task now) ts q)"
  using assms
proof (induction ts arbitrary: q)
  case (Cons k ts)
  have J: "timer_inv (pending_inserts ts) q"
    using Cons.prems(1) timer_inv_drop by (cases k) (auto simp: between_def)
  have "gone (pending_inserts ts) i (run_timer_task now k q)"
    using gone_insert [OF _ J] gone_cancel [OF _ J] Cons.prems(2) by (cases k) (auto simp: run_timer_task_def)
  with Cons.IH between_step(1) [OF Cons.prems(1)] show ?case by simp
qed simp

text \<open>A cancel executed outside an expiry, with no insertion posted, kills the handle.\<close>

lemma cancel_kills:
  assumes "timer_inv [] q" and "tq_batch q = []" and "i \<notin> timer_id ` set (pending_inserts (tq_tasks q))"
    and "snd i \<le> tq_numCreated q"
  shows "gone [] i (cancelInLoop i b q)"
proof (cases "i \<in> tq_active q")
  case True
  from cancel_active [OF assms(1) True, of b] obtain t ts where
    ts: "timer_id t = i" "mset (tq_timers q) = add_mset t (mset ts)"
      "cancelInLoop i b q = q\<lparr>tq_active := timer_id ` set ts, tq_timers := ts\<rparr>" by blast
  have "distinct (map tm_ptr (tq_timers q))" using assms(1) by (simp add: timer_inv_def live_def)
  with ts(2) have "tm_ptr t \<notin> tm_ptr ` set ts" using distinct_map_mset [of "tq_timers q" "t # ts" tm_ptr] by simp
  then have "i \<notin> timer_id ` set ts" using ts(1) by (auto simp: timer_id_def)
  with ts(3) assms show ?thesis by (auto simp: gone_def live_def)
next
  case False
  then have "live (cancelInLoop i b q) = live q" by (simp add: cancelInLoop_def live_def)
  moreover have "i \<notin> timer_id ` set (tq_timers q)" using False assms(1) by (simp add: timer_inv_def)
  ultimately show ?thesis using assms by (auto simp: gone_def live_def cancel_keeps)
qed

lemma quiet_between: "quiet q \<Longrightarrow> armed now q \<Longrightarrow> between (tq_tasks q) now (q\<lparr>tq_tasks := []\<rparr>)"
  using timer_inv_tasks [of "[]" q "pending_inserts (tq_tasks q)" "[]"] by (simp add: quiet_def between_def armed_fields)

lemma between_quiet: "between [] now q \<Longrightarrow> quiet q \<and> armed now q"
  by (simp add: between_def quiet_def)

text \<open>After one round of posted tasks the handle is gone, whichever thread cancelled it.\<close>

lemma cancel_round:
  assumes "quiet q" and "armed now q" and "snd i \<le> tq_numCreated q"
  shows "gone [] i (timer_functors now (cancel inLoop i q))
    \<and> quiet (timer_functors now (cancel inLoop i q)) \<and> armed now (timer_functors now (cancel inLoop i q))
    \<and> runs_of i (timer_functors now (cancel inLoop i q)) = runs_of i q"
proof -
  have inv: "timer_inv [] q" "tq_batch q = []" "\<not> tq_calling q" using assms(1) by (simp_all add: quiet_def)
  show ?thesis
  proof (cases "inLoop \<and> i \<in> tq_active q")
    case True
    let ?q = "cancelInLoop i True q"
    have t: "tq_tasks ?q = tq_tasks q" using True by (simp add: cancelInLoop_def Let_def)
    have b: "between (tq_tasks ?q) now (?q\<lparr>tq_tasks := []\<rparr>)"
      using quiet_between [OF cancel_quiet [OF assms(1)] cancel_armed(1) [OF inv(1) assms(2)]] .
    from True inv(1) obtain u where u: "u \<in> set (tq_timers q)" "timer_id u = i" by (auto simp: timer_inv_def)
    have "i \<notin> timer_id ` set (pending_inserts (tq_tasks q))"
      using inv(1) u by (auto simp: timer_inv_def live_def timer_id_def)
    from cancel_kills [OF inv(1,2) this assms(3), of True]
    have "gone (pending_inserts (tq_tasks ?q)) i (?q\<lparr>tq_tasks := []\<rparr>)" by (auto simp: gone_def live_def)
    from gone_run [OF b this] between_run [OF b, of i] between_quiet [OF conjunct1 [OF between_run [OF b]]]
      True cancel_subset(3) [OF inv(1)]
    show ?thesis by (simp add: cancel_def timer_functors_def runs_of_def)
  next
    case False
    then have c: "cancel inLoop i q = q\<lparr>tq_tasks := tq_tasks q @ [CancelTask i (\<not> inLoop)]\<rparr>"
      using inv(3) by (cases inLoop) (simp_all add: cancel_def cancelInLoop_def)
    define q1 where "q1 = fold (run_timer_task now) (tq_tasks q) (q\<lparr>tq_tasks := []\<rparr>)"
    have q1: "between [] now q1" "runs_of i q1 = runs_of i q" "tq_numCreated q1 = tq_numCreated q"
      using between_run [OF quiet_between [OF assms(1,2)], of i] by (simp_all add: q1_def runs_of_def)
    have "timer_functors now (cancel inLoop i q) = cancelInLoop i (\<not> inLoop) q1"
      by (simp add: c timer_functors_def q1_def run_timer_task_def)
    moreover have "quiet q1" "armed now q1" "gone [] i (cancelInLoop i (\<not> inLoop) q1)"
      using q1 cancel_kills [of q1 i "\<not> inLoop"] assms(3) by (simp_all add: between_def quiet_def)
    ultimately show ?thesis
      using q1(2) cancel_quiet cancel_armed(1) [of "[]" q1] cancel_subset(3) [of "[]" q1] by (simp add: quiet_def runs_of_def)
  qed
qed

subsection \<open>A queue at work\<close>

definition fresh_address :: "nat set \<Rightarrow> nat" where
  "fresh_address A = Suc (Max (insert 0 A))"

lemma fresh_address_ok: "malloc_ok fresh_address"
  unfolding malloc_ok_def fresh_address_def
  by (metis Max_ge Suc_n_not_le_n finite_insert insertCI)

text \<open>At time 10 a repeating timer is added from the loop and a one-shot one from another thread; the
  kernel timer fires at 1000.\<close>

definition quiet_callbacks :: timer_code where
  "quiet_callbacks = (\<lambda>_ _. [])"

definition sample_queue :: TimerQueue where
  "sample_queue = snd (addTimer fresh_address True 10 1000 (Some 500) newTimerQueue)"

lemma sample_queue_reached: "timer_steps fresh_address quiet_callbacks (10, newTimerQueue) (10, sample_queue)"
  unfolding sample_queue_def by (rule r_into_rtranclp) (rule TAdd, simp)

lemma push_one: "push_heap key [x] = [x]"
  by (simp add: push_heap_def sift_up.simps)

lemma sample_queue_state: "sample_queue =
  newTimerQueue\<lparr>tq_timers := [\<lparr>tm_ptr = 1, tm_expiration = 1000, tm_interval = Some 500, tm_sequence = 1\<rparr>],
    tq_active := {(1, 1)}, tq_timerfd := Some 1000, tq_numCreated := 1\<rparr>"
  by (simp add: sample_queue_def addTimer_def newTimerQueue_def timer_insert_def resetTimerfd_arms
    fresh_address_def live_def timer_id_def push_one Let_def)

subsection \<open>Properties\<close>

text \<open>C10: no timer is slept through. In every state a queue can reach, whatever was added, cancelled
  and fired before and whatever the callbacks did, each timer in the heap is covered by the kernel timer:
  it is armed, no later than the timer's expiration or 100 microseconds from now, and when it fires at
  or after the expiration, \<open>handleRead\<close> runs that timer.\<close>

theorem timer_not_slept_through:
  assumes "timer_steps malloc prog (start, newTimerQueue) (now, q)" and "0 < start" and "malloc_ok malloc"
    and "t \<in> set (tq_timers q)"
  shows "\<exists>a. tq_timerfd q = Some a \<and> a \<le> max (tm_expiration t) (now + 100) \<and>
    (\<forall>now'. now \<le> now' \<and> a \<le> now' \<and> tm_expiration t \<le> now' \<longrightarrow>
      timer_step malloc prog (now, q) (now', timer_handleRead malloc prog now' (q\<lparr>tq_timerfd := None\<rparr>)) \<and>
      (timer_id t, now') \<in> set (tq_runs (timer_handleRead malloc prog now' (q\<lparr>tq_timerfd := None\<rparr>))))"
proof -
  have k: "quiet q" "armed now q" "0 < now" using timer_steps_keep [OF assms(1-3)] by simp_all
  then obtain a where a: "tq_timerfd q = Some a" "a \<le> max (tm_expiration t) (now + 100)"
    using assms(4) by (auto simp: armed_def)
  have "(timer_id t, now') \<in> set (tq_runs (timer_handleRead malloc prog now' (q\<lparr>tq_timerfd := None\<rparr>)))"
    if "now \<le> now'" "tm_expiration t \<le> now'" for now'
  proof -
    let ?q = "q\<lparr>tq_timerfd := None\<rparr>"
    obtain ex q1 where g: "getExpired now' ?q = (ex, q1)" by (cases "getExpired now' ?q")
    have "timer_inv [] ?q" "tq_batch ?q = []" "\<not> tq_calling ?q" using k(1) by (simp_all add: quiet_def)
    note e = getExpired_ok [OF this(1) g] and h = timer_handleRead_ok [OF this assms(3), of now' prog]
    have "set (tq_timers ?q) = set ex \<union> set (tq_timers q1)" using e by (metis set_mset_mset set_mset_union)
    then have "t \<in> set ex" using e that(2) assms(4) by fastforce
    with h g k(3) that(1) show ?thesis by (auto simp: Let_def)
  qed
  with a show ?thesis using TFires [OF _ a(1)] by blast
qed

theorem timer_not_slept_through_witness:
  "(\<exists>a. tq_timerfd sample_queue = Some a \<and> a \<le> 1000) \<and>
   ((1, 1), 2000) \<in> set (tq_runs (timer_handleRead fresh_address quiet_callbacks 2000 (sample_queue\<lparr>tq_timerfd := None\<rparr>)))"
  using timer_not_slept_through [OF sample_queue_reached _ fresh_address_ok, of "hd (tq_timers sample_queue)"]
  by (simp add: sample_queue_state) (auto simp: timer_id_def)

text \<open>C26: an expiry runs exactly the timers that are due, each once and the earliest first, before
  anything it does to the queue can interfere: callbacks that add and cancel timers, even those of the
  same batch, change nothing of it.\<close>

theorem timer_expiry_runs_due:
  assumes "timer_steps malloc prog (start, newTimerQueue) (now, q)" and "0 < start" and "malloc_ok malloc"
    and "now \<le> now'"
  shows "\<exists>due. mset due = mset (filter (\<lambda>t. tm_expiration t \<le> now') (tq_timers q))
    \<and> sorted (map tm_expiration due) \<and> distinct (map timer_id due)
    \<and> tq_runs (timer_handleRead malloc prog' now' q) = tq_runs q @ map (\<lambda>t. (timer_id t, now')) due"
proof -
  have k: "quiet q" "0 < now" using timer_steps_keep [OF assms(1-3)] by simp_all
  obtain ex q1 where g: "getExpired now' q = (ex, q1)" by (cases "getExpired now' q")
  have quiet: "timer_inv [] q" "tq_batch q = []" "\<not> tq_calling q" using k(1) by (simp_all add: quiet_def)
  note e = getExpired_ok [OF quiet(1) g] and h = timer_handleRead_ok [OF quiet assms(3), of now' prog']
  have "filter (\<lambda>t. tm_expiration t \<le> now') ex = ex" "filter (\<lambda>t. tm_expiration t \<le> now') (tq_timers q1) = []"
    using e by (simp_all add: filter_empty_conv not_le)
  then have "mset ex = filter_mset (\<lambda>t. tm_expiration t \<le> now') (mset ex + mset (tq_timers q1))"
    by (simp flip: mset_filter)
  moreover have "distinct (map timer_id ex)"
  proof -
    have "distinct (map tm_ptr ex)" using e by (simp add: timer_inv_def)
    then have "distinct (map (fst \<circ> timer_id) ex)" by (simp add: timer_id_def comp_def)
    then show ?thesis by (auto simp: distinct_map dest: inj_on_imageI2)
  qed
  ultimately show ?thesis using e h g k(2) assms(4) by (intro exI [of _ ex]) (simp add: Let_def)
qed

theorem timer_expiry_runs_due_witness:
  "tq_runs (timer_handleRead fresh_address (\<lambda>t q. [CancelAction (timer_id t), AddAction 5 None]) 2000 sample_queue) =
     [((1, 1), 2000)]"
  using timer_expiry_runs_due [OF sample_queue_reached _ fresh_address_ok, of 2000
    "\<lambda>t q. [CancelAction (timer_id t), AddAction 5 None]"]
  by (auto simp: sample_queue_state newTimerQueue_def timer_id_def)

text \<open>C11: a cancelled timer never runs again. Once a handle that was given out is cancelled outside an
  expiry, from the loop's thread or any other, and the loop has run the tasks posted by then (the
  insertion of the timer itself may be one of them), no later step ever runs its timer: not a repetition,
  and not a new timer at the same address.\<close>

theorem timer_cancelled_never_runs:
  assumes "timer_steps malloc prog (start, newTimerQueue) (now, q)" and "0 < start" and "malloc_ok malloc"
    and "snd i \<le> tq_numCreated q"
    and "timer_steps malloc prog (now, timer_functors now (cancel inLoop i q)) (now', q')"
  shows "runs_of i q' = runs_of i q"
proof -
  have k: "quiet q" "armed now q" "0 < now" using timer_steps_keep [OF assms(1-3)] by simp_all
  with gone_steps [OF assms(5)] cancel_round [OF k(1,2) assms(4), of inLoop] assms(3) show ?thesis by simp
qed

theorem timer_cancelled_never_runs_witness:
  "runs_of (1, 1) (snd (addTimer fresh_address True 3000 4000 None
     (timer_functors 10 (cancel False (1, 1) sample_queue)))) = []"
  using timer_cancelled_never_runs [OF sample_queue_reached _ fresh_address_ok, of "(1, 1)" False 3000
    "snd (addTimer fresh_address True 3000 4000 None (timer_functors 10 (cancel False (1, 1) sample_queue)))"]
  by (simp add: r_into_rtranclp TAdd)
    (simp add: sample_queue_state newTimerQueue_def runs_of_def)

text \<open>The destructor of a queue deletes no timer twice, and every timer that exists at that moment except
  those another thread has created and whose insertion the loop has not run yet: these are lost.\<close>

theorem timer_destructor_frees:
  assumes "timer_steps malloc prog (start, newTimerQueue) (now, q)" and "0 < start" and "malloc_ok malloc"
  shows "distinct (destroyTimerQueue q)
    \<and> mset (map tm_ptr (live q)) = mset (destroyTimerQueue q) + mset (map tm_ptr (pending_inserts (tq_tasks q)))"
proof -
  have "quiet q" using timer_steps_keep [OF assms] by simp
  then show ?thesis by (simp add: quiet_def timer_inv_def live_def destroyTimerQueue_def)
qed

end
