(* ===== verification/Charconv.thy ===== *)
theory Charconv
  imports Prelude
begin

section \<open>Number conversion of the standard library\<close>

text \<open>
  What \<open>rpc/src/json_writer.cpp\<close> and \<open>rpc/src/json_parser.cpp\<close> use of \<open>std::to_chars\<close> and
  \<open>std::from_chars\<close>. The overloads for \<open>int64_t\<close> are defined here. The overloads for \<open>double\<close>
  and \<open>std::isfinite\<close> are the record \<open>double_ops\<close>, a parameter of the definitions that
  convert floating-point numbers; \<open>double_io\<close> states what the standard says of them.
\<close>

definition isDigit :: "byte \<Rightarrow> bool" where
  "isDigit c \<longleftrightarrow> 0x30 \<le> c \<and> c \<le> 0x39"

fun dec_digits :: "nat \<Rightarrow> bytes" where
  "dec_digits n =
     (if n < 10 then [0x30 + of_nat n] else dec_digits (n div 10) @ [0x30 + of_nat (n mod 10)])"

declare dec_digits.simps [simp del]

definition dec_value :: "bytes \<Rightarrow> nat" where
  "dec_value ds = foldl (\<lambda>a c. a * 10 + unat (c - 0x30)) 0 ds"

definition to_chars_int :: "i64 \<Rightarrow> bytes" where
  "to_chars_int w =
     (if sint w < 0 then 0x2D # dec_digits (nat (- sint w)) else dec_digits (nat (sint w)))"

text \<open>The value and the number of characters it was read from; \<^const>\<open>None\<close> is an error code,
  \<open>invalid_argument\<close> or \<open>result_out_of_range\<close>.\<close>

definition from_chars_int :: "bytes \<Rightarrow> (i64 \<times> nat) option" where
  "from_chars_int s =
     (let neg = (case s of [] \<Rightarrow> False | c # _ \<Rightarrow> c = 0x2D);
          ds = takeWhile isDigit (if neg then tl s else s);
          v = (if neg then - int (dec_value ds) else int (dec_value ds))
      in if ds = [] then None
         else if - (2 ^ 63) \<le> v \<and> v < 2 ^ 63
         then Some (word_of_int v, length ds + (if neg then 1 else 0))
         else None)"

subsection \<open>Decimal digits\<close>

lemma digit_cases: "n < 10 \<Longrightarrow> n \<in> {0, 1, 2, 3, 4, 5, 6, 7, 8, 9}" for n :: nat
  by simp arith

lemma isDigit_digit: "n < 10 \<Longrightarrow> isDigit (0x30 + of_nat n)"
  and digit_value: "n < 10 \<Longrightarrow> unat (of_nat n :: byte) = n"
  and digit_nonzero: "n < 10 \<Longrightarrow> 0 < n \<Longrightarrow> (0x30 + of_nat n :: byte) \<noteq> 0x30"
  by (drule digit_cases, auto simp: isDigit_def)+

lemma dec_digits_isDigit: "list_all isDigit (dec_digits n)"
  by (induction n rule: dec_digits.induct) (subst dec_digits.simps, auto simp: isDigit_digit)

lemma dec_digits_nonempty [simp]: "dec_digits n \<noteq> []"
  by (subst dec_digits.simps) simp

lemma dec_value_snoc: "dec_value (ds @ [c]) = dec_value ds * 10 + unat (c - 0x30)"
  by (simp add: dec_value_def)

lemma dec_value_digits: "dec_value (dec_digits n) = n"
proof (induction n rule: dec_digits.induct)
  case (1 n)
  show ?case
  proof (cases "n < 10")
    case True
    then show ?thesis
      using dec_value_snoc [of "[]"] by (subst dec_digits.simps) (simp add: digit_value dec_value_def)
  next
    case False
    with 1 show ?thesis
      by (subst dec_digits.simps) (simp add: dec_value_snoc digit_value)
  qed
qed

lemma dec_digits_lead: "0 < n \<Longrightarrow> hd (dec_digits n) \<noteq> 0x30"
proof (induction n rule: dec_digits.induct)
  case (1 n)
  show ?case
  proof (cases "n < 10")
    case True
    with 1(2) show ?thesis using digit_nonzero [of n] by (subst dec_digits.simps) simp
  next
    case False
    with 1(1) show ?thesis by (subst dec_digits.simps) simp
  qed
qed

lemma length_dec_digits: "n < 10 ^ Suc k \<Longrightarrow> length (dec_digits n) \<le> Suc k"
proof (induction k arbitrary: n)
  case 0
  then show ?case by (subst dec_digits.simps) simp
next
  case (Suc k)
  then have "length (dec_digits (n div 10)) \<le> Suc k" by (simp add: div_less_iff_less_mult)
  then show ?case by (subst dec_digits.simps) simp
qed

lemma takeWhile_isDigit: "list_all isDigit ds \<Longrightarrow> takeWhile isDigit ds = ds"
  by (simp add: takeWhile_eq_all_conv list_all_iff)

subsection \<open>Integers\<close>

lemma sint_range: "- (2 ^ 63) \<le> sint (w :: i64)" "sint (w :: i64) < 2 ^ 63"
  using sint_ge [of w] sint_lt [of w] by simp_all

lemma from_chars_to_chars_int:
  "from_chars_int (to_chars_int w) = Some (w, length (to_chars_int w))"
proof (cases "sint w < 0")
  case True
  then show ?thesis
    using sint_range [of w]
    by (simp add: from_chars_int_def to_chars_int_def Let_def takeWhile_isDigit dec_digits_isDigit
        dec_value_digits)
next
  case False
  have "\<not> isDigit 0x2D" by (simp add: isDigit_def)
  then have "\<exists>c cs. dec_digits (nat (sint w)) = c # cs \<and> c \<noteq> 0x2D"
    using dec_digits_isDigit [of "nat (sint w)"] by (cases "dec_digits (nat (sint w))") auto
  with False show ?thesis
    using sint_range [of w] dec_digits_isDigit [of "nat (sint w)"] dec_value_digits [of "nat (sint w)"]
    by (auto simp: from_chars_int_def to_chars_int_def Let_def takeWhile_isDigit)
qed

lemma length_to_chars_int: "length (to_chars_int w) \<le> 20"
proof -
  have "length (dec_digits (nat \<bar>sint w\<bar>)) \<le> Suc 18"
    using sint_range [of w] by (intro length_dec_digits) (simp add: nat_less_iff)
  then show ?thesis by (auto simp: to_chars_int_def)
qed

subsection \<open>Decimal literals\<close>

text \<open>The spellings both conversions deal in: an optional sign, an integer part without leading
  zeros, an optional fraction and an optional exponent.\<close>

definition int_part :: "bytes \<Rightarrow> bool" where
  "int_part ds \<longleftrightarrow> ds = [0x30] \<or> ds \<noteq> [] \<and> hd ds \<noteq> 0x30 \<and> list_all isDigit ds"

definition frac_part :: "bytes \<Rightarrow> bool" where
  "frac_part s \<longleftrightarrow> s = [] \<or> (\<exists>ds. s = 0x2E # ds \<and> ds \<noteq> [] \<and> list_all isDigit ds)"

definition exp_part :: "bytes \<Rightarrow> bool" where
  "exp_part s \<longleftrightarrow> s = [] \<or>
     (\<exists>e sg ds. s = e # sg @ ds \<and> e \<in> {0x65, 0x45} \<and> sg \<in> {[], [0x2B], [0x2D]}
        \<and> ds \<noteq> [] \<and> list_all isDigit ds)"

definition decimal_literal :: "bytes \<Rightarrow> bool \<Rightarrow> bool" where
  "decimal_literal t floating \<longleftrightarrow>
     (\<exists>sg ip fp ep. t = sg @ ip @ fp @ ep \<and> sg \<in> {[], [0x2D]} \<and> int_part ip \<and> frac_part fp
        \<and> exp_part ep \<and> floating = (fp @ ep \<noteq> []))"

lemma dec_digits_int_part: "int_part (dec_digits n)"
proof (cases "n = 0")
  case True
  then show ?thesis by (subst dec_digits.simps) (simp add: int_part_def)
next
  case False
  then show ?thesis using dec_digits_lead [of n] dec_digits_isDigit by (simp add: int_part_def)
qed

lemma to_chars_int_literal: "decimal_literal (to_chars_int w) False"
proof -
  have "\<exists>sg. to_chars_int w = sg @ dec_digits (nat \<bar>sint w\<bar>) \<and> sg \<in> {[], [0x2D]}"
    by (auto simp: to_chars_int_def)
  then show ?thesis
    unfolding decimal_literal_def using dec_digits_int_part
    by (metis append_Nil2 exp_part_def frac_part_def)
qed

subsection \<open>Floating-point numbers\<close>

record 'd double_ops =
  d_isfinite :: "'d \<Rightarrow> bool"
  d_to_chars :: "'d \<Rightarrow> bytes option"
  d_from_chars :: "bytes \<Rightarrow> ('d \<times> nat) option"

text \<open>The character test of the writer, \<open>find_first_of(".eE")\<close>.\<close>

definition has_point_or_exp :: "bytes \<Rightarrow> bool" where
  "has_point_or_exp t \<longleftrightarrow> list_ex (\<lambda>c. c \<in> {0x2E, 0x65, 0x45}) t"

text \<open>\<open>to_chars\<close> on a finite number succeeds in 64 characters and writes a decimal literal.\<close>

definition to_chars_decimal :: "'d double_ops \<Rightarrow> bool" where
  "to_chars_decimal D \<longleftrightarrow>
     (\<forall>x. d_isfinite D x \<longrightarrow> (\<exists>t fl. d_to_chars D x = Some t \<and> decimal_literal t fl))"

text \<open>\<open>from_chars\<close> recovers the number \<open>to_chars\<close> wrote, from all the characters written.\<close>

definition from_chars_recovers :: "'d double_ops \<Rightarrow> bool" where
  "from_chars_recovers D \<longleftrightarrow>
     (\<forall>x t. d_isfinite D x \<longrightarrow> d_to_chars D x = Some t \<longrightarrow> d_from_chars D t = Some (x, length t))"

text \<open>\<open>from_chars\<close> reads a numeral and the same numeral with a zero fraction as one number.\<close>

definition from_chars_zero_fraction :: "'d double_ops \<Rightarrow> bool" where
  "from_chars_zero_fraction D \<longleftrightarrow>
     (\<forall>x t. decimal_literal t False \<longrightarrow> d_from_chars D t = Some (x, length t) \<longrightarrow>
        d_from_chars D (t @ [0x2E, 0x30]) = Some (x, length t + 2))"

definition double_io :: "'d double_ops \<Rightarrow> bool" where
  "double_io D \<longleftrightarrow> to_chars_decimal D \<and> from_chars_recovers D \<and> from_chars_zero_fraction D"

lemma not_digit [simp]: "\<not> isDigit 0x2E" "\<not> isDigit 0x65" "\<not> isDigit 0x45" "\<not> isDigit 0x2D"
    "\<not> isDigit 0x2B" "\<not> isDigit 0x2C" "\<not> isDigit 0x5D" "\<not> isDigit 0x7D"
  by (simp_all add: isDigit_def)

lemma isDigit_0 [simp]: "isDigit 0x30"
  by (simp add: isDigit_def)

lemma int_part_digits: "int_part ip \<Longrightarrow> ip \<noteq> [] \<and> list_all isDigit ip"
  by (auto simp: int_part_def isDigit_def)

lemma has_point_or_exp_literal: "decimal_literal t fl \<Longrightarrow> has_point_or_exp t = fl"
proof -
  assume "decimal_literal t fl"
  then obtain sg ip fp ep where t: "t = sg @ ip @ fp @ ep" "sg \<in> {[], [0x2D]}" "int_part ip"
    "frac_part fp" "exp_part ep" "fl = (fp @ ep \<noteq> [])"
    unfolding decimal_literal_def by blast
  have "\<not> has_point_or_exp ds" if "list_all isDigit ds" for ds
    using that by (induction ds) (auto simp: has_point_or_exp_def)
  with int_part_digits [OF t(3)] have "\<not> has_point_or_exp ip" by blast
  with t show ?thesis by (auto simp: has_point_or_exp_def frac_part_def exp_part_def)
qed

text \<open>An integral literal with a zero fraction is a literal.\<close>

lemma decimal_literal_zero_fraction:
  assumes "decimal_literal t False"
  shows "decimal_literal (t @ [0x2E, 0x30]) True"
proof -
  from assms obtain sg ip where "t = sg @ ip" "sg \<in> {[], [0x2D]}" "int_part ip"
    unfolding decimal_literal_def by auto
  moreover have "frac_part [0x2E, 0x30]" "exp_part []" by (auto simp: frac_part_def exp_part_def)
  ultimately show ?thesis unfolding decimal_literal_def
    by (intro exI [of _ sg] exI [of _ ip] exI [of _ "[0x2E, 0x30]"] exI [of _ "[]"]) simp
qed

end
