(* ===== verification/Inet_Address.thy ===== *)
theory Inet_Address
  imports Charconv
begin

unbundle bit_operations_syntax

section \<open>Addresses\<close>

text \<open>
  \<open>src/InetAddress.cpp\<close> and \<open>include/InetAddress.h\<close>: IPv4 addresses with a port, and their texts.
  \<open>inet_ntop\<close> is defined; \<open>inet_pton\<close> is a parameter.
\<close>

subsection \<open>Addresses\<close>

text \<open>The parts of a \<open>sockaddr_in\<close> as they lie in memory: the port and the address in network order.\<close>

type_synonym in_addr = "byte \<times> byte \<times> byte \<times> byte"

record sockaddr_in =
  sin_family :: u16
  sin_port :: "byte \<times> byte"
  sin_addr :: in_addr

definition AF_INET :: u16 where "AF_INET = 2"
definition INADDR_ANY :: u32 where "INADDR_ANY = 0"
definition INADDR_LOOPBACK :: u32 where "INADDR_LOOPBACK = 0x7F000001"

definition htons :: "u16 \<Rightarrow> byte \<times> byte" where
  "htons w = (ucast (drop_bit 8 w), ucast w)"

definition ntohs :: "byte \<times> byte \<Rightarrow> u16" where
  "ntohs p = push_bit 8 (ucast (fst p)) OR ucast (snd p)"

definition htonl :: "u32 \<Rightarrow> in_addr" where
  "htonl w = (ucast (drop_bit 24 w), ucast (drop_bit 16 w), ucast (drop_bit 8 w), ucast w)"

text \<open>\<open>inet_ntop(AF_INET, ...)\<close>: dotted decimal.\<close>

definition inet_ntop :: "in_addr \<Rightarrow> bytes" where
  "inet_ntop x = (case x of (a, b, c, d) \<Rightarrow>
     dec_digits (unat a) @ [0x2E] @ dec_digits (unat b) @ [0x2E] @ dec_digits (unat c) @ [0x2E] @ dec_digits (unat d))"

text \<open>\<open>inet_pton\<close> is a parameter; this is what it owes \<open>inet_ntop\<close>.\<close>

definition pton_ok :: "(bytes \<Rightarrow> in_addr option) \<Rightarrow> bool" where
  "pton_ok inet_pton \<longleftrightarrow> (\<forall>x. inet_pton (inet_ntop x) = Some x)"

definition newInetAddress :: "(bytes \<Rightarrow> in_addr option) \<Rightarrow> u16 \<Rightarrow> bytes \<Rightarrow> bool \<Rightarrow> sockaddr_in" where
  "newInetAddress inet_pton port ip loopbackOnly =
     \<lparr>sin_family = AF_INET, sin_port = htons port,
      sin_addr =
        (if loopbackOnly then htonl INADDR_LOOPBACK
         else if ip = [] \<or> ip = ascii ''INADDR_ANY'' then htonl INADDR_ANY
         else (case inet_pton ip of None \<Rightarrow> htonl INADDR_ANY | Some x \<Rightarrow> x))\<rparr>"

definition toIp :: "sockaddr_in \<Rightarrow> bytes" where
  "toIp x = inet_ntop (sin_addr x)"

definition toPort :: "sockaddr_in \<Rightarrow> u16" where
  "toPort x = ntohs (sin_port x)"

definition toIpPort :: "sockaddr_in \<Rightarrow> bytes" where
  "toIpPort x = inet_ntop (sin_addr x) @ [0x3A] @ dec_digits (unat (ntohs (sin_port x)))"

subsection \<open>Reading them back\<close>

lemma ntohs_htons: "ntohs (htons w) = w"
proof (rule bit_eqI)
  fix n assume "possible_bit TYPE(16 word) n"
  then show "bit (ntohs (htons w)) n \<longleftrightarrow> bit w n"
    by (auto simp: ntohs_def htons_def bit_simps possible_bit_word)
qed

lemma ntohs_inj: "ntohs p = ntohs q \<Longrightarrow> p = q"
proof -
  have "htons (ntohs p) = p" for p
  proof -
    have "ucast (drop_bit 8 (ntohs p)) = fst p"
      by (rule bit_eqI) (auto simp: ntohs_def bit_simps possible_bit_word dest: bit_imp_le_length)
    moreover have "ucast (ntohs p) = snd p"
      by (rule bit_eqI) (auto simp: ntohs_def bit_simps possible_bit_word)
    ultimately show ?thesis by (simp add: htons_def prod_eq_iff)
  qed
  then show "ntohs p = ntohs q \<Longrightarrow> p = q" by metis
qed

text \<open>A number in decimal ends where a character follows that is no digit.\<close>

lemma dec_digits_split:
  assumes "dec_digits m @ c # xs = dec_digits n @ c # ys" and "\<not> isDigit c"
  shows "m = n \<and> xs = ys"
proof -
  have t: "takeWhile isDigit (dec_digits k @ c # zs) = dec_digits k" "dropWhile isDigit (dec_digits k @ c # zs) = c # zs" for k zs
    using dec_digits_isDigit [of k] assms(2) by (simp_all add: takeWhile_append2 dropWhile_append2 list_all_iff)
  have "dec_digits m = dec_digits n" "c # xs = c # ys" using assms(1) t by metis+
  then show ?thesis using dec_value_digits by (metis list.inject)
qed

lemma dec_digits_inj: "dec_digits m = dec_digits n \<Longrightarrow> m = n"
  by (metis dec_value_digits)

lemma not_digits: "\<not> isDigit 0x2E" "\<not> isDigit 0x3A" "\<not> isDigit 0x23"
  by (simp_all add: isDigit_def)

lemma inet_ntop_split:
  assumes "inet_ntop x @ c # xs = inet_ntop y @ c # ys" and "\<not> isDigit c"
  shows "x = y \<and> xs = ys"
proof -
  obtain a b d e a' b' d' e' where x: "x = (a, b, d, e)" and y: "y = (a', b', d', e')" by (metis prod_cases4)
  from assms(1) have 1: "unat a = unat a'" "dec_digits (unat b) @ 0x2E # dec_digits (unat d) @ 0x2E # dec_digits (unat e) @ c # xs
      = dec_digits (unat b') @ 0x2E # dec_digits (unat d') @ 0x2E # dec_digits (unat e') @ c # ys"
    using dec_digits_split [OF _ not_digits(1), of "unat a" _ "unat a'"] by (auto simp: x y inet_ntop_def)
  from dec_digits_split [OF this(2) not_digits(1)] have 2: "unat b = unat b'"
    "dec_digits (unat d) @ 0x2E # dec_digits (unat e) @ c # xs = dec_digits (unat d') @ 0x2E # dec_digits (unat e') @ c # ys"
    by auto
  from dec_digits_split [OF this(2) not_digits(1)] have 3: "unat d = unat d'"
    "dec_digits (unat e) @ c # xs = dec_digits (unat e') @ c # ys" by auto
  from dec_digits_split [OF this(2) assms(2)] 1(1) 2(1) 3(1) show ?thesis by (simp add: x y word_unat_eq_iff)
qed

lemma toIpPort_split:
  assumes "toIpPort x @ c # xs = toIpPort y @ c # ys" and "\<not> isDigit c"
  shows "sin_addr x = sin_addr y \<and> sin_port x = sin_port y \<and> xs = ys"
proof -
  from assms(1) have "inet_ntop (sin_addr x) @ 0x3A # dec_digits (unat (ntohs (sin_port x))) @ c # xs
      = inet_ntop (sin_addr y) @ 0x3A # dec_digits (unat (ntohs (sin_port y))) @ c # ys" by (simp add: toIpPort_def)
  from inet_ntop_split [OF this not_digits(2)] have 1: "sin_addr x = sin_addr y"
    "dec_digits (unat (ntohs (sin_port x))) @ c # xs = dec_digits (unat (ntohs (sin_port y))) @ c # ys" by simp_all
  from dec_digits_split [OF this(2) assms(2)] have "unat (ntohs (sin_port x)) = unat (ntohs (sin_port y))" "xs = ys" by simp_all
  with 1(1) show ?thesis using ntohs_inj by (metis word_unat_eq_iff)
qed

text \<open>An address survives its text. The text of an address, given to the constructor with a port,
  yields that address and that port again, and \<open>toIpPort\<close> tells apart any two different address and
  port pairs; a text that is no address falls back to 0.0.0.0.\<close>

theorem inet_address_roundtrip:
  assumes "pton_ok inet_pton"
  shows "(\<forall>x port. let y = newInetAddress inet_pton port (toIp x) False in
      sin_addr y = sin_addr x \<and> toPort y = port
      \<and> toIpPort y = toIp x @ [0x3A] @ dec_digits (unat port))
    \<and> (\<forall>x y. sin_family x = sin_family y \<longrightarrow> toIpPort x = toIpPort y \<longrightarrow> x = y)
    \<and> (\<forall>ip port. inet_pton ip = None \<longrightarrow> sin_addr (newInetAddress inet_pton port ip False) = (0, 0, 0, 0))"
proof (intro conjI allI impI)
  fix x :: sockaddr_in and port
  have "isDigit (hd (toIp x))"
    using dec_digits_isDigit [of "unat (fst (sin_addr x))"] hd_in_set [OF dec_digits_nonempty]
    by (cases "sin_addr x") (simp add: toIp_def inet_ntop_def list_all_iff)
  then have "toIp x \<noteq> []" "toIp x \<noteq> ascii ''INADDR_ANY''"
    using dec_digits_nonempty by (cases "sin_addr x"; auto simp: toIp_def inet_ntop_def isDigit_def)+
  moreover have "inet_pton (inet_ntop (sin_addr x)) = Some (sin_addr x)" using assms unfolding pton_ok_def by blast
  ultimately show "let y = newInetAddress inet_pton port (toIp x) False in
      sin_addr y = sin_addr x \<and> toPort y = port \<and> toIpPort y = toIp x @ [0x3A] @ dec_digits (unat port)"
    by (simp add: newInetAddress_def toPort_def toIpPort_def toIp_def ntohs_htons Let_def)
next
  fix x y :: sockaddr_in
  assume "sin_family x = sin_family y" "toIpPort x = toIpPort y"
  with toIpPort_split [of x "0x23" "[]" y "[]"] not_digits(3) show "x = y" by simp
next
  fix ip port
  assume "inet_pton ip = None"
  then show "sin_addr (newInetAddress inet_pton port ip False) = (0, 0, 0, 0)"
    by (simp add: newInetAddress_def htonl_def INADDR_ANY_def)
qed

text \<open>A strict \<open>inet_pton\<close>: four numbers, accepted if they print as the text.\<close>

definition read_octet :: "bytes \<Rightarrow> byte \<times> bytes" where
  "read_octet s = (of_nat (dec_value (takeWhile isDigit s)), tl (dropWhile isDigit s))"

definition strict_pton :: "bytes \<Rightarrow> in_addr option" where
  "strict_pton ip =
     (case read_octet ip of (a, ip1) \<Rightarrow> case read_octet ip1 of (b, ip2) \<Rightarrow>
      case read_octet ip2 of (c, ip3) \<Rightarrow> case read_octet ip3 of (d, _) \<Rightarrow>
        if inet_ntop (a, b, c, d) = ip then Some (a, b, c, d) else None)"

lemma read_octet_digits: "\<not> isDigit c \<Longrightarrow> read_octet (dec_digits (unat a) @ c # xs) = (a, xs)"
    "read_octet (dec_digits (unat a)) = (a, [])"
  using dec_digits_isDigit [of "unat a"]
  by (simp_all add: read_octet_def takeWhile_append2 dropWhile_append2 list_all_iff dec_value_digits
    takeWhile_eq_all_conv [THEN iffD2] dropWhile_eq_Nil_conv [THEN iffD2])

lemma strict_pton_ok: "pton_ok strict_pton"
proof -
  have "strict_pton (inet_ntop (a, b, c, d)) = Some (a, b, c, d)" for a b c d
  proof -
    let ?s = "inet_ntop (a, b, c, d)"
    have "?s = dec_digits (unat a) @ 0x2E # dec_digits (unat b) @ 0x2E # dec_digits (unat c) @ 0x2E # dec_digits (unat d)"
      by (simp add: inet_ntop_def)
    then show ?thesis by (simp add: strict_pton_def read_octet_digits not_digits)
  qed
  then show ?thesis by (simp add: pton_ok_def)
qed

theorem inet_address_roundtrip_witness:
  "toPort (newInetAddress strict_pton 8080 (toIp (newInetAddress strict_pton 1 [] True)) False) = 8080"
  using inet_address_roundtrip [OF strict_pton_ok] by (simp add: Let_def)

end
