(* ===== verification/Socket.thy ===== *)
theory Socket
  imports Inet_Address "HOL-Library.Multiset"
begin

section \<open>Sockets\<close>

text \<open>
  \<open>include/Socket.h\<close> and \<open>src/Socket.cpp\<close>: the owner of a descriptor. The state holds the \<open>sockfd_\<close> of every
  socket object by its address, the descriptors that were handed to objects, and the system calls made
  so far; what a system call returns is an argument. \<^const>\<open>None\<close> is a call that aborts the process, or a use
  of an object that does not exist. \<open>accept\<close> is in the theory \<open>Tcp_Server\<close>. Log lines are left out.
\<close>

subsection \<open>State\<close>

datatype sockopt = SO_REUSEADDR | SO_REUSEPORT | TCP_NODELAY | SO_KEEPALIVE

datatype syscall =
    SysSocket
  | SysBind int sockaddr_in
  | SysListen int int
  | SysGetsockname int
  | SysRead int nat
  | SysWrite int bytes
  | SysReadv int "nat list"
  | SysSetsockopt int sockopt int
  | SysGetfl int
  | SysSetNonblock int
  | SysShutdown int
  | SysClose int

record sockets =
  so_objects :: "nat \<rightharpoonup> int"
  so_taken :: "int list"
  so_calls :: "syscall list"

definition noSockets :: sockets where
  "noSockets = \<lparr>so_objects = Map.empty, so_taken = [], so_calls = []\<rparr>"

definition sys :: "syscall \<Rightarrow> sockets \<Rightarrow> sockets" where
  "sys c s = s\<lparr>so_calls := so_calls s @ [c]\<rparr>"

subsection \<open>Ownership\<close>

definition adoptSocket :: "int \<Rightarrow> nat \<Rightarrow> sockets \<Rightarrow> sockets" where
  "adoptSocket sockfd a s = s\<lparr>so_objects := (so_objects s)(a \<mapsto> sockfd), so_taken := so_taken s @ [sockfd]\<rparr>"

definition newSocket :: "int \<Rightarrow> nat \<Rightarrow> sockets \<Rightarrow> sockets option" where
  "newSocket ret a s = (if ret < 0 then None else Some (adoptSocket ret a (sys SysSocket s)))"

definition socket_close :: "nat \<Rightarrow> sockets \<Rightarrow> sockets option" where
  "socket_close a s =
     (case so_objects s a of
        None \<Rightarrow> None
      | Some fd \<Rightarrow>
          if 0 \<le> fd then Some ((sys (SysClose fd) s)\<lparr>so_objects := (so_objects s)(a \<mapsto> - 1)\<rparr>) else Some s)"

definition destroySocket :: "nat \<Rightarrow> sockets \<Rightarrow> sockets option" where
  "destroySocket a s = map_option (\<lambda>s1. s1\<lparr>so_objects := (so_objects s1)(a := None)\<rparr>) (socket_close a s)"

definition moveSocket :: "nat \<Rightarrow> nat \<Rightarrow> sockets \<Rightarrow> sockets option" where
  "moveSocket a other s =
     (case so_objects s other of
        None \<Rightarrow> None
      | Some fd \<Rightarrow> Some (s\<lparr>so_objects := (so_objects s)(a \<mapsto> fd, other \<mapsto> - 1)\<rparr>))"

definition moveAssign :: "nat \<Rightarrow> nat \<Rightarrow> sockets \<Rightarrow> sockets option" where
  "moveAssign a other s = (if a \<noteq> other then Option.bind (socket_close a s) (moveSocket a other) else Some s)"

subsection \<open>System calls on the descriptor\<close>

definition on_socket :: "(int \<Rightarrow> syscall) \<Rightarrow> nat \<Rightarrow> sockets \<Rightarrow> sockets option" where
  "on_socket c a s = map_option (\<lambda>fd. sys (c fd) s) (so_objects s a)"

definition socket_bind :: "int \<Rightarrow> sockaddr_in \<Rightarrow> nat \<Rightarrow> sockets \<Rightarrow> sockets option" where
  "socket_bind ret addr a s =
     Option.bind (on_socket (\<lambda>fd. SysBind fd addr) a s) (\<lambda>s1. if ret < 0 then None else Some s1)"

definition socket_listen :: "int \<Rightarrow> int \<Rightarrow> nat \<Rightarrow> sockets \<Rightarrow> sockets option" where
  "socket_listen ret backlog a s =
     Option.bind (on_socket (\<lambda>fd. SysListen fd backlog) a s) (\<lambda>s1. if ret < 0 then None else Some s1)"

text \<open>The result, and what \<open>*addr\<close> holds afterwards.\<close>

definition getLocalAddr ::
  "errno + sockaddr_in \<Rightarrow> sockaddr_in \<Rightarrow> nat \<Rightarrow> sockets \<Rightarrow> (bool \<times> sockaddr_in \<times> sockets) option" where
  "getLocalAddr ret addr a s =
     map_option (\<lambda>s1. case ret of Inl e \<Rightarrow> (False, addr, s1) | Inr localAddr \<Rightarrow> (True, localAddr, s1))
       (on_socket SysGetsockname a s)"

definition socket_read :: "int \<Rightarrow> nat \<Rightarrow> nat \<Rightarrow> sockets \<Rightarrow> (int \<times> sockets) option" where
  "socket_read ret len a s = map_option (Pair ret) (on_socket (\<lambda>fd. SysRead fd len) a s)"

definition socket_write :: "int \<Rightarrow> bytes \<Rightarrow> nat \<Rightarrow> sockets \<Rightarrow> (int \<times> sockets) option" where
  "socket_write ret buf a s = map_option (Pair ret) (on_socket (\<lambda>fd. SysWrite fd buf) a s)"

definition socket_readv :: "int \<Rightarrow> nat list \<Rightarrow> nat \<Rightarrow> sockets \<Rightarrow> (int \<times> sockets) option" where
  "socket_readv ret lens a s = map_option (Pair ret) (on_socket (\<lambda>fd. SysReadv fd lens) a s)"

text \<open>\<open>setReuseAddr\<close>, \<open>setReusePort\<close>, \<open>setTcpNoDelay\<close> and \<open>setKeepAlive\<close>; a failure is only logged.\<close>

definition socket_setopt :: "sockopt \<Rightarrow> bool \<Rightarrow> nat \<Rightarrow> sockets \<Rightarrow> sockets option" where
  "socket_setopt opt on a s = on_socket (\<lambda>fd. SysSetsockopt fd opt (if on then 1 else 0)) a s"

definition setNonBlocking :: "int \<Rightarrow> nat \<Rightarrow> sockets \<Rightarrow> sockets option" where
  "setNonBlocking flags a s =
     Option.bind (on_socket SysGetfl a s) (\<lambda>s1. if flags < 0 then Some s1 else on_socket SysSetNonblock a s1)"

definition shutdownWrite :: "nat \<Rightarrow> sockets \<Rightarrow> sockets option" where
  "shutdownWrite a s = on_socket SysShutdown a s"

subsection \<open>Runs\<close>

text \<open>Objects are constructed where there is none. A descriptor given to the constructor is one that no
  object has: it comes from the system, which does not hand out a descriptor that is still open.\<close>

inductive socket_step :: "sockets \<Rightarrow> sockets \<Rightarrow> bool" where
  Adopt: "so_objects s a = None \<Longrightarrow> fd < 0 \<or> fd \<notin> ran (so_objects s) \<Longrightarrow> socket_step s (adoptSocket fd a s)"
| New: "so_objects s a = None \<Longrightarrow> fd \<notin> ran (so_objects s) \<Longrightarrow> newSocket fd a s = Some s' \<Longrightarrow> socket_step s s'"
| Move: "so_objects s a = None \<Longrightarrow> moveSocket a b s = Some s' \<Longrightarrow> socket_step s s'"
| Assign: "moveAssign a b s = Some s' \<Longrightarrow> socket_step s s'"
| Close: "socket_close a s = Some s' \<Longrightarrow> socket_step s s'"
| Destruct: "destroySocket a s = Some s' \<Longrightarrow> socket_step s s'"
| Bind: "socket_bind ret addr a s = Some s' \<Longrightarrow> socket_step s s'"
| Listen: "socket_listen ret backlog a s = Some s' \<Longrightarrow> socket_step s s'"
| LocalAddr: "getLocalAddr r addr a s = Some (ok, addr', s') \<Longrightarrow> socket_step s s'"
| Read: "socket_read ret len a s = Some (n, s') \<Longrightarrow> socket_step s s'"
| Write: "socket_write ret buf a s = Some (n, s') \<Longrightarrow> socket_step s s'"
| Readv: "socket_readv ret lens a s = Some (n, s') \<Longrightarrow> socket_step s s'"
| Setopt: "socket_setopt opt on a s = Some s' \<Longrightarrow> socket_step s s'"
| NonBlocking: "setNonBlocking flags a s = Some s' \<Longrightarrow> socket_step s s'"
| Shutdown: "shutdownWrite a s = Some s' \<Longrightarrow> socket_step s s'"

abbreviation socket_steps :: "sockets \<Rightarrow> sockets \<Rightarrow> bool" where
  "socket_steps \<equiv> rtranclp socket_step"

fun call_closes :: "syscall \<Rightarrow> int list" where
  "call_closes (SysClose fd) = [fd]"
| "call_closes _ = []"

definition closed_by :: "sockets \<Rightarrow> int list" where
  "closed_by s = concat (map call_closes (so_calls s))"

definition owned :: "sockets \<Rightarrow> int set" where
  "owned s = {fd. 0 \<le> fd \<and> fd \<in> ran (so_objects s)}"

definition sockets_inv :: "sockets \<Rightarrow> bool" where
  "sockets_inv s \<longleftrightarrow> finite (dom (so_objects s))
     \<and> (\<forall>a b fd. so_objects s a = Some fd \<and> so_objects s b = Some fd \<and> 0 \<le> fd \<longrightarrow> a = b)
     \<and> mset (filter (\<lambda>fd. 0 \<le> fd) (so_taken s)) = mset (closed_by s) + mset_set (owned s)"

lemma sockets_invD:
  assumes "sockets_inv s"
  shows "finite (dom (so_objects s))" and "so_objects s a = Some fd \<Longrightarrow> so_objects s b = Some fd \<Longrightarrow> 0 \<le> fd \<Longrightarrow> a = b"
    and "mset (filter (\<lambda>fd. 0 \<le> fd) (so_taken s)) = mset (closed_by s) + mset_set (owned s)"
  using assms unfolding sockets_inv_def by blast+

lemma sockets_invI:
  assumes "finite (dom (so_objects s))"
    and "\<And>a b fd. so_objects s a = Some fd \<Longrightarrow> so_objects s b = Some fd \<Longrightarrow> 0 \<le> fd \<Longrightarrow> a = b"
    and "mset (filter (\<lambda>fd. 0 \<le> fd) (so_taken s)) = mset (closed_by s) + mset_set (owned s)"
  shows "sockets_inv s"
  using assms unfolding sockets_inv_def by blast

lemma closed_by_sys [simp]: "closed_by (sys c s) = closed_by s @ call_closes c"
  by (simp add: closed_by_def sys_def)

lemma closed_by_objects [simp]: "closed_by (s\<lparr>so_objects := m\<rparr>) = closed_by s" "closed_by (s\<lparr>so_taken := ts\<rparr>) = closed_by s"
  by (simp_all add: closed_by_def)

lemma sys_simps [simp]: "so_objects (sys c s) = so_objects s" "so_taken (sys c s) = so_taken s"
  by (simp_all add: sys_def)

lemma finite_owned: "finite (dom (so_objects s)) \<Longrightarrow> finite (owned s)"
  by (auto simp: owned_def dest: finite_ran)

lemma sockets_inv_sys: "sockets_inv s \<Longrightarrow> call_closes c = [] \<Longrightarrow> sockets_inv (sys c s)"
  by (simp add: sockets_inv_def owned_def)

lemma on_socket_inv: "on_socket c a s = Some s' \<Longrightarrow> (\<And>fd. call_closes (c fd) = []) \<Longrightarrow> sockets_inv s \<Longrightarrow> sockets_inv s'"
  by (auto simp: on_socket_def sockets_inv_sys)

lemma adopt_inv:
  assumes "sockets_inv s" and "so_objects s a = None" and "fd < 0 \<or> fd \<notin> ran (so_objects s)"
  shows "sockets_inv (adoptSocket fd a s)"
proof -
  have o: "owned (adoptSocket fd a s) = (if 0 \<le> fd then insert fd (owned s) else owned s)"
    using assms(2) by (auto simp: owned_def adoptSocket_def)
  have "fd \<notin> owned s" if "0 \<le> fd" using assms(3) that by (auto simp: owned_def)
  moreover have "finite (owned s)" using assms(1) by (auto simp: sockets_inv_def intro: finite_owned)
  moreover have "closed_by (adoptSocket fd a s) = closed_by s" by (simp add: adoptSocket_def closed_by_def)
  ultimately show ?thesis
    using assms unfolding sockets_inv_def o by (auto simp: adoptSocket_def ranI split: if_splits)
qed

lemma close_inv:
  assumes "sockets_inv s" and "socket_close a s = Some s'"
  shows "sockets_inv s'" and "\<exists>fd < 0. so_objects s' a = Some fd" and "dom (so_objects s') = dom (so_objects s)"
    and "b \<noteq> a \<Longrightarrow> so_objects s' b = so_objects s b"
proof -
  from assms(2) obtain fd where fd: "so_objects s a = Some fd"
    and s': "s' = (if 0 \<le> fd then (sys (SysClose fd) s)\<lparr>so_objects := (so_objects s)(a \<mapsto> - 1)\<rparr> else s)"
    by (cases "so_objects s a") (auto simp: socket_close_def split: if_splits)
  show "\<exists>fd < 0. so_objects s' a = Some fd" "dom (so_objects s') = dom (so_objects s)"
    "b \<noteq> a \<Longrightarrow> so_objects s' b = so_objects s b" using fd by (auto simp: s' intro: exI [of _ "- 1"])
  show "sockets_inv s'"
  proof (cases "0 \<le> fd")
    case True
    have one: "so_objects s b = Some fd \<Longrightarrow> b = a" for b using sockets_invD(2) [OF assms(1) _ fd True] .
    have at: "so_objects s' y = Some x \<longleftrightarrow> so_objects s y = Some x \<and> y \<noteq> a" if "0 \<le> x" for x y
      using True that by (auto simp: s')
    have o: "owned s' = owned s - {fd}"
    proof (rule set_eqI)
      fix x
      show "x \<in> owned s' \<longleftrightarrow> x \<in> owned s - {fd}"
      proof (cases "0 \<le> x")
        case True
        have "(\<exists>y. so_objects s' y = Some x) \<longleftrightarrow> (\<exists>y. so_objects s y = Some x) \<and> x \<noteq> fd"
          unfolding at [OF True] using one fd by (metis option.inject)
        with True show ?thesis by (simp add: owned_def ran_def)
      qed (simp add: owned_def)
    qed
    have "fd \<in> owned s" using fd True by (auto simp: owned_def ranI)
    moreover have "finite (owned s)" using sockets_invD(1) [OF assms(1)] by (rule finite_owned)
    ultimately have "mset_set (owned s) = add_mset fd (mset_set (owned s'))" by (simp add: o mset_set.remove)
    then have "mset (filter (\<lambda>fd. 0 \<le> fd) (so_taken s')) = mset (closed_by s') + mset_set (owned s')"
      using sockets_invD(3) [OF assms(1)] True by (simp add: s')
    moreover have "x = y" if "so_objects s' x = Some z" "so_objects s' y = Some z" "0 \<le> z" for x y z
      using that True by (auto simp: s' split: if_splits intro: sockets_invD(2) [OF assms(1)])
    moreover have "finite (dom (so_objects s'))" using sockets_invD(1) [OF assms(1)] True by (simp add: s')
    ultimately show ?thesis by (intro sockets_invI)
  qed (simp add: s' assms(1))
qed

lemma move_inv:
  assumes "sockets_inv s" and "so_objects s a = None \<or> (\<exists>fd < 0. so_objects s a = Some fd)" and "a \<noteq> b"
    and "moveSocket a b s = Some s'"
  shows "sockets_inv s'"
proof -
  from assms(4) obtain fd where fd: "so_objects s b = Some fd"
    and s': "s' = s\<lparr>so_objects := (so_objects s)(a \<mapsto> fd, b \<mapsto> - 1)\<rparr>"
    by (auto simp: moveSocket_def split: option.splits)
  have was: "so_objects s (if y = a then b else y) = Some x \<and> y \<noteq> b" if "so_objects s' y = Some x" "0 \<le> x" for x y
    using that assms(3) fd by (cases "y = b"; cases "y = a") (simp_all add: s')
  have becomes: "so_objects s' (if y = b then a else y) = Some x" if "so_objects s y = Some x" "0 \<le> x" for x y
    using that assms(2,3) fd by (cases "y = b"; cases "y = a") (auto simp: s')
  have o: "owned s' = owned s"
    unfolding owned_def ran_def using was becomes by blast
  have one: "x = y" if "so_objects s' x = Some z" "so_objects s' y = Some z" "0 \<le> z" for x y z
    using sockets_invD(2) [OF assms(1) conjunct1 [OF was] conjunct1 [OF was], of x z y] was [of x z] was [of y z] that
    by (simp split: if_splits)
  have "finite (dom (so_objects s'))" "mset (filter (\<lambda>fd. 0 \<le> fd) (so_taken s')) = mset (closed_by s') + mset_set (owned s')"
    using sockets_invD(1,3) [OF assms(1)] unfolding o by (simp_all add: s')
  then show ?thesis using one by (intro sockets_invI) 
qed

lemma socket_step_inv: "socket_step s s' \<Longrightarrow> sockets_inv s \<Longrightarrow> sockets_inv s'"
proof (induction rule: socket_step.induct)
  case (New s a fd s')
  then show ?case by (auto simp: newSocket_def sockets_inv_sys intro!: adopt_inv split: if_splits)
next
  case (Move s a b s')
  moreover have "a \<noteq> b" using Move by (auto simp: moveSocket_def)
  ultimately show ?case using move_inv by blast
next
  case (Assign a b s s')
  then obtain s1 where "a \<noteq> b \<Longrightarrow> socket_close a s = Some s1 \<and> moveSocket a b s1 = Some s'"
    by (auto simp: moveAssign_def split: bind_splits if_splits)
  with Assign close_inv(1,2) [of s a s1] move_inv [of s1 a b s'] show ?case by (cases "a = b") (auto simp: moveAssign_def)
next
  case (Destruct a s s')
  then obtain s1 where s1: "socket_close a s = Some s1" "s' = s1\<lparr>so_objects := (so_objects s1)(a := None)\<rparr>"
    by (auto simp: destroySocket_def)
  note c = close_inv [OF Destruct(2) s1(1)]
  have "(\<exists>y. so_objects s' y = Some x) \<longleftrightarrow> (\<exists>y. so_objects s1 y = Some x)" if "0 \<le> x" for x
    using c(2) that by (auto simp: s1(2)) force
  then have "owned s' = owned s1" by (auto simp: owned_def ran_def)
  with c(1) show ?case by (auto simp: sockets_inv_def s1(2))
next
  case (LocalAddr r addr a s ok addr' s')
  then have "on_socket SysGetsockname a s = Some s'" by (cases r) (auto simp: getLocalAddr_def)
  with LocalAddr(2) show ?case by (auto elim: on_socket_inv)
next
  case (NonBlocking flags a s s')
  then obtain s1 where "on_socket SysGetfl a s = Some s1" "s' = s1 \<or> on_socket SysSetNonblock a s1 = Some s'"
    by (auto simp: setNonBlocking_def split: bind_splits if_splits)
  with NonBlocking(2) show ?case using on_socket_inv [of SysGetfl a s s1] on_socket_inv [of SysSetNonblock a s1 s'] by auto
qed (auto simp: socket_bind_def socket_listen_def socket_read_def socket_write_def socket_readv_def
    socket_setopt_def shutdownWrite_def adopt_inv split: bind_splits if_splits
    elim: on_socket_inv intro: close_inv(1))

lemma socket_steps_inv: "socket_steps noSockets s \<Longrightarrow> sockets_inv s"
proof (induction rule: rtranclp_induct)
  case base
  show ?case by (rule sockets_invI) (simp_all add: noSockets_def closed_by_def owned_def)
qed (rule socket_step_inv)

subsection \<open>Property\<close>

text \<open>C18: sockets own their descriptors. Whatever is done with socket objects (constructed, moved, assigned,
  closed, used and destroyed in any order), no two objects hold the same descriptor; every descriptor
  ever taken over has been closed as often as it was taken over, except that one is still open for each
  object that holds one; so none is closed twice and none is lost, and once all objects are gone all
  descriptors have been closed.\<close>

theorem socket_owns_descriptor:
  assumes "socket_steps noSockets s"
  shows "(\<forall>a b fd. so_objects s a = Some fd \<and> so_objects s b = Some fd \<and> 0 \<le> fd \<longrightarrow> a = b)
    \<and> mset (filter (\<lambda>fd. 0 \<le> fd) (so_taken s)) = mset (closed_by s) + mset_set (owned s)
    \<and> (so_objects s = Map.empty \<longrightarrow> mset (filter (\<lambda>fd. 0 \<le> fd) (so_taken s)) = mset (closed_by s))"
proof -
  note i = sockets_invD [OF socket_steps_inv [OF assms]]
  have "owned s = {}" if "so_objects s = Map.empty" using that by (simp add: owned_def)
  then show ?thesis using i(2,3) by auto
qed

definition moved_sockets :: sockets where
  "moved_sockets = the (Option.bind (moveAssign 2 1 (adoptSocket 8 2 (adoptSocket 7 1 noSockets))) (destroySocket 1))"

lemma moved_sockets:
  "socket_steps noSockets moved_sockets" "so_taken moved_sockets = [7, 8]" "closed_by moved_sockets = [8]"
  "so_objects moved_sockets = [2 \<mapsto> 7]"
proof -
  let ?s = "adoptSocket 8 2 (adoptSocket 7 1 noSockets)"
  let ?s1 = "(sys (SysClose 8) ?s)\<lparr>so_objects := (so_objects ?s)(2 \<mapsto> - 1, 2 \<mapsto> 7, 1 \<mapsto> - 1)\<rparr>"
  have a: "moveAssign 2 1 ?s = Some ?s1"
    by (simp add: moveAssign_def socket_close_def moveSocket_def adoptSocket_def noSockets_def)
  have d: "destroySocket 1 ?s1 = Some (?s1\<lparr>so_objects := (so_objects ?s1)(1 := None)\<rparr>)"
    by (simp add: destroySocket_def socket_close_def)
  have m: "moved_sockets = ?s1\<lparr>so_objects := (so_objects ?s1)(1 := None)\<rparr>"
    unfolding moved_sockets_def a using d by (simp only: bind.bind_lunit option.sel)
  have 1: "socket_step noSockets (adoptSocket 7 1 noSockets)" by (rule Adopt) (simp_all add: noSockets_def)
  have 2: "socket_step (adoptSocket 7 1 noSockets) ?s"
    by (rule Adopt) (simp_all add: noSockets_def adoptSocket_def)
  show "socket_steps noSockets moved_sockets"
    unfolding m
    by (rule converse_rtranclp_into_rtranclp [where r = socket_step, OF 1],
        rule converse_rtranclp_into_rtranclp [where r = socket_step, OF 2],
        rule converse_rtranclp_into_rtranclp [where r = socket_step, OF Assign [OF a]],
        rule r_into_rtranclp [where r = socket_step, OF Destruct [OF d]])
  show "so_taken moved_sockets = [7, 8]" "closed_by moved_sockets = [8]"
    by (simp_all add: m adoptSocket_def noSockets_def closed_by_def sys_def)
  show "so_objects moved_sockets = [2 \<mapsto> 7]"
    by (rule ext) (simp add: m adoptSocket_def noSockets_def)
qed

theorem socket_owns_descriptor_witness:
  "mset [7, 8] = mset (closed_by moved_sockets) + mset_set (owned moved_sockets)"
  using socket_owns_descriptor [OF moved_sockets(1)] by (simp add: moved_sockets)

end
