(* ===== verification/Transport.thy ===== *)
theory Transport
  imports Prelude
begin

section \<open>The transport interface\<close>

text \<open>
  \<open>include/Transport.h\<close>: the abstract class the RPC layer talks to, restricted to the calls that
  layer makes from the loop thread. A class with virtual functions is a record of functions on
  its state type; the locale states what an implementation promises. \<open>outbox\<close> is everything the
  transport has accepted for the peer, on the wire or still queued, in order; \<open>alive\<close> says that
  the network does not report the peer as gone.
\<close>

record 'c transport_ops =
  t_connected :: "'c \<Rightarrow> bool"
  t_send :: "bytes \<Rightarrow> 'c \<Rightarrow> 'c"
  t_shutdown :: "'c \<Rightarrow> 'c"
  t_forceClose :: "'c \<Rightarrow> 'c"

locale transport =
  fixes alive :: bool
    and T :: "'c transport_ops"
    and invar :: "'c \<Rightarrow> bool"
    and outbox :: "'c \<Rightarrow> bytes"
  assumes send_invar: "invar c \<Longrightarrow> invar (t_send T m c)"
    and shutdown_invar: "invar c \<Longrightarrow> invar (t_shutdown T c)"
    and forceClose_invar: "invar c \<Longrightarrow> invar (t_forceClose T c)"
    and send_connected: "invar c \<Longrightarrow> t_connected T (t_send T m c) = t_connected T c"
    and send_outbox: "alive \<Longrightarrow> invar c \<Longrightarrow> t_connected T c \<Longrightarrow> outbox (t_send T m c) = outbox c @ m"
    and send_refused: "invar c \<Longrightarrow> \<not> t_connected T c \<Longrightarrow> t_send T m c = c"
    and shutdown_closes: "invar c \<Longrightarrow> \<not> t_connected T (t_shutdown T c)"
    and shutdown_outbox: "invar c \<Longrightarrow> outbox (t_shutdown T c) = outbox c"
    and forceClose_closes: "invar c \<Longrightarrow> \<not> t_connected T (t_forceClose T c)"
    and forceClose_outbox: "invar c \<Longrightarrow> outbox (t_forceClose T c) = outbox c"
begin

text \<open>Messages sent one after the other reach the peer's stream in that order, and nothing is sent
  once the transport is closing.\<close>

lemma send_all:
  "alive \<Longrightarrow> invar c \<Longrightarrow> t_connected T c \<Longrightarrow>
     outbox (fold (t_send T) ms c) = outbox c @ concat ms \<and> invar (fold (t_send T) ms c)"
  by (induction ms arbitrary: c) (simp_all add: send_outbox send_invar send_connected)

lemma send_after_close:
  "invar c \<Longrightarrow> t_send T m (t_shutdown T c) = t_shutdown T c"
  "invar c \<Longrightarrow> t_send T m (t_forceClose T c) = t_forceClose T c"
  by (simp_all add: send_refused shutdown_invar shutdown_closes forceClose_invar forceClose_closes)

end

end
