(* ===== verification/Byte_Stream.thy ===== *)
theory Byte_Stream
  imports Prelude
begin

section \<open>The contract of a component that carries a byte stream\<close>

text \<open>
  Several components hold bytes on their way through the library: a \<open>Buffer\<close> between the
  kernel and a parser, a \<open>TcpConnection\<close> between \<open>send\<close> and the kernel. Their contract is
  the same. An operation takes some bytes in at the end, lets some bytes out at the front,
  and keeps the rest in order. The locale states it for one operation; the lemma proved in
  it lifts it to every sequence of operations. The components interpret it.
\<close>

text \<open>Run a sequence of operations, collecting the bytes that went in and came out.\<close>

fun stream_run :: "('op \<Rightarrow> 'b \<Rightarrow> bytes \<times> bytes \<times> 'b) \<Rightarrow> 'op list \<Rightarrow> 'b \<Rightarrow> bytes \<times> bytes \<times> 'b"
  where
  "stream_run step [] b = ([], [], b)"
| "stream_run step (a # as) b =
     (let (i, out, b') = step a b; (is, outs, b'') = stream_run step as b'
      in (i @ is, out @ outs, b''))"

locale byte_stream =
  fixes cont :: "'b \<Rightarrow> bytes"
    and invar :: "'b \<Rightarrow> bool"
    and ok :: "'op \<Rightarrow> bool"
    and step :: "'op \<Rightarrow> 'b \<Rightarrow> bytes \<times> bytes \<times> 'b"
  assumes step_invar: "invar b \<Longrightarrow> ok a \<Longrightarrow> step a b = (i, out, b') \<Longrightarrow> invar b'"
    and step_stream: "invar b \<Longrightarrow> ok a \<Longrightarrow> step a b = (i, out, b') \<Longrightarrow> cont b @ i = out @ cont b'"
begin

lemma run_stream:
  assumes "invar b" and "\<And>a. a \<in> set as \<Longrightarrow> ok a"
    and "stream_run step as b = (is, outs, b')"
  shows "invar b' \<and> cont b @ is = outs @ cont b'"
  using assms
proof (induction as arbitrary: b "is" outs b')
  case Nil
  then show ?case by simp
next
  case (Cons a as)
  obtain i out b1 where s: "step a b = (i, out, b1)" by (cases "step a b")
  obtain is' outs' where r: "stream_run step as b1 = (is', outs', b')"
    and eqs: "is = i @ is'" "outs = out @ outs'"
    using Cons.prems(3) s by (auto split: prod.splits)
  have "invar b1" and *: "cont b @ i = out @ cont b1"
    using s Cons.prems by (auto intro: step_invar step_stream)
  with Cons.IH [OF _ _ r] Cons.prems(2) have "invar b'" and "cont b1 @ is' = outs' @ cont b'"
    by auto
  with * eqs show ?case by (metis append_assoc)
qed

end

end
