(* ===== verification/Buffer.thy ===== *)
theory Buffer
  imports Byte_Stream
begin

section \<open>The TCP stream buffer\<close>

text \<open>
  \<open>include/Buffer.h\<close> and \<open>src/Buffer.cpp\<close>: one byte array with a read and a write
  index, laid out as prependable, readable and writable area.

  The kernel is a parameter. \<open>readv\<close> is a function from the number of bytes the two
  \<open>iovec\<close>s offer to an \<open>errno\<close> or the bytes delivered, \<open>write\<close> one from the bytes
  offered to an \<open>errno\<close> or the number accepted; \<open>readv_ok\<close> and \<open>write_ok\<close> state
  what POSIX promises of them. The \<open>fd\<close> and the \<open>Socket\<close> variants share
  \<open>readCore\<close> and \<open>writeCore\<close>, so one definition models both.

  The buffer interprets the locale \<open>byte_stream\<close>: whatever its layout, it is a queue of
  bytes.
\<close>

subsection \<open>State and operations\<close>

record buffer =
  b_data :: bytes
  b_readIndex :: nat
  b_writeIndex :: nat

definition kCheapPrepend :: nat where
  "kCheapPrepend = 8"

definition kInitialSize :: nat where
  "kInitialSize = 1024"

definition newBuffer :: "nat \<Rightarrow> buffer" where
  "newBuffer initialSize =
     \<lparr>b_data = replicate (kCheapPrepend + initialSize) 0,
      b_readIndex = kCheapPrepend, b_writeIndex = kCheapPrepend\<rparr>"

definition readableBytes :: "buffer \<Rightarrow> nat" where
  "readableBytes b = b_writeIndex b - b_readIndex b"

definition writableBytes :: "buffer \<Rightarrow> nat" where
  "writableBytes b = length (b_data b) - b_writeIndex b"

definition prependableBytes :: "buffer \<Rightarrow> nat" where
  "prependableBytes b = b_readIndex b"

text \<open>The array from the read index on: what the pointer \<open>peek()\<close> gives access to.\<close>

definition peek :: "buffer \<Rightarrow> bytes" where
  "peek b = drop (b_readIndex b) (b_data b)"

definition retrieveAll :: "buffer \<Rightarrow> buffer" where
  "retrieveAll b = b\<lparr>b_readIndex := kCheapPrepend, b_writeIndex := kCheapPrepend\<rparr>"

definition retrieve :: "nat \<Rightarrow> buffer \<Rightarrow> buffer" where
  "retrieve len b =
     (if len < readableBytes b then b\<lparr>b_readIndex := b_readIndex b + len\<rparr>
      else retrieveAll b)"

definition retrieveAsString :: "nat \<Rightarrow> buffer \<Rightarrow> bytes \<times> buffer" where
  "retrieveAsString len b =
     (let actualLen = min len (readableBytes b);
          result = take actualLen (peek b)
      in (result, retrieve actualLen b))"

definition retrieveAllAsString :: "buffer \<Rightarrow> bytes \<times> buffer" where
  "retrieveAllAsString b = retrieveAsString (readableBytes b) b"

definition makeSpace :: "nat \<Rightarrow> buffer \<Rightarrow> buffer" where
  "makeSpace len b =
     (if writableBytes b + prependableBytes b < len + kCheapPrepend
      then b\<lparr>b_data := resize (b_writeIndex b + len) (b_data b)\<rparr>
      else (let readable = readableBytes b in
        b\<lparr>b_data := copy_to kCheapPrepend (take readable (peek b)) (b_data b),
          b_readIndex := kCheapPrepend,
          b_writeIndex := kCheapPrepend + readable\<rparr>))"

definition ensureWritableBytes :: "nat \<Rightarrow> buffer \<Rightarrow> buffer" where
  "ensureWritableBytes len b = (if writableBytes b < len then makeSpace len b else b)"

definition buf_append :: "bytes \<Rightarrow> buffer \<Rightarrow> buffer" where
  "buf_append data b =
     (let b' = ensureWritableBytes (length data) b
      in b'\<lparr>b_data := copy_to (b_writeIndex b') data (b_data b'),
            b_writeIndex := b_writeIndex b' + length data\<rparr>)"

definition findCRLF :: "buffer \<Rightarrow> nat option" where
  "findCRLF b = std_search [13, 10] (take (readableBytes b) (peek b))"

subsection \<open>Reading and writing through the kernel\<close>

type_synonym readv_call = "nat \<Rightarrow> errno + bytes"
type_synonym write_call = "bytes \<Rightarrow> errno + nat"

definition readv_ok :: "readv_call \<Rightarrow> bool" where
  "readv_ok rd \<longleftrightarrow> (\<forall>cap xs. rd cap = Inr xs \<longrightarrow> length xs \<le> cap)"

definition write_ok :: "write_call \<Rightarrow> bool" where
  "write_ok wr \<longleftrightarrow> (\<forall>xs n. wr xs = Inr n \<longrightarrow> n \<le> length xs)"

definition extrabufSize :: nat where
  "extrabufSize = 65536"

text \<open>The return value, the errno stored through \<open>savedErrno\<close> if there is one, and the
  buffer. The kernel fills the writable area first and \<open>extrabuf\<close> with the rest.\<close>

definition readCore :: "readv_call \<Rightarrow> buffer \<Rightarrow> int \<times> errno option \<times> buffer" where
  "readCore rd b =
     (let writable = writableBytes b;
          capacity = (if writable < extrabufSize then writable + extrabufSize else writable)
      in case rd capacity of
        Inl e \<Rightarrow> (- 1, Some e, b)
      | Inr xs \<Rightarrow>
          (let n = length xs;
               b' = b\<lparr>b_data := copy_to (b_writeIndex b) (take writable xs) (b_data b)\<rparr>
           in if n \<le> writable
              then (int n, None, b'\<lparr>b_writeIndex := b_writeIndex b + n\<rparr>)
              else (int n, None,
                    buf_append (drop writable xs) (b'\<lparr>b_writeIndex := length (b_data b)\<rparr>))))"

definition writeCore :: "write_call \<Rightarrow> buffer \<Rightarrow> int \<times> errno option \<times> buffer" where
  "writeCore wr b =
     (case wr (take (readableBytes b) (peek b)) of
        Inl e \<Rightarrow> (- 1, Some e, b)
      | Inr n \<Rightarrow> (int n, None, retrieve n b))"

subsection \<open>Invariant and abstraction\<close>

definition buffer_inv :: "buffer \<Rightarrow> bool" where
  "buffer_inv b \<longleftrightarrow> kCheapPrepend \<le> b_readIndex b \<and> b_readIndex b \<le> b_writeIndex b
     \<and> b_writeIndex b \<le> length (b_data b)"

definition contents :: "buffer \<Rightarrow> bytes" where
  "contents b = take (readableBytes b) (peek b)"

lemmas buffer_layout =
  readableBytes_def writableBytes_def prependableBytes_def peek_def contents_def buffer_inv_def

text \<open>For evaluating the operations on a concrete buffer.\<close>

lemmas buffer_defs =
  buffer_layout newBuffer_def kCheapPrepend_def retrieveAll_def retrieve_def retrieveAsString_def
  retrieveAllAsString_def makeSpace_def ensureWritableBytes_def buf_append_def findCRLF_def
  readCore_def writeCore_def extrabufSize_def copy_to_def resize_def Let_def

subsection \<open>Every operation keeps the invariant and acts on the contents\<close>

named_theorems buffer_simps \<open>what the buffer operations do to invariant and contents\<close>

lemma length_contents [buffer_simps]: "buffer_inv b \<Longrightarrow> length (contents b) = readableBytes b"
  by (auto simp: buffer_layout min_def)

lemma take_peek [buffer_simps]: "n \<le> readableBytes b \<Longrightarrow> take n (peek b) = take n (contents b)"
  by (simp add: buffer_layout min_def)

lemma newBuffer_ok [buffer_simps]: "buffer_inv (newBuffer n)" "contents (newBuffer n) = []"
  by (simp_all add: newBuffer_def buffer_layout)

lemma retrieveAll_ok [buffer_simps]:
  "buffer_inv b \<Longrightarrow> buffer_inv (retrieveAll b)" "contents (retrieveAll b) = []"
  by (auto simp: retrieveAll_def buffer_layout)

lemma retrieve_inv [buffer_simps]: "buffer_inv b \<Longrightarrow> buffer_inv (retrieve n b)"
  by (auto simp: retrieve_def retrieveAll_def buffer_layout)

lemma retrieve_contents [buffer_simps]:
  "buffer_inv b \<Longrightarrow> contents (retrieve n b) = drop n (contents b)"
  by (auto simp: retrieve_def retrieveAll_def buffer_layout drop_take add.commute)

lemma retrieveAsString_ok [buffer_simps]:
  assumes "buffer_inv b"
  shows "fst (retrieveAsString n b) = take n (contents b)"
    and "contents (snd (retrieveAsString n b)) = drop n (contents b)"
    and "buffer_inv (snd (retrieveAsString n b))"
  using assms
  by (auto simp: retrieveAsString_def Let_def buffer_simps min_def)

lemma retrieveAllAsString_ok [buffer_simps]:
  assumes "buffer_inv b"
  shows "fst (retrieveAllAsString b) = contents b"
    and "contents (snd (retrieveAllAsString b)) = []"
    and "buffer_inv (snd (retrieveAllAsString b))"
  using assms by (simp_all add: retrieveAllAsString_def buffer_simps)

lemma makeSpace_grow:
  assumes "buffer_inv b" and "writableBytes b < len"
    and "writableBytes b + prependableBytes b < len + kCheapPrepend"
  shows "buffer_inv (makeSpace len b) \<and> contents (makeSpace len b) = contents b
    \<and> writableBytes (makeSpace len b) = len"
  using assms
  by (simp add: makeSpace_def buffer_layout range_simps drop_take [symmetric] flip: take_drop)

lemma makeSpace_slide:
  assumes "buffer_inv b"
    and "\<not> writableBytes b + prependableBytes b < len + kCheapPrepend"
  shows "buffer_inv (makeSpace len b) \<and> contents (makeSpace len b) = contents b
    \<and> len \<le> writableBytes (makeSpace len b)"
proof -
  let ?xs = "take (readableBytes b) (peek b)"
  have len: "length ?xs = readableBytes b" and fits: "kCheapPrepend + length ?xs \<le> length (b_data b)"
    using assms(1) by (auto simp: buffer_layout)
  have "contents (makeSpace len b) = ?xs"
    using assms(2) slice_copy_to_there [OF fits] len
    by (simp add: makeSpace_def Let_def contents_def peek_def readableBytes_def)
  moreover have "buffer_inv (makeSpace len b) \<and> len \<le> writableBytes (makeSpace len b)"
    using assms length_copy_to [OF fits] fits
    by (auto simp: makeSpace_def Let_def buffer_layout)
  ultimately show ?thesis by (simp add: contents_def)
qed

lemma makeSpace_ok:
  assumes "buffer_inv b" and "writableBytes b < len"
  shows "buffer_inv (makeSpace len b) \<and> contents (makeSpace len b) = contents b
    \<and> len \<le> writableBytes (makeSpace len b)"
  using makeSpace_grow [OF assms] makeSpace_slide [OF assms(1)] by (metis order_refl)

lemma ensureWritableBytes_ok [buffer_simps]:
  assumes "buffer_inv b"
  shows "buffer_inv (ensureWritableBytes n b)"
    and "contents (ensureWritableBytes n b) = contents b"
    and "n \<le> writableBytes (ensureWritableBytes n b)"
  using assms makeSpace_ok [of b n] by (auto simp: ensureWritableBytes_def)

text \<open>Writing behind the write index extends the contents; \<open>append\<close> and \<open>readCore\<close> both do.\<close>

lemma write_behind:
  assumes "buffer_inv b" and "length xs \<le> writableBytes b"
  defines "b' \<equiv> b\<lparr>b_data := copy_to (b_writeIndex b) xs (b_data b),
                  b_writeIndex := b_writeIndex b + length xs\<rparr>"
  shows "buffer_inv b'" and "contents b' = contents b @ xs"
proof -
  have fits: "b_writeIndex b + length xs \<le> length (b_data b)"
    using assms(1,2) by (auto simp: buffer_layout)
  show "buffer_inv b'"
    using assms(1) fits length_copy_to [OF fits] by (simp add: b'_def buffer_inv_def)
  show "contents b' = contents b @ xs"
    using assms(1) slice_copy_to_after [OF _ fits, of "b_readIndex b"]
    by (simp add: b'_def buffer_layout)
qed

lemma buf_append_ok [buffer_simps]:
  assumes "buffer_inv b"
  shows "buffer_inv (buf_append xs b)" and "contents (buf_append xs b) = contents b @ xs"
  using write_behind [of "ensureWritableBytes (length xs) b" xs]
    ensureWritableBytes_ok [OF assms, of "length xs"]
  by (simp_all add: buf_append_def Let_def)

lemma readCore_Inl [buffer_simps]:
  "rd (if writableBytes b < extrabufSize then writableBytes b + extrabufSize else writableBytes b)
     = Inl e \<Longrightarrow> readCore rd b = (- 1, Some e, b)"
  by (simp add: readCore_def)

lemma readCore_Inr:
  assumes "buffer_inv b"
    and "rd (if writableBytes b < extrabufSize then writableBytes b + extrabufSize
             else writableBytes b) = Inr xs"
  shows "\<exists>b'. readCore rd b = (int (length xs), None, b') \<and> buffer_inv b'
    \<and> contents b' = contents b @ xs"
proof -
  let ?w = "writableBytes b"
  let ?b = "b\<lparr>b_data := copy_to (b_writeIndex b) (take ?w xs) (b_data b)\<rparr>"
  let ?b1 = "?b\<lparr>b_writeIndex := b_writeIndex b + length (take ?w xs)\<rparr>"
  have b1: "buffer_inv ?b1" "contents ?b1 = contents b @ take ?w xs"
    using write_behind [OF assms(1), of "take ?w xs"] by simp_all
  show ?thesis
  proof (cases "length xs \<le> ?w")
    case True
    with b1 assms(2) show ?thesis by (simp add: readCore_def Let_def)
  next
    case False
    with assms(1) have "?b1 = ?b\<lparr>b_writeIndex := length (b_data b)\<rparr>"
      by (simp add: buffer_layout)
    with False b1 buf_append_ok [OF b1(1), of "drop ?w xs"] assms(2) show ?thesis
      by (simp add: readCore_def Let_def)
  qed
qed

lemma writeCore_Inl [buffer_simps]:
  "wr (contents b) = Inl e \<Longrightarrow> writeCore wr b = (- 1, Some e, b)"
  by (simp add: writeCore_def contents_def)

lemma writeCore_Inr [buffer_simps]:
  "wr (contents b) = Inr n \<Longrightarrow> writeCore wr b = (int n, None, retrieve n b)"
  by (simp add: writeCore_def contents_def)

subsection \<open>The buffer is a byte stream\<close>

datatype buf_op =
    OpAppend bytes
  | OpRetrieve nat
  | OpRetrieveAll
  | OpRetrieveAsString nat
  | OpEnsureWritable nat
  | OpRead readv_call
  | OpWrite write_call

text \<open>What the kernel delivers to a read, the bytes \<open>readv\<close> returns for the space it is offered, and what it
  accepts of a write that offers the contents.\<close>

definition delivered :: "readv_call \<Rightarrow> buffer \<Rightarrow> bytes" where
  "delivered rd b =
     (case rd (if writableBytes b < extrabufSize then writableBytes b + extrabufSize else writableBytes b) of
        Inl e \<Rightarrow> []
      | Inr xs \<Rightarrow> xs)"

definition accepted :: "write_call \<Rightarrow> buffer \<Rightarrow> bytes" where
  "accepted wr b = (case wr (contents b) of Inl e \<Rightarrow> [] | Inr n \<Rightarrow> take n (contents b))"

text \<open>Each operation with the bytes that entered and left the buffer, as the caller or the kernel sees it.\<close>

fun buf_step :: "buf_op \<Rightarrow> buffer \<Rightarrow> bytes \<times> bytes \<times> buffer" where
  "buf_step (OpAppend xs) b = (xs, [], buf_append xs b)"
| "buf_step (OpRetrieve n) b = ([], take n (contents b), retrieve n b)"
| "buf_step OpRetrieveAll b = ([], contents b, retrieveAll b)"
| "buf_step (OpRetrieveAsString n) b = (case retrieveAsString n b of (s, b') \<Rightarrow> ([], s, b'))"
| "buf_step (OpEnsureWritable n) b = ([], [], ensureWritableBytes n b)"
| "buf_step (OpRead rd) b =
     (case readCore rd b of (n, e, b') \<Rightarrow> (delivered rd b, [], b'))"
| "buf_step (OpWrite wr) b =
     (case writeCore wr b of (n, e, b') \<Rightarrow> ([], accepted wr b, b'))"

lemma buf_step_read:
  assumes "buffer_inv b" and "buf_step (OpRead rd) b = (i, out, b')"
  shows "buffer_inv b' \<and> contents b @ i = out @ contents b'"
proof (cases "rd (if writableBytes b < extrabufSize then writableBytes b + extrabufSize
             else writableBytes b)")
  case (Inl e)
  with assms show ?thesis by (auto simp: buffer_simps delivered_def)
next
  case (Inr xs)
  with readCore_Inr [of b rd xs] assms show ?thesis by (auto simp: delivered_def)
qed

lemma buf_step_write:
  assumes "buffer_inv b" and "buf_step (OpWrite wr) b = (i, out, b')"
  shows "buffer_inv b' \<and> contents b @ i = out @ contents b'"
  using assms by (cases "wr (contents b)") (auto simp: buffer_simps accepted_def)

lemma buf_step_ok:
  assumes "buffer_inv b" and "buf_step a b = (i, out, b')"
  shows "buffer_inv b' \<and> contents b @ i = out @ contents b'"
proof (cases a)
  case (OpRetrieveAsString n)
  with assms retrieveAsString_ok [OF assms(1), of n] show ?thesis
    by (auto split: prod.splits)
next
  case (OpRead rd)
  with assms buf_step_read show ?thesis by simp
next
  case (OpWrite wr)
  with assms buf_step_write show ?thesis by simp
qed (use assms in \<open>auto simp: buffer_simps\<close>)

interpretation bufs: byte_stream contents buffer_inv "\<lambda>_. True" buf_step
  by unfold_locales (use buf_step_ok in blast)+

subsection \<open>Properties\<close>

text \<open>C6: whatever the sequence of appends, retrieves, growth and compaction, socket reads
  (including ones that overflow into the 64 KiB stack buffer) and socket writes, the buffer
  keeps its layout invariant and is a queue: the bytes that left it, followed by what it
  still holds, are what it held at first followed by the bytes that entered it.\<close>

theorem buffer_is_fifo:
  assumes "buffer_inv b" and "stream_run buf_step ops b = (ins, outs, b')"
  shows "buffer_inv b' \<and> contents b @ ins = outs @ contents b'"
  by (rule bufs.run_stream [OF assms(1) _ assms(2)]) simp

theorem buffer_is_fifo_witness:
  "\<exists>b'. stream_run buf_step
        [OpAppend [1, 2, 3], OpRetrieve 2, OpRead (\<lambda>cap. Inr [7, 8, 9, 10]), OpWrite (\<lambda>xs. Inr 2)] (newBuffer 2)
      = ([1, 2, 3, 7, 8, 9, 10], [1, 2, 3, 7], b')
     \<and> writableBytes (retrieve 2 (buf_append [1, 2, 3] (newBuffer 2))) = 0
     \<and> buffer_inv b' \<and> contents b' = [8, 9, 10]"
proof -
  let ?ops = "[OpAppend [1, 2, 3], OpRetrieve 2, OpRead (\<lambda>cap. Inr [7, 8, 9, 10]), OpWrite (\<lambda>xs. Inr 2)]"
  have "fst (stream_run buf_step ?ops (newBuffer 2)) = [1, 2, 3, 7, 8, 9, 10]"
    and "fst (snd (stream_run buf_step ?ops (newBuffer 2))) = [1, 2, 3, 7]"
    and w: "writableBytes (retrieve 2 (buf_append [1, 2, 3] (newBuffer 2))) = 0"
    by (simp_all add: buffer_defs delivered_def accepted_def)
  then obtain b' where
    r: "stream_run buf_step ?ops (newBuffer 2) = ([1, 2, 3, 7, 8, 9, 10], [1, 2, 3, 7], b')"
    by (metis prod.collapse)
  with buffer_is_fifo [OF newBuffer_ok(1) r] w show ?thesis by (simp add: buffer_simps)
qed

end
