(* ===== verification/Tcp_Connection.thy ===== *)
theory Tcp_Connection
  imports Transport Channel Buffer
begin

unbundle bit_operations_syntax

section \<open>TCP connections\<close>

text \<open>
  \<open>src/TcpConnection.cpp\<close>. The record holds the members of the class; \<open>tc_poller\<close> is the poller
  of \<open>loop_\<close>, \<open>tc_tasks\<close> the functors this connection has put on the loop's queue, and
  \<open>tc_calls\<close> the user callbacks it has run, in order. What the network sees is \<open>tc_wire\<close>, the
  bytes the kernel took, and \<open>tc_shut\<close>, whether the write side was shut down. The parameter \<open>k\<close>
  is the kernel's answer to each \<open>write\<close> on the socket: an errno, or how many bytes it is
  ready to take. The flag of \<open>send\<close> and \<open>shutdown\<close> tells whether the caller is the loop thread.
  The message callback, user code that may use the connection, is a parameter of \<open>handleRead\<close>.
  A failed assertion is \<^const>\<open>None\<close>.
\<close>

datatype StateE = kConnecting | kConnected | kDisconnecting | kDisconnected

datatype tcp_task = SendInLoop bytes | ShutdownInLoop | ForceCloseInLoop | WriteComplete

datatype user_call = ConnectionCallback bool | CloseCallback | WriteCompleteCallback

record tcp_connection =
  tc_state :: StateE
  tc_channel :: channel
  tc_poller :: poller
  tc_input :: buffer
  tc_output :: buffer
  tc_hasWriteComplete :: bool
  tc_tasks :: "tcp_task list"
  tc_calls :: "user_call list"
  tc_wire :: bytes
  tc_writes :: nat
  tc_shut :: bool

type_synonym kernel = "nat \<Rightarrow> errno + nat"

definition EAGAIN :: errno where "EAGAIN = 11"
definition EPIPE :: errno where "EPIPE = 32"
definition ECONNRESET :: errno where "ECONNRESET = 104"

definition newTcpConnection :: "nat \<Rightarrow> fd \<Rightarrow> bool \<Rightarrow> poller \<Rightarrow> tcp_connection" where
  "newTcpConnection p fd wc P =
     \<lparr>tc_state = kConnecting, tc_channel = newChannel p fd, tc_poller = P,
      tc_input = newBuffer kInitialSize, tc_output = newBuffer kInitialSize, tc_hasWriteComplete = wc,
      tc_tasks = [], tc_calls = [], tc_wire = [], tc_writes = 0, tc_shut = False\<rparr>"

text \<open>Apply a channel operation.\<close>

definition on_channel ::
  "(channel \<Rightarrow> poller \<Rightarrow> channel \<times> poller) \<Rightarrow> tcp_connection \<Rightarrow> tcp_connection" where
  "on_channel f c =
     (case f (tc_channel c) (tc_poller c) of (ch, P) \<Rightarrow> c\<lparr>tc_channel := ch, tc_poller := P\<rparr>)"

definition run_callback :: "user_call \<Rightarrow> tcp_connection \<Rightarrow> tcp_connection" where
  "run_callback u c = c\<lparr>tc_calls := tc_calls c @ [u]\<rparr>"

definition queueInLoop :: "tcp_task \<Rightarrow> tcp_connection \<Rightarrow> tcp_connection" where
  "queueInLoop t c = c\<lparr>tc_tasks := tc_tasks c @ [t]\<rparr>"

definition tcp_connected :: "tcp_connection \<Rightarrow> bool" where
  "tcp_connected c \<longleftrightarrow> tc_state c = kConnected"

subsection \<open>Life cycle\<close>

definition connectEstablished :: "tcp_connection \<Rightarrow> tcp_connection option" where
  "connectEstablished c =
     (if tc_state c \<noteq> kConnecting then None
      else let c1 = c\<lparr>tc_state := kConnected, tc_channel := tie (tc_channel c)\<rparr>
           in Some (run_callback (ConnectionCallback True) (on_channel enableReading c1)))"

definition connectDestroyed :: "tcp_connection \<Rightarrow> tcp_connection option" where
  "connectDestroyed c =
     (let c1 = (if tc_state c = kConnected
                then run_callback (ConnectionCallback False)
                       (on_channel disableAll (c\<lparr>tc_state := kDisconnected\<rparr>))
                else c)
      in case channel_remove (tc_channel c1) (tc_poller c1) of
           None \<Rightarrow> None
         | Some (ch, P) \<Rightarrow> Some (c1\<lparr>tc_channel := ch, tc_poller := P\<rparr>))"

definition handleClose :: "tcp_connection \<Rightarrow> tcp_connection option" where
  "handleClose c =
     (if \<not> (tc_state c = kConnected \<or> tc_state c = kDisconnecting) then None
      else Some (run_callback CloseCallback
             (run_callback (ConnectionCallback False)
               (on_channel disableAll (c\<lparr>tc_state := kDisconnected\<rparr>)))))"

definition shutdownInLoop :: "tcp_connection \<Rightarrow> tcp_connection" where
  "shutdownInLoop c = (if \<not> isWriting (tc_channel c) then c\<lparr>tc_shut := True\<rparr> else c)"

definition tcp_shutdown :: "bool \<Rightarrow> tcp_connection \<Rightarrow> tcp_connection" where
  "tcp_shutdown inLoop c =
     (if tc_state c = kConnected then
        (let c1 = c\<lparr>tc_state := kDisconnecting\<rparr>
         in if inLoop then shutdownInLoop c1 else queueInLoop ShutdownInLoop c1)
      else c)"

definition tcp_forceClose :: "tcp_connection \<Rightarrow> tcp_connection" where
  "tcp_forceClose c =
     (if tc_state c = kConnected \<or> tc_state c = kDisconnecting
      then queueInLoop ForceCloseInLoop (c\<lparr>tc_state := kDisconnecting\<rparr>) else c)"

definition forceCloseInLoop :: "tcp_connection \<Rightarrow> tcp_connection option" where
  "forceCloseInLoop c =
     (if tc_state c = kConnected \<or> tc_state c = kDisconnecting then handleClose c else Some c)"

subsection \<open>Output\<close>

text \<open>One \<open>write\<close> on the socket; the kernel never takes more than it is offered.\<close>

definition kernel_write :: "kernel \<Rightarrow> nat \<Rightarrow> write_call" where
  "kernel_write k i data = (case k i of Inl e \<Rightarrow> Inl e | Inr n \<Rightarrow> Inr (min n (length data)))"

definition sendInLoop :: "kernel \<Rightarrow> bytes \<Rightarrow> tcp_connection \<Rightarrow> tcp_connection" where
  "sendInLoop k message c =
     (if tc_state c = kDisconnected then c
      else
        let (nwritten, faultError, c1) =
          (if \<not> isWriting (tc_channel c) \<and> readableBytes (tc_output c) = 0 then
             (case kernel_write k (tc_writes c) message of
                Inr n \<Rightarrow>
                  (n, False,
                   let c' = c\<lparr>tc_writes := tc_writes c + 1, tc_wire := tc_wire c @ take n message\<rparr>
                   in if length message - n = 0 \<and> tc_hasWriteComplete c
                      then queueInLoop WriteComplete c' else c')
              | Inl e \<Rightarrow>
                  (0, e \<noteq> EAGAIN \<and> (e = EPIPE \<or> e = ECONNRESET), c\<lparr>tc_writes := tc_writes c + 1\<rparr>))
           else (0, False, c));
          remaining = length message - nwritten
        in if \<not> faultError \<and> remaining > 0 then
             (let c2 = c1\<lparr>tc_output := buf_append (drop nwritten message) (tc_output c1)\<rparr>
              in if \<not> isWriting (tc_channel c2) then on_channel enableWriting c2 else c2)
           else c1)"

definition tcp_send :: "kernel \<Rightarrow> bool \<Rightarrow> bytes \<Rightarrow> tcp_connection \<Rightarrow> tcp_connection" where
  "tcp_send k inLoop message c =
     (if tc_state c = kConnected then
        (if inLoop then sendInLoop k message c else queueInLoop (SendInLoop message) c)
      else c)"

definition handleWrite :: "kernel \<Rightarrow> tcp_connection \<Rightarrow> tcp_connection" where
  "handleWrite k c =
     (if isWriting (tc_channel c) then
        (case writeCore (kernel_write k (tc_writes c)) (tc_output c) of
           (n, savedErrno, out) \<Rightarrow>
             let c1 = c\<lparr>tc_output := out, tc_writes := tc_writes c + 1,
                        tc_wire := tc_wire c @ take (nat n) (contents (tc_output c))\<rparr>
             in if n > 0 \<and> readableBytes out = 0 then
                  (let c2 = on_channel disableWriting c1;
                       c3 = (if tc_hasWriteComplete c then run_callback WriteCompleteCallback c2 else c2)
                   in if tc_state c3 = kDisconnecting then shutdownInLoop c3 else c3)
                else c1)
      else c)"

subsection \<open>Input and events\<close>

definition handleRead ::
  "readv_call \<Rightarrow> (tcp_connection \<Rightarrow> tcp_connection) \<Rightarrow> tcp_connection \<Rightarrow> tcp_connection option" where
  "handleRead rd messageCallback c =
     (case readCore rd (tc_input c) of
        (n, savedErrno, inp) \<Rightarrow>
          let c1 = c\<lparr>tc_input := inp\<rparr>
          in if n > 0 then Some (messageCallback c1)
             else if n = 0 then
               (if readableBytes (tc_output c1) > 0 then Some (c1\<lparr>tc_state := kDisconnecting\<rparr>)
                else handleClose c1)
             else Some c1)"

text \<open>\<open>handleError\<close> only reports.\<close>

definition handleError :: "tcp_connection \<Rightarrow> tcp_connection option" where
  "handleError c = Some c"

definition tcp_handleEvent ::
  "kernel \<Rightarrow> readv_call \<Rightarrow> (tcp_connection \<Rightarrow> tcp_connection) \<Rightarrow> u32 \<Rightarrow> tcp_connection \<Rightarrow> tcp_connection option"
where
  "tcp_handleEvent k rd messageCallback revents c =
     handleEventWithGuard handleClose handleError (handleRead rd messageCallback)
       (\<lambda>c. Some (handleWrite k c)) revents c"

text \<open>One functor from the loop's queue.\<close>

definition run_task :: "kernel \<Rightarrow> tcp_task \<Rightarrow> tcp_connection \<Rightarrow> tcp_connection option" where
  "run_task k t c =
     (case t of
        SendInLoop m \<Rightarrow> Some (sendInLoop k m c)
      | ShutdownInLoop \<Rightarrow> Some (shutdownInLoop c)
      | ForceCloseInLoop \<Rightarrow> forceCloseInLoop c
      | WriteComplete \<Rightarrow> Some (run_callback WriteCompleteCallback c))"

subsection \<open>The invariant\<close>

text \<open>The bytes accepted for the peer: on the wire, then queued.\<close>

definition outbox :: "tcp_connection \<Rightarrow> bytes" where
  "outbox c = tc_wire c @ contents (tc_output c)"

text \<open>The connection and close callbacks, without the write-complete notifications.\<close>

definition life_calls :: "tcp_connection \<Rightarrow> user_call list" where
  "life_calls c = filter (\<lambda>u. u \<noteq> WriteCompleteCallback) (tc_calls c)"

text \<open>An open connection is watched for reading, and for writing exactly while bytes are queued; a
  closed one is not watched at all. The user has been told of every change of state once.\<close>

fun conn_ok :: "StateE \<Rightarrow> channel \<Rightarrow> bytes \<Rightarrow> user_call list \<Rightarrow> bool" where
  "conn_ok kConnecting ch queued calls \<longleftrightarrow>
     ch_events ch = 0 \<and> ch_index ch = -1 \<and> queued = [] \<and> calls = []"
| "conn_ok kDisconnected ch queued calls \<longleftrightarrow>
     ch_events ch = 0 \<and> ch_index ch \<in> {-1, 0}
     \<and> calls \<in> {[ConnectionCallback True, ConnectionCallback False],
                [ConnectionCallback True, ConnectionCallback False, CloseCallback]}"
| "conn_ok _ ch queued calls \<longleftrightarrow>
     isReading ch \<and> ch_index ch = 1 \<and> isWriting ch = (queued \<noteq> []) \<and> calls = [ConnectionCallback True]"

definition conn_inv :: "tcp_connection \<Rightarrow> bool" where
  "conn_inv c \<longleftrightarrow> buffer_inv (tc_input c) \<and> buffer_inv (tc_output c)
     \<and> conn_ok (tc_state c) (tc_channel c) (contents (tc_output c)) (life_calls c)
     \<and> (tc_state c = kConnecting \<longrightarrow> tc_tasks c = [])"

definition peer_alive :: "kernel \<Rightarrow> bool" where
  "peer_alive k \<longleftrightarrow> (\<forall>i. k i \<noteq> Inl EPIPE \<and> k i \<noteq> Inl ECONNRESET)"

lemmas conn_defs = on_channel_def run_callback_def queueInLoop_def tcp_connected_def

subsubsection \<open>Event masks\<close>

lemma mask_absorb: "(a OR b) AND b = (b :: u32)" "(a AND NOT b) AND b = (0 :: u32)"
    "b AND c = 0 \<Longrightarrow> (a OR b) AND c = a AND (c :: u32)"
    "b AND c = 0 \<Longrightarrow> (a AND NOT b) AND c = a AND (c :: u32)"
  by (auto simp: bit_eq_iff bit_simps)

lemma masks_disjoint: "kReadEvent AND kWriteEvent = 0" "kWriteEvent AND kReadEvent = 0"
    "kReadEvent \<noteq> 0" "kWriteEvent \<noteq> 0"
  by (simp_all add: event_defs)

lemma enableReading_effect:
  "ch_index ch = -1 \<Longrightarrow> ch_events ch = 0 \<Longrightarrow> enableReading ch P = (ch', P') \<Longrightarrow>
     isReading ch' \<and> \<not> isWriting ch' \<and> ch_index ch' = 1"
  by (auto simp: enableReading_def channel_update_def updateChannel_def Let_def isReading_def
      isWriting_def event_defs split: if_splits)

lemma enableWriting_effect:
  assumes "ch_index ch = 1" and "isReading ch" and "enableWriting ch P = (ch', P')"
  shows "isReading ch' \<and> isWriting ch' \<and> ch_index ch' = 1"
proof -
  have "ch_events ch OR kWriteEvent \<noteq> 0"
    using mask_absorb(1) [of "ch_events ch" kWriteEvent] masks_disjoint by force
  with assms mask_absorb masks_disjoint show ?thesis
    by (auto simp: enableWriting_def channel_update_def updateChannel_def isNoneEvent_def kNoneEvent_def
        isReading_def isWriting_def Let_def split: if_splits)
qed

lemma disableWriting_effect:
  assumes "ch_index ch = 1" and "isReading ch" and "disableWriting ch P = (ch', P')"
  shows "isReading ch' \<and> \<not> isWriting ch' \<and> ch_index ch' = 1"
proof -
  have r: "(ch_events ch AND NOT kWriteEvent) AND kReadEvent = ch_events ch AND kReadEvent"
    by (rule mask_absorb(4)) (rule masks_disjoint)
  then have "ch_events ch AND NOT kWriteEvent \<noteq> 0" using assms(2) by (force simp: isReading_def)
  with assms r mask_absorb(2) show ?thesis
    by (auto simp: disableWriting_def channel_update_def updateChannel_def isNoneEvent_def kNoneEvent_def
        isReading_def isWriting_def Let_def split: if_splits)
qed

lemma disableAll_effect:
  "ch_index ch = 1 \<Longrightarrow> disableAll ch P = (ch', P') \<Longrightarrow> ch_events ch' = 0 \<and> ch_index ch' = 0"
  by (auto simp: disableAll_def channel_update_def updateChannel_def isNoneEvent_def kNoneEvent_def
      Let_def split: if_splits)

subsubsection \<open>Every operation keeps it\<close>

lemma newTcpConnection_inv: "conn_inv (newTcpConnection p fd wc P)"
  by (simp add: conn_inv_def newTcpConnection_def newChannel_def buffer_simps life_calls_def)

lemma connectEstablished_inv:
  assumes "conn_inv c" and "connectEstablished c = Some c'"
  shows "conn_inv c'"
  using assms enableReading_effect [of "tie (tc_channel c)"]
  by (auto simp: connectEstablished_def conn_inv_def conn_defs Let_def life_calls_def tie_def
      split: if_splits prod.splits)

lemma handleClose_inv: "conn_inv c \<Longrightarrow> handleClose c = Some c' \<Longrightarrow> conn_inv c'"
  by (auto simp: handleClose_def conn_inv_def conn_defs life_calls_def
      split: if_splits prod.splits dest: disableAll_effect)

lemma shutdownInLoop_inv [simp]: "conn_inv (shutdownInLoop c) = conn_inv c"
  by (simp add: shutdownInLoop_def conn_inv_def life_calls_def)

lemma tcp_shutdown_inv: "conn_inv c \<Longrightarrow> conn_inv (tcp_shutdown b c)"
  by (auto simp: tcp_shutdown_def conn_inv_def conn_defs life_calls_def Let_def shutdownInLoop_def)

lemma tcp_forceClose_inv: "conn_inv c \<Longrightarrow> conn_inv (tcp_forceClose c)"
  by (auto simp: tcp_forceClose_def conn_inv_def conn_defs life_calls_def)

lemma forceCloseInLoop_inv: "conn_inv c \<Longrightarrow> forceCloseInLoop c = Some c' \<Longrightarrow> conn_inv c'"
  by (auto simp: forceCloseInLoop_def handleClose_inv split: if_splits)

lemma connectDestroyed_inv:
  assumes "conn_inv c" and "connectDestroyed c = Some c'" and "tc_state c \<noteq> kConnecting"
  shows "conn_inv c'"
  using assms disableAll_effect [of "tc_channel c"]
  by (cases "tc_state c") (auto simp: connectDestroyed_def conn_inv_def conn_defs life_calls_def
      channel_remove_def removeChannel_def isNoneEvent_def kNoneEvent_def isReading_def Let_def
      split: if_splits prod.splits option.splits)

lemma readable_contents: "buffer_inv b \<Longrightarrow> readableBytes b = 0 \<longleftrightarrow> contents b = []"
  using length_contents [of b] by auto

text \<open>The states in which \<open>sendInLoop\<close> and \<open>handleWrite\<close> work on the output.\<close>

lemma open_inv:
  "tc_state c \<in> {kConnected, kDisconnecting} \<Longrightarrow> conn_inv c \<longleftrightarrow>
     buffer_inv (tc_input c) \<and> buffer_inv (tc_output c) \<and> isReading (tc_channel c)
     \<and> ch_index (tc_channel c) = 1 \<and> isWriting (tc_channel c) = (contents (tc_output c) \<noteq> [])
     \<and> life_calls c = [ConnectionCallback True]"
  by (auto simp: conn_inv_def)

text \<open>Queueing bytes arms the write event.\<close>

lemma queue_output:
  assumes "tc_state c \<in> {kConnected, kDisconnecting}" and "conn_inv c" and "m \<noteq> []"
  defines "c1 \<equiv> c\<lparr>tc_output := buf_append m (tc_output c)\<rparr>"
  defines "c' \<equiv> if \<not> isWriting (tc_channel c1) then on_channel enableWriting c1 else c1"
  shows "conn_inv c' \<and> contents (tc_output c') = contents (tc_output c) @ m
    \<and> tc_wire c' = tc_wire c \<and> tc_state c' = tc_state c \<and> tc_writes c' = tc_writes c"
  using assms enableWriting_effect [of "tc_channel c"]
  by (auto simp: open_inv c'_def c1_def on_channel_def buffer_simps life_calls_def split: prod.splits)

lemma kernel_write_Inr: "kernel_write k i m = Inr n \<Longrightarrow> n \<le> length m"
  by (auto simp: kernel_write_def split: sum.splits)

lemma kernel_write_fault:
  "peer_alive k \<Longrightarrow> kernel_write k i m = Inl e \<Longrightarrow> \<not> (e = EPIPE \<or> e = ECONNRESET)"
  by (auto simp: kernel_write_def peer_alive_def split: sum.splits)

lemma queueInLoop_inv:
  "tc_state c \<in> {kConnected, kDisconnecting} \<Longrightarrow> conn_inv (queueInLoop t c) = conn_inv c"
  by (auto simp: open_inv queueInLoop_def life_calls_def)

lemma wrote_inv [simp]:
  "conn_inv (c\<lparr>tc_writes := i\<rparr>) = conn_inv c"
  "conn_inv (c\<lparr>tc_writes := i, tc_wire := w\<rparr>) = conn_inv c"
  by (simp_all add: conn_inv_def life_calls_def)

text \<open>What \<open>sendInLoop\<close> does on an open connection: the invariant holds, and the message joins the
  outbox, unless the kernel says that the peer is gone.\<close>

lemma sendInLoop_open:
  assumes "tc_state c \<in> {kConnected, kDisconnecting}" and "conn_inv c"
  shows "conn_inv (sendInLoop k m c) \<and> tc_state (sendInLoop k m c) = tc_state c
    \<and> (outbox (sendInLoop k m c) = outbox c @ m
       \<or> \<not> peer_alive k \<and> outbox (sendInLoop k m c) = outbox c)"
proof (cases "\<not> isWriting (tc_channel c) \<and> readableBytes (tc_output c) = 0")
  case False
  then have "sendInLoop k m c = (if m = [] then c else
      let c2 = c\<lparr>tc_output := buf_append m (tc_output c)\<rparr>
      in if \<not> isWriting (tc_channel c2) then on_channel enableWriting c2 else c2)"
    using assms(1) by (auto simp: sendInLoop_def Let_def)
  with queue_output [OF assms, of m] assms(2) show ?thesis by (auto simp: Let_def outbox_def)
next
  case True
  with assms have e: "contents (tc_output c) = []" by (auto simp: open_inv)
  show ?thesis
  proof (cases "kernel_write k (tc_writes c) m")
    case (Inl er)
    let ?c = "c\<lparr>tc_writes := tc_writes c + 1\<rparr>"
    show ?thesis
      using True Inl assms e kernel_write_fault [OF _ Inl] queue_output [of ?c m]
      by (auto simp: sendInLoop_def Let_def outbox_def EAGAIN_def EPIPE_def ECONNRESET_def)
  next
    case (Inr n)
    let ?c = "c\<lparr>tc_writes := tc_writes c + 1, tc_wire := tc_wire c @ take n m\<rparr>"
    show ?thesis
    proof (cases "length m - n = 0")
      case full: True
      with True Inr assms e show ?thesis
        by (auto simp: sendInLoop_def Let_def outbox_def queueInLoop_inv)
          (auto simp: queueInLoop_def)
    next
      case False
      with True Inr assms e queue_output [of ?c "drop n m"] show ?thesis
        by (auto simp: sendInLoop_def Let_def outbox_def)
    qed
  qed
qed

text \<open>Part of the queue has gone out; if it was the last part, the write event is disarmed.\<close>

lemma drained:
  assumes "tc_state c \<in> {kConnected, kDisconnecting}" and "conn_inv c" and "contents out = []"
    and "buffer_inv out"
  shows "conn_inv (on_channel disableWriting (c\<lparr>tc_output := out, tc_writes := i, tc_wire := w\<rparr>))"
proof -
  obtain ch P where d: "disableWriting (tc_channel c) (tc_poller c) = (ch, P)" by fastforce
  with assms disableWriting_effect [OF _ _ d] show ?thesis
    by (auto simp: open_inv on_channel_def life_calls_def)
qed

lemma run_callback_wc [simp]:
  "conn_inv (run_callback WriteCompleteCallback c) = conn_inv c"
  "tc_state (run_callback u c) = tc_state c" "outbox (run_callback u c) = outbox c"
  by (simp_all add: conn_inv_def run_callback_def life_calls_def outbox_def)

lemma on_channel_fields [simp]:
  "tc_state (on_channel f c) = tc_state c" "outbox (on_channel f c) = outbox c"
  "tc_output (on_channel f c) = tc_output c" "tc_tasks (on_channel f c) = tc_tasks c"
  by (simp_all add: on_channel_def outbox_def split: prod.splits)

lemma shutdownInLoop_fields [simp]:
  "tc_state (shutdownInLoop c) = tc_state c" "outbox (shutdownInLoop c) = outbox c"
  by (simp_all add: shutdownInLoop_def outbox_def)

lemma handleWrite_open:
  assumes "conn_inv c"
  shows "conn_inv (handleWrite k c) \<and> tc_state (handleWrite k c) = tc_state c
    \<and> outbox (handleWrite k c) = outbox c"
proof (cases "isWriting (tc_channel c)")
  case False
  then show ?thesis using assms by (simp add: handleWrite_def)
next
  case True
  then have st: "tc_state c \<in> {kConnected, kDisconnecting}" and ne: "contents (tc_output c) \<noteq> []"
    using assms by (cases "tc_state c"; simp add: conn_inv_def isWriting_def)+
  have bi: "buffer_inv (tc_output c)" using assms by (simp add: conn_inv_def)
  show ?thesis
  proof (cases "kernel_write k (tc_writes c) (contents (tc_output c))")
    case (Inl e)
    with True assms st show ?thesis by (simp add: handleWrite_def buffer_simps outbox_def open_inv)
  next
    case (Inr n)
    let ?out = "retrieve n (tc_output c)"
    let ?c = "c\<lparr>tc_output := ?out, tc_writes := tc_writes c + 1,
      tc_wire := tc_wire c @ take n (contents (tc_output c))\<rparr>"
    have out: "buffer_inv ?out" "contents ?out = drop n (contents (tc_output c))"
      using bi by (simp_all add: buffer_simps)
    then have ob: "outbox ?c = outbox c" by (simp add: outbox_def)
    show ?thesis
    proof (cases "n > 0 \<and> readableBytes ?out = 0")
      case fin: True
      then have "contents ?out = []" using out(1) readable_contents by blast
      from drained [OF st assms this out(1)] have "conn_inv (on_channel disableWriting ?c)" .
      with fin True Inr ob show ?thesis by (simp add: handleWrite_def buffer_simps Let_def)
    next
      case False
      then have "contents ?out \<noteq> []" using out ne readable_contents [OF out(1)] by auto
      with assms st True out have "conn_inv ?c" by (simp add: open_inv life_calls_def)
      with False True Inr ob show ?thesis by (auto simp: handleWrite_def buffer_simps Let_def)
    qed
  qed
qed

subsection \<open>A transport\<close>

definition tcp_ops :: "kernel \<Rightarrow> tcp_connection transport_ops" where
  "tcp_ops k =
     \<lparr>t_connected = tcp_connected, t_send = tcp_send k True, t_shutdown = tcp_shutdown True,
      t_forceClose = tcp_forceClose\<rparr>"

lemma tcp_send_inv: "conn_inv c \<Longrightarrow> conn_inv (tcp_send k b m c)"
  using sendInLoop_open [of c k m] queueInLoop_inv [of c "SendInLoop m"] by (auto simp: tcp_send_def)

interpretation tcp: transport "peer_alive k" "tcp_ops k" conn_inv outbox for k
proof unfold_locales
  fix c m
  assume inv: "conn_inv c"
  show "conn_inv (t_send (tcp_ops k) m c)" using inv by (simp add: tcp_ops_def tcp_send_inv)
  show "conn_inv (t_shutdown (tcp_ops k) c)" using inv by (simp add: tcp_ops_def tcp_shutdown_inv)
  show "conn_inv (t_forceClose (tcp_ops k) c)" using inv by (simp add: tcp_ops_def tcp_forceClose_inv)
  show "t_connected (tcp_ops k) (t_send (tcp_ops k) m c) = t_connected (tcp_ops k) c"
    using inv sendInLoop_open [of c k m] by (auto simp: tcp_ops_def tcp_send_def tcp_connected_def)
  show "outbox (t_send (tcp_ops k) m c) = outbox c @ m"
    if "peer_alive k" "t_connected (tcp_ops k) c"
    using inv that sendInLoop_open [of c k m] by (auto simp: tcp_ops_def tcp_send_def tcp_connected_def)
qed (auto simp: tcp_ops_def tcp_send_def tcp_connected_def tcp_shutdown_def tcp_forceClose_def queueInLoop_def shutdownInLoop_def outbox_def Let_def)

end
