(* ===== verification/Tcp_Lifecycle.thy ===== *)
theory Tcp_Lifecycle
  imports Tcp_Connection
begin

unbundle bit_operations_syntax

section \<open>Runs of a TCP connection\<close>

text \<open>
  A connection as a state machine: what the loop, the kernel and the user can do to it, in any
  order, and what is true of every state it can reach. The message callback is any program over
  the public operations, chosen from the state the callback sees.
\<close>

datatype user_op = USend bytes | UShutdown | UForceClose | UConsume nat

fun user_step :: "kernel \<Rightarrow> user_op \<Rightarrow> tcp_connection \<Rightarrow> tcp_connection" where
  "user_step k (USend m) c = tcp_send k True m c"
| "user_step k UShutdown c = tcp_shutdown True c"
| "user_step k UForceClose c = tcp_forceClose c"
| "user_step k (UConsume n) c = c\<lparr>tc_input := retrieve n (tc_input c)\<rparr>"

type_synonym user_code = "tcp_connection \<Rightarrow> user_op list"

definition user_callback :: "kernel \<Rightarrow> user_code \<Rightarrow> tcp_connection \<Rightarrow> tcp_connection" where
  "user_callback k prog c = fold (user_step k) (prog c) c"

datatype conn_event =
    Established
  | IO u32 readv_call
  | Send bool bytes
  | Shutdown bool
  | ForceClose
  | Task
  | Destroyed

fun conn_step :: "kernel \<Rightarrow> user_code \<Rightarrow> conn_event \<Rightarrow> tcp_connection \<Rightarrow> tcp_connection option" where
  "conn_step k prog Established c = connectEstablished c"
| "conn_step k prog (IO revents rd) c = tcp_handleEvent k rd (user_callback k prog) revents c"
| "conn_step k prog (Send inLoop m) c = Some (tcp_send k inLoop m c)"
| "conn_step k prog (Shutdown inLoop) c = Some (tcp_shutdown inLoop c)"
| "conn_step k prog ForceClose c = Some (tcp_forceClose c)"
| "conn_step k prog Task c =
     (case tc_tasks c of [] \<Rightarrow> Some c | t # ts \<Rightarrow> run_task k t (c\<lparr>tc_tasks := ts\<rparr>))"
| "conn_step k prog Destroyed c = connectDestroyed c"

text \<open>\<open>Channel::handleEventWithGuard\<close> runs the close callback for a hang-up without readable data and goes
  on to the read callback if the event carries urgent data or the end of the stream. A read that finds
  the end of the stream then closes the connection for the second time.\<close>

definition closes_twice :: "u32 \<Rightarrow> readv_call \<Rightarrow> tcp_connection \<Rightarrow> bool" where
  "closes_twice revents rd c \<longleftrightarrow> revents AND EPOLLHUP \<noteq> 0 \<and> revents AND EPOLLIN = 0
     \<and> revents AND (EPOLLPRI OR EPOLLRDHUP) \<noteq> 0 \<and> fst (readCore rd (tc_input c)) = 0"

text \<open>What the environment respects: a connection is established once; events are reported for
  watched descriptors, and none closes the connection twice; a connection is destroyed when it is open
  or closed, not half-closed. The property on failing assertions below is about the events left out.\<close>

fun event_ok :: "conn_event \<Rightarrow> tcp_connection \<Rightarrow> bool" where
  "event_ok Established c \<longleftrightarrow> tc_state c = kConnecting"
| "event_ok (IO revents rd) c \<longleftrightarrow>
     ch_index (tc_channel c) = 1 \<and> \<not> closes_twice revents rd c"
| "event_ok Destroyed c \<longleftrightarrow> tc_state c = kConnected \<or> tc_state c = kDisconnected"
| "event_ok _ c \<longleftrightarrow> True"

inductive tcp_reachable :: "kernel \<Rightarrow> user_code \<Rightarrow> tcp_connection \<Rightarrow> bool" for k prog where
  start: "tcp_reachable k prog (newTcpConnection p fd wc P)"
| step: "tcp_reachable k prog c \<Longrightarrow> event_ok ev c \<Longrightarrow> conn_step k prog ev c = Some c' \<Longrightarrow> tcp_reachable k prog c'"

subsection \<open>Every step keeps the invariant\<close>

lemma user_step_inv: "conn_inv c \<Longrightarrow> conn_inv (user_step k a c)"
  by (cases a) (simp_all add: tcp_send_inv tcp_shutdown_inv tcp_forceClose_inv,
      simp add: conn_inv_def buffer_simps life_calls_def)

lemma user_callback_inv: "conn_inv c \<Longrightarrow> conn_inv (user_callback k prog c)"
proof -
  have "conn_inv c \<Longrightarrow> conn_inv (fold (user_step k) as c)" for as c
    by (induction as arbitrary: c) (simp_all add: user_step_inv)
  then show "conn_inv c \<Longrightarrow> conn_inv (user_callback k prog c)" by (simp add: user_callback_def)
qed

lemma watched_open:
  "conn_inv c \<Longrightarrow> ch_index (tc_channel c) = 1 \<Longrightarrow> tc_state c \<in> {kConnected, kDisconnecting}"
  by (cases "tc_state c") (auto simp: conn_inv_def)

lemma handleClose_open:
  assumes "conn_inv c" and "tc_state c \<in> {kConnected, kDisconnecting}"
  shows "\<exists>c'. handleClose c = Some c' \<and> conn_inv c' \<and> \<not> isWriting (tc_channel c')"
proof -
  obtain c' where c': "handleClose c = Some c'" using assms(2) by (auto simp: handleClose_def)
  moreover from c' have "tc_state c' = kDisconnected"
    by (auto simp: handleClose_def on_channel_def run_callback_def split: if_splits prod.splits)
  moreover have "conn_inv c'" using assms(1) c' by (rule handleClose_inv)
  ultimately show ?thesis by (auto simp: conn_inv_def isWriting_def)
qed

lemma read_inv:
  assumes "conn_inv c" and "readCore rd (tc_input c) = (n, e, inp)"
  shows "conn_inv (c\<lparr>tc_input := inp\<rparr>)"
  using assms buf_step_read [of "tc_input c" rd] by (auto simp: conn_inv_def life_calls_def)

lemma handleRead_open:
  assumes "conn_inv c" and "tc_state c \<in> {kConnected, kDisconnecting}"
  shows "\<exists>c'. handleRead rd (user_callback k prog) c = Some c' \<and> conn_inv c'"
proof -
  obtain n e inp where r: "readCore rd (tc_input c) = (n, e, inp)" by (cases "readCore rd (tc_input c)")
  note inv = read_inv [OF assms(1) r]
  have "conn_inv (c\<lparr>tc_input := inp, tc_state := kDisconnecting\<rparr>)"
    using inv assms(2) by (auto simp: conn_inv_def life_calls_def)
  then show ?thesis
    using r inv user_callback_inv handleClose_open [OF inv] assms(2) by (auto simp: handleRead_def Let_def)
qed

text \<open>After the close callback of a hang-up, a read that brings data or fails is harmless; the end of the
  stream is not, unless there is output left.\<close>

lemma handleClose_buffers:
  "handleClose c = Some c' \<Longrightarrow> tc_input c' = tc_input c \<and> tc_output c' = tc_output c \<and> tc_state c' = kDisconnected"
  by (auto simp: handleClose_def on_channel_def run_callback_def split: if_splits prod.splits)

lemma handleRead_closed:
  assumes "conn_inv c" and "tc_state c = kDisconnected"
  shows "fst (readCore rd (tc_input c)) \<noteq> 0 \<Longrightarrow> \<exists>c'. handleRead rd (user_callback k prog) c = Some c' \<and> conn_inv c'"
    and "fst (readCore rd (tc_input c)) = 0 \<Longrightarrow>
      handleRead rd (user_callback k prog) c = None \<longleftrightarrow> contents (tc_output c) = []"
proof -
  obtain n e inp where r: "readCore rd (tc_input c) = (n, e, inp)" by (cases "readCore rd (tc_input c)")
  note inv = read_inv [OF assms(1) r]
  show "fst (readCore rd (tc_input c)) \<noteq> 0 \<Longrightarrow> \<exists>c'. handleRead rd (user_callback k prog) c = Some c' \<and> conn_inv c'"
    using r inv user_callback_inv [OF inv] by (auto simp: handleRead_def Let_def)
  have "readableBytes (tc_output c) > 0 \<longleftrightarrow> contents (tc_output c) \<noteq> []"
    using assms(1) readable_contents [of "tc_output c"] unfolding conn_inv_def by auto
  then show "fst (readCore rd (tc_input c)) = 0 \<Longrightarrow>
      handleRead rd (user_callback k prog) c = None \<longleftrightarrow> contents (tc_output c) = []"
    using r assms(2) by (simp add: handleRead_def handleClose_def Let_def)
qed

lemma input_bits: "revents AND (EPOLLIN OR EPOLLPRI OR EPOLLRDHUP) = 0 \<longleftrightarrow>
    revents AND EPOLLIN = 0 \<and> revents AND (EPOLLPRI OR EPOLLRDHUP) = 0"
  by (simp add: bit.conj_disj_distrib or.assoc or_eq_0_iff)


lemma tcp_handleEvent_inv:
  assumes "conn_inv c" and "event_ok (IO revents rd) c"
  shows "\<exists>c'. tcp_handleEvent k rd (user_callback k prog) revents c = Some c' \<and> conn_inv c'"
proof (cases "revents AND EPOLLHUP \<noteq> 0 \<and> revents AND EPOLLIN = 0")
  case True
  obtain c' where c': "handleClose c = Some c'" "conn_inv c'"
    using handleClose_open [OF assms(1) watched_open] assms by auto
  note b = handleClose_buffers [OF c'(1)]
  have "\<exists>c2. (if revents AND (EPOLLIN OR EPOLLPRI OR EPOLLRDHUP) \<noteq> 0
      then handleRead rd (user_callback k prog) c' else Some c') = Some c2 \<and> conn_inv c2"
    using handleRead_closed(1) [OF c'(2), of rd k prog] b c'(2) True assms(2) by (auto simp: input_bits closes_twice_def)
  then obtain c2 where c2: "(if revents AND (EPOLLIN OR EPOLLPRI OR EPOLLRDHUP) \<noteq> 0
      then handleRead rd (user_callback k prog) c' else Some c') = Some c2" "conn_inv c2" by blast
  with True c'(1) handleWrite_open [of c2 k] show ?thesis
    by (auto simp: tcp_handleEvent_def handleEventWithGuard_def handleError_def)
next
  case False
  obtain c' where "handleRead rd (user_callback k prog) c = Some c'" "conn_inv c'"
    using handleRead_open [OF assms(1) watched_open [OF assms(1)], of rd k prog] assms(2) by auto
  with False handleWrite_open [of c k] handleWrite_open [of c' k] assms(1) show ?thesis
    by (auto simp: tcp_handleEvent_def handleEventWithGuard_def handleError_def)
qed

lemma sendInLoop_inv:
  assumes "conn_inv c" and "tc_state c \<noteq> kConnecting"
  shows "conn_inv (sendInLoop k m c)"
  using assms sendInLoop_open [of c k m] by (cases "tc_state c") (auto simp: sendInLoop_def)

lemma run_task_inv:
  assumes "conn_inv c" and "tc_tasks c = t # ts"
  shows "\<exists>c'. run_task k t (c\<lparr>tc_tasks := ts\<rparr>) = Some c' \<and> conn_inv c'"
proof -
  have inv: "conn_inv (c\<lparr>tc_tasks := ts\<rparr>)" and st: "tc_state (c\<lparr>tc_tasks := ts\<rparr>) \<noteq> kConnecting"
    using assms by (auto simp: conn_inv_def life_calls_def)
  then show ?thesis
    using sendInLoop_inv [OF inv st, of k] handleClose_open [OF inv]
    by (cases t) (auto simp: run_task_def forceCloseInLoop_def)
qed

lemma connectDestroyed_total:
  assumes "conn_inv c"
  shows "connectDestroyed c = None \<longleftrightarrow> tc_state c = kDisconnecting"
  using assms disableAll_effect [of "tc_channel c"]
  by (cases "tc_state c") (auto simp: connectDestroyed_def conn_inv_def conn_defs channel_remove_def
      removeChannel_def isNoneEvent_def kNoneEvent_def isReading_def Let_def split: prod.splits)

lemma conn_step_inv:
  assumes "conn_inv c" and "event_ok ev c"
  shows "\<exists>c'. conn_step k prog ev c = Some c' \<and> conn_inv c'"
proof (cases ev)
  case Established
  with assms obtain c' where "connectEstablished c = Some c'" by (auto simp: connectEstablished_def Let_def)
  with Established assms(1) connectEstablished_inv show ?thesis by auto
next
  case (IO revents rd)
  with assms tcp_handleEvent_inv show ?thesis by simp
next
  case Task
  with assms(1) run_task_inv show ?thesis by (auto split: list.splits)
next
  case Destroyed
  with assms connectDestroyed_total [of c] obtain c' where "connectDestroyed c = Some c'" by force
  with Destroyed assms connectDestroyed_inv [of c c'] show ?thesis by auto
qed (use assms(1) in \<open>simp_all add: tcp_send_inv tcp_shutdown_inv tcp_forceClose_inv\<close>)

lemma reachable_inv: "tcp_reachable k prog c \<Longrightarrow> conn_inv c"
proof (induction rule: tcp_reachable.induct)
  case (start p fd wc P)
  show ?case by (rule newTcpConnection_inv)
next
  case (step c ev c')
  with conn_step_inv [of c ev k prog] show ?case by force
qed

subsection \<open>What every step keeps\<close>

text \<open>A property of connections that the operations keep one by one is kept by every step but the last.\<close>

locale conn_property =
  fixes P :: "tcp_connection \<Rightarrow> bool"
  assumes keeps_send: "P c \<Longrightarrow> P (tcp_send k b m c)"
    and keeps_shutdown: "P c \<Longrightarrow> P (tcp_shutdown b c)"
    and keeps_forceClose: "P c \<Longrightarrow> P (tcp_forceClose c)"
    and keeps_input: "P c \<Longrightarrow> P (c\<lparr>tc_input := inp\<rparr>)"
    and keeps_closing: "P c \<Longrightarrow> P (c\<lparr>tc_state := kDisconnecting\<rparr>)"
    and keeps_write: "P c \<Longrightarrow> P (handleWrite k c)"
    and keeps_close: "P c \<Longrightarrow> handleClose c = Some c' \<Longrightarrow> P c'"
    and keeps_established: "P c \<Longrightarrow> connectEstablished c = Some c' \<Longrightarrow> P c'"
    and keeps_task: "P c \<Longrightarrow> tc_tasks c = t # ts \<Longrightarrow> run_task k t (c\<lparr>tc_tasks := ts\<rparr>) = Some c' \<Longrightarrow> P c'"
begin

lemma keeps_user: "P c \<Longrightarrow> P (user_callback k prog c)"
proof -
  have "P c \<Longrightarrow> P (fold (user_step k) as c)" for as c
  proof (induction as arbitrary: c)
    case (Cons a as)
    have "P (user_step k a c)"
      using Cons.prems by (cases a) (simp_all add: keeps_send keeps_shutdown keeps_forceClose keeps_input)
    then show ?case using Cons.IH by simp
  qed simp
  then show "P c \<Longrightarrow> P (user_callback k prog c)" by (simp add: user_callback_def)
qed

lemma keeps_read:
  assumes "P c" and "handleRead rd (user_callback k prog) c = Some c'"
  shows "P c'"
proof -
  obtain n e inp where r: "readCore rd (tc_input c) = (n, e, inp)" by (cases "readCore rd (tc_input c)")
  have "P (c\<lparr>tc_input := inp\<rparr>)" using assms(1) by (rule keeps_input)
  with keeps_user [OF this] keeps_close [OF this] keeps_closing [OF this] assms(2) r show ?thesis
    by (auto simp: handleRead_def Let_def split: if_splits)
qed

lemma keeps_event:
  assumes "P c" and "tcp_handleEvent k rd (user_callback k prog) revents c = Some c'"
  shows "P c'"
proof -
  obtain c1 c2 where 1: "(if revents AND EPOLLHUP \<noteq> 0 \<and> revents AND EPOLLIN = 0 then handleClose c else Some c) = Some c1"
    and 2: "(if revents AND (EPOLLIN OR EPOLLPRI OR EPOLLRDHUP) \<noteq> 0 then handleRead rd (user_callback k prog) c1 else Some c1) = Some c2"
    and 3: "c' = (if revents AND EPOLLOUT \<noteq> 0 then handleWrite k c2 else c2)"
    using assms(2) by (auto simp: tcp_handleEvent_def handleEventWithGuard_def handleError_def bind_eq_Some_conv
      simp del: bit.conj_disj_distrib split: if_splits)
  have "P c1" using 1 assms(1) keeps_close by (auto split: if_splits)
  then have "P c2" using 2 keeps_read by (auto split: if_splits)
  then show ?thesis using 3 keeps_write by simp
qed

lemma keeps_step:
  assumes "P c" and "conn_step k prog ev c = Some c'" and "ev \<noteq> Destroyed"
  shows "P c'"
proof (cases ev)
  case (IO revents rd)
  with assms keeps_event show ?thesis by simp
next
  case Task
  with assms keeps_task [OF assms(1)] show ?thesis by (auto split: list.splits)
qed (use assms keeps_established keeps_send keeps_shutdown keeps_forceClose in auto)

end

subsection \<open>Closing is told, and ends in a connection that can be destroyed\<close>

text \<open>A connection that was established is closed only together with its close callback.\<close>

definition close_told :: "tcp_connection \<Rightarrow> bool" where
  "close_told c \<longleftrightarrow> tc_state c \<noteq> kConnecting \<and> (tc_state c = kDisconnected \<longrightarrow> CloseCallback \<in> set (tc_calls c))"

text \<open>A connection that is not closing has its write side open, and no shutdown is queued.\<close>

definition write_open :: "tcp_connection \<Rightarrow> bool" where
  "write_open c \<longleftrightarrow> (tc_state c \<in> {kConnecting, kConnected} \<longrightarrow> \<not> tc_shut c \<and> ShutdownInLoop \<notin> set (tc_tasks c))"

lemma on_channel_same:
  "tc_calls (on_channel f c) = tc_calls c" "tc_shut (on_channel f c) = tc_shut c"
  by (simp_all add: on_channel_def split: prod.splits)

lemma sendInLoop_same:
  "tc_state (sendInLoop k m c) = tc_state c" "tc_calls (sendInLoop k m c) = tc_calls c" "tc_shut (sendInLoop k m c) = tc_shut c"
  "set (tc_tasks (sendInLoop k m c)) \<subseteq> insert WriteComplete (set (tc_tasks c))"
  by (auto simp: sendInLoop_def queueInLoop_def on_channel_same Let_def split: prod.splits sum.splits if_splits)

lemma handleClose_same:
  "handleClose c = Some c' \<Longrightarrow> tc_calls c' = tc_calls c @ [ConnectionCallback False, CloseCallback] \<and> tc_state c' = kDisconnected"
  by (auto simp: handleClose_def run_callback_def on_channel_same split: if_splits)

lemma handleWrite_same:
  "tc_state (handleWrite k c) = tc_state c" "tc_tasks (handleWrite k c) = tc_tasks c"
  "\<exists>more. tc_calls (handleWrite k c) = tc_calls c @ more"
  "tc_state c \<noteq> kDisconnecting \<Longrightarrow> tc_shut (handleWrite k c) = tc_shut c"
  by (auto simp: handleWrite_def shutdownInLoop_def run_callback_def on_channel_same Let_def split: prod.splits)

lemma connectEstablished_same:
  "connectEstablished c = Some c' \<Longrightarrow> tc_state c = kConnecting \<and> tc_state c' = kConnected
     \<and> tc_calls c' = tc_calls c @ [ConnectionCallback True] \<and> tc_shut c' = tc_shut c \<and> tc_tasks c' = tc_tasks c"
  by (auto simp: connectEstablished_def run_callback_def on_channel_same Let_def split: if_splits)

interpretation told: conn_property close_told
proof unfold_locales
  fix c k
  assume "close_told c"
  then show "close_told (handleWrite k c)"
    using handleWrite_same(3) [of k c] by (auto simp: close_told_def handleWrite_same(1))
next
  fix c t ts k c'
  assume "close_told c" "run_task k t (c\<lparr>tc_tasks := ts\<rparr>) = Some c'"
  then show "close_told c'"
    using handleClose_same [of "c\<lparr>tc_tasks := ts\<rparr>" c']
    by (cases t) (auto simp: run_task_def forceCloseInLoop_def shutdownInLoop_def close_told_def sendInLoop_same run_callback_def
        split: if_splits)
qed (auto simp: close_told_def tcp_send_def tcp_shutdown_def tcp_forceClose_def queueInLoop_def sendInLoop_same Let_def
    dest: handleClose_same connectEstablished_same)

interpretation unshut: conn_property write_open
proof unfold_locales
  fix c k b m
  assume "write_open c"
  then show "write_open (tcp_send k b m c)"
    using sendInLoop_same(4) [of k m c] by (auto simp: write_open_def tcp_send_def queueInLoop_def sendInLoop_same(1-3))
next
  fix c t ts k c'
  assume "write_open c" "tc_tasks c = t # ts" "run_task k t (c\<lparr>tc_tasks := ts\<rparr>) = Some c'"
  then show "write_open c'"
    using handleClose_same [of "c\<lparr>tc_tasks := ts\<rparr>" c'] sendInLoop_same(4) [of k _ "c\<lparr>tc_tasks := ts\<rparr>"]
    by (cases t) (auto simp: run_task_def forceCloseInLoop_def shutdownInLoop_def write_open_def sendInLoop_same(1-3) run_callback_def
        split: if_splits)
qed (auto simp: write_open_def tcp_shutdown_def tcp_forceClose_def queueInLoop_def handleWrite_same Let_def
    dest: handleClose_same connectEstablished_same)

text \<open>The callbacks run so far are never forgotten.\<close>

interpretation calls: conn_property "\<lambda>c. \<exists>more. tc_calls c = base @ more" for base
proof unfold_locales
  fix c :: tcp_connection and k
  assume "\<exists>more. tc_calls c = base @ more"
  then show "\<exists>more. tc_calls (handleWrite k c) = base @ more" using handleWrite_same(3) [of k c] by auto
next
  fix c :: tcp_connection and t ts k c'
  assume "\<exists>more. tc_calls c = base @ more" "run_task k t (c\<lparr>tc_tasks := ts\<rparr>) = Some c'"
  then show "\<exists>more. tc_calls c' = base @ more"
    using handleClose_same [of "c\<lparr>tc_tasks := ts\<rparr>" c']
    by (cases t) (auto simp: run_task_def forceCloseInLoop_def shutdownInLoop_def sendInLoop_same run_callback_def split: if_splits)
qed (auto simp: tcp_send_def tcp_shutdown_def shutdownInLoop_def tcp_forceClose_def queueInLoop_def sendInLoop_same Let_def
    dest: handleClose_same connectEstablished_same)

lemma reachable_write_open: "tcp_reachable k prog c \<Longrightarrow> write_open c"
proof (induction rule: tcp_reachable.induct)
  case (start p fd wc P)
  show ?case by (simp add: write_open_def newTcpConnection_def)
next
  case (step c ev c')
  show ?case
  proof (cases "ev = Destroyed")
    case True
    with step show ?thesis
      by (auto simp: write_open_def connectDestroyed_def run_callback_def on_channel_same Let_def split: if_splits option.splits prod.splits)
  qed (use step unshut.keeps_step in blast)
qed

definition conn_open :: "tcp_connection \<Rightarrow> bool" where
  "conn_open c \<longleftrightarrow> conn_inv c \<and> close_told c \<and> tc_state c \<in> {kConnected, kDisconnecting}"

definition conn_closed :: "tcp_connection \<Rightarrow> bool" where
  "conn_closed c \<longleftrightarrow> conn_inv c \<and> tc_state c = kDisconnected"

lemma open_not_told: "conn_open c \<Longrightarrow> CloseCallback \<notin> set (tc_calls c)"
proof
  assume "conn_open c" and "CloseCallback \<in> set (tc_calls c)"
  then have "CloseCallback \<in> set (life_calls c)" "life_calls c = [ConnectionCallback True]"
    by (auto simp: conn_open_def conn_inv_def life_calls_def)
  then show False by simp
qed

lemma told_closed:
  assumes "conn_inv c" and "CloseCallback \<in> set (tc_calls c)"
  shows "tc_state c = kDisconnected"
proof -
  have "CloseCallback \<in> set (life_calls c)" using assms(2) by (simp add: life_calls_def)
  with assms(1) show ?thesis by (cases "tc_state c") (auto simp: conn_inv_def)
qed

text \<open>A step of an open connection keeps it open or closes it and says so.\<close>

lemma conn_step_kept:
  assumes "conn_open c" and "event_ok ev c" and "ev \<noteq> Established" and "ev \<noteq> Destroyed"
  shows "\<exists>c'. conn_step k prog ev c = Some c' \<and> (if CloseCallback \<in> set (tc_calls c') then conn_closed c' else conn_open c')"
proof -
  obtain c' where c': "conn_step k prog ev c = Some c'" "conn_inv c'"
    using conn_step_inv [OF _ assms(2), of k prog] assms(1) by (auto simp: conn_open_def)
  have t: "close_told c'" using told.keeps_step [OF _ c'(1) assms(4)] assms(1) by (simp add: conn_open_def)
  with c' told_closed [OF c'(2)] show ?thesis
    by (cases "tc_state c'") (auto simp: conn_open_def conn_closed_def close_told_def)
qed

text \<open>The assertions of \<open>~TcpConnection\<close> and \<open>~Channel\<close>; that no dispatch is going on, the third of
  them, holds wherever the last reference is dropped by a functor or by the client's destructor.\<close>

definition connection_destructible :: "tcp_connection \<Rightarrow> bool" where
  "connection_destructible c \<longleftrightarrow>
     tc_state c = kDisconnected \<and> \<not> ch_addedToLoop (tc_channel c)"

lemma destroy_closed:
  assumes "conn_closed c"
  shows "\<exists>c'. connectDestroyed c = Some c' \<and> connection_destructible c'"
  using assms
  by (auto simp: conn_closed_def conn_inv_def connectDestroyed_def channel_remove_def isNoneEvent_def kNoneEvent_def removeChannel_def
    connection_destructible_def Let_def)

lemma disableAll_channel:
  "ch_addedToLoop (fst (disableAll ch P))" "ch_events (fst (disableAll ch P)) = 0"
  by (simp_all add: disableAll_def channel_update_def updateChannel_def kNoneEvent_def Let_def)

lemma destroy_open:
  assumes "tc_state c = kConnected"
  shows "\<exists>c'. connectDestroyed c = Some c' \<and> connection_destructible c'"
proof (cases "disableAll (tc_channel c) (tc_poller c)")
  case (Pair ch P)
  then have "ch_events ch = 0" using disableAll_channel(2) [of "tc_channel c" "tc_poller c"] by simp
  with assms Pair show ?thesis
    by (simp add: connectDestroyed_def on_channel_def run_callback_def channel_remove_def isNoneEvent_def kNoneEvent_def
      removeChannel_def connection_destructible_def Let_def)
qed

lemma established_open: "\<exists>c. connectEstablished (newTcpConnection p fd wc P) = Some c \<and> conn_open c"
proof -
  obtain c where c: "connectEstablished (newTcpConnection p fd wc P) = Some c"
    by (simp add: connectEstablished_def newTcpConnection_def Let_def)
  have "conn_inv c" using connectEstablished_inv [OF newTcpConnection_inv c] .
  moreover have "tc_state c = kConnected"
    using c by (auto simp: connectEstablished_def Let_def run_callback_def on_channel_same split: if_splits)
  ultimately show ?thesis using c by (auto simp: conn_open_def close_told_def)
qed

subsection \<open>The output is a byte stream\<close>

text \<open>Sending from the loop thread and writable events, each with the bytes that entered the
  connection and the bytes the kernel took.\<close>

datatype out_op = OutSend bytes | OutWritable

fun out_next :: "kernel \<Rightarrow> out_op \<Rightarrow> tcp_connection \<Rightarrow> tcp_connection" where
  "out_next k (OutSend m) c = tcp_send k True m c"
| "out_next k OutWritable c = handleWrite k c"

fun out_message :: "out_op \<Rightarrow> bytes" where
  "out_message (OutSend m) = m"
| "out_message OutWritable = []"

definition out_step :: "kernel \<Rightarrow> out_op \<Rightarrow> tcp_connection \<Rightarrow> bytes \<times> bytes \<times> tcp_connection" where
  "out_step k a c =
     (out_message a, drop (length (tc_wire c)) (tc_wire (out_next k a c)), out_next k a c)"

lemma wire_grows: "\<exists>w. tc_wire (out_next k a c) = tc_wire c @ w"
proof (cases a)
  case (OutSend m)
  then show ?thesis
    by (auto simp: tcp_send_def sendInLoop_def queueInLoop_def on_channel_def Let_def
        split: sum.splits prod.splits if_splits)
next
  case OutWritable
  then show ?thesis
    by (auto simp: handleWrite_def shutdownInLoop_def run_callback_def on_channel_def Let_def
        split: prod.splits if_splits)
qed

lemma out_next_open:
  assumes "conn_inv c" and "tcp_connected c" and "peer_alive k"
  shows "conn_inv (out_next k a c) \<and> tcp_connected (out_next k a c)
    \<and> outbox (out_next k a c) = outbox c @ out_message a"
  using assms tcp.send_invar [of c k] tcp.send_connected [of c k] tcp.send_outbox [of k c]
    handleWrite_open [of c k]
  by (cases a) (auto simp: tcp_ops_def tcp_connected_def)

interpretation tcpout: byte_stream "\<lambda>c. contents (tc_output c)" "\<lambda>c. conn_inv c \<and> tcp_connected c"
  "\<lambda>_. peer_alive k" "out_step k" for k
proof unfold_locales
  fix c a i out c'
  assume c: "conn_inv c \<and> tcp_connected c" "peer_alive k" "out_step k a c = (i, out, c')"
  with out_next_open [of c k a] show "conn_inv c' \<and> tcp_connected c'" by (auto simp: out_step_def)
  from wire_grows [of k a c] obtain w where "tc_wire (out_next k a c) = tc_wire c @ w" ..
  with c out_next_open [of c k a] show "contents (tc_output c) @ i = out @ contents (tc_output c')"
    by (auto simp: out_step_def outbox_def)
qed

lemma out_run_wire:
  "stream_run (out_step k) as c = (is, outs, c') \<Longrightarrow>
     is = concat (map out_message as) \<and> c' = fold (out_next k) as c \<and> tc_wire c' = tc_wire c @ outs"
proof (induction as arbitrary: c "is" outs c')
  case (Cons a as)
  obtain w where w: "tc_wire (out_next k a c) = tc_wire c @ w" using wire_grows by blast
  obtain is1 outs1 where "stream_run (out_step k) as (out_next k a c) = (is1, outs1, c')"
    and "is = out_message a @ is1" "outs = w @ outs1"
    using Cons.prems w by (auto simp: out_step_def [of k a c] split: prod.splits)
  with Cons.IH [of "out_next k a c"] w show ?case by auto
qed simp

subsection \<open>Draining\<close>

definition kernel_progress :: "kernel \<Rightarrow> bool" where
  "kernel_progress k \<longleftrightarrow> (\<forall>i. \<exists>n. k i = Inr (Suc n))"

lemma handleWrite_progress:
  assumes "conn_inv c" and "kernel_progress k" and "tc_state c = kDisconnecting"
    and "contents (tc_output c) \<noteq> []"
  shows "length (contents (tc_output (handleWrite k c))) < length (contents (tc_output c))"
proof -
  have w: "isWriting (tc_channel c)" and r: "isReading (tc_channel c)" "ch_index (tc_channel c) = 1"
    and bi: "buffer_inv (tc_output c)" using assms by (auto simp: conn_inv_def)
  obtain n where "k (tc_writes c) = Inr (Suc n)" using assms(2) by (auto simp: kernel_progress_def)
  then have k: "kernel_write k (tc_writes c) (contents (tc_output c))
      = Inr (min (Suc n) (length (contents (tc_output c))))" (is "_ = Inr ?n")
    by (simp add: kernel_write_def)
  have out: "contents (retrieve ?n (tc_output c)) = drop ?n (contents (tc_output c))"
    "buffer_inv (retrieve ?n (tc_output c))" using bi by (simp_all add: buffer_simps)
  have rb: "readableBytes (retrieve ?n (tc_output c)) = length (contents (tc_output c)) - ?n"
    using length_contents [OF out(2)] out(1) by simp
  obtain ch P where d: "disableWriting (tc_channel c) (tc_poller c) = (ch, P)" by fastforce
  note nw = disableWriting_effect [OF r(2,1) d]
  show ?thesis
    using w k out rb assms(3,4) nw d
    by (auto simp: handleWrite_def buffer_simps Let_def on_channel_def run_callback_def
        shutdownInLoop_def min_def split: if_splits)
qed

text \<open>While a closing connection is drained, its write side is shut exactly when nothing is left.\<close>

lemma handleWrite_shut:
  assumes "conn_inv c" and "tc_state c = kDisconnecting" and "tc_shut c \<longleftrightarrow> contents (tc_output c) = []"
  shows "tc_shut (handleWrite k c) \<longleftrightarrow> contents (tc_output (handleWrite k c)) = []"
proof (cases "isWriting (tc_channel c)")
  case False
  then show ?thesis using assms(3) by (simp add: handleWrite_def)
next
  case True
  have r: "isReading (tc_channel c)" "ch_index (tc_channel c) = 1" and bi: "buffer_inv (tc_output c)"
    and ne: "contents (tc_output c) \<noteq> []" using assms(1,2) True by (auto simp: conn_inv_def)
  obtain ch P where d: "disableWriting (tc_channel c) (tc_poller c) = (ch, P)" by fastforce
  note nw = disableWriting_effect [OF r(2,1) d]
  show ?thesis
  proof (cases "kernel_write k (tc_writes c) (contents (tc_output c))")
    case (Inl e)
    with True assms(3) show ?thesis by (simp add: handleWrite_def buffer_simps)
  next
    case (Inr n)
    have out: "buffer_inv (retrieve n (tc_output c))" using bi by (simp add: buffer_simps)
    have e: "readableBytes (retrieve n (tc_output c)) = 0 \<longleftrightarrow> contents (retrieve n (tc_output c)) = []"
      by (rule readable_contents [OF out])
    have "n = 0 \<Longrightarrow> contents (retrieve n (tc_output c)) \<noteq> []" using ne bi by (simp add: buffer_simps)
    with True Inr assms(2,3) ne nw d e show ?thesis
      by (auto simp: handleWrite_def writeCore_Inr Let_def on_channel_def run_callback_def shutdownInLoop_def)
  qed
qed

lemma drain_steps:
  assumes "conn_inv c" and "tc_state c = kDisconnecting" and "tc_shut c \<longleftrightarrow> contents (tc_output c) = []"
  shows "conn_inv ((handleWrite k ^^ m) c) \<and> tc_state ((handleWrite k ^^ m) c) = kDisconnecting
    \<and> outbox ((handleWrite k ^^ m) c) = outbox c
    \<and> (tc_shut ((handleWrite k ^^ m) c) \<longleftrightarrow> contents (tc_output ((handleWrite k ^^ m) c)) = [])"
proof (induction m)
  case 0
  then show ?case using assms by simp
next
  case (Suc m)
  with handleWrite_open [of "(handleWrite k ^^ m) c" k] handleWrite_shut [of "(handleWrite k ^^ m) c" k] show ?case by simp
qed

lemma drain_all:
  assumes "conn_inv c" and "kernel_progress k" and "tc_state c = kDisconnecting"
    and "tc_shut c \<longleftrightarrow> contents (tc_output c) = []"
  shows "length (contents (tc_output ((handleWrite k ^^ m) c))) \<le> length (contents (tc_output c)) - m"
proof (induction m)
  case (Suc m)
  let ?c = "(handleWrite k ^^ m) c"
  note s = drain_steps [OF assms(1,3,4), where k = k and m = m]
  show ?case
  proof (cases "contents (tc_output ?c) = []")
    case True
    with s open_inv [of ?c] have "\<not> isWriting (tc_channel ?c)" by auto
    then have "handleWrite k ?c = ?c" by (simp add: handleWrite_def [of k ?c])
    with True show ?thesis by simp
  next
    case False
    with handleWrite_progress [OF _ assms(2) _ False] s
    have "length (contents (tc_output (handleWrite k ?c))) < length (contents (tc_output ?c))" by blast
    with Suc show ?thesis by simp
  qed
qed simp

lemma shutdown_state:
  assumes "conn_inv c" and "tcp_connected c" and "write_open c"
  shows "tc_state (tcp_shutdown True c) = kDisconnecting"
    and "contents (tc_output (tcp_shutdown True c)) = contents (tc_output c)"
    and "tc_shut (tcp_shutdown True c) \<longleftrightarrow> contents (tc_output (tcp_shutdown True c)) = []"
  using assms by (auto simp: tcp_shutdown_def tcp_connected_def shutdownInLoop_def Let_def conn_inv_def write_open_def)

subsection \<open>Properties\<close>

text \<open>C7: what is sent arrives in order. On an open connection, through any interleaving of sends
  and writable events, with partial writes and back-pressure at any point, the bytes the kernel
  has taken followed by the bytes still queued are exactly what was there before followed by
  the messages in the order they were sent: nothing is lost, duplicated or reordered.\<close>

theorem tcp_output_in_order:
  assumes "tcp_reachable k prog c" and "tcp_connected c" and "peer_alive k"
  shows "let c' = fold (out_next k) ops c in
    tc_wire c' @ contents (tc_output c')
      = tc_wire c @ contents (tc_output c) @ concat (map out_message ops)
    \<and> (\<exists>w. tc_wire c' = tc_wire c @ w)"
proof -
  obtain "is" outs c1 where r: "stream_run (out_step k) ops c = (is, outs, c1)"
    by (cases "stream_run (out_step k) ops c")
  from tcpout.run_stream [OF _ _ r] reachable_inv [OF assms(1)] assms(2,3)
  have "contents (tc_output c) @ is = outs @ contents (tc_output c1)" by simp
  with out_run_wire [OF r] show ?thesis by (auto simp: Let_def)
qed

definition sample_connection :: tcp_connection where
  "sample_connection = the (connectEstablished (newTcpConnection 1 7 False newPoller))"

lemma sample_reachable:
  "tcp_reachable k prog sample_connection" "tcp_connected sample_connection"
  "contents (tc_output sample_connection) = []" "tc_wire sample_connection = []"
proof -
  have e: "connectEstablished (newTcpConnection 1 7 False newPoller) = Some sample_connection"
    by (simp add: sample_connection_def connectEstablished_def newTcpConnection_def Let_def)
  then show "tcp_reachable k prog sample_connection"
    by (intro tcp_reachable.step [OF tcp_reachable.start, where ev = Established])
      (simp_all add: newTcpConnection_def)
  show "tcp_connected sample_connection" "contents (tc_output sample_connection) = []"
    "tc_wire sample_connection = []"
    by (simp_all add: sample_connection_def connectEstablished_def newTcpConnection_def conn_defs
        Let_def buffer_simps split: prod.splits)
qed

lemma sample_sends: "tc_wire (tcp_send (\<lambda>_. Inr 1) True (ascii ''abc'') sample_connection) = ascii ''a''"
proof -
  have "\<not> isWriting (tc_channel sample_connection) \<and> readableBytes (tc_output sample_connection) = 0"
    using reachable_inv [OF sample_reachable(1)] sample_reachable(2,3) readable_contents
    by (auto simp: conn_inv_def tcp_connected_def)
  with sample_reachable(2,4) show ?thesis
    by (simp add: tcp_send_def tcp_connected_def sendInLoop_def kernel_write_def on_channel_def queueInLoop_def Let_def
        split: prod.splits)
qed

theorem tcp_output_in_order_witness:
  "let c' = fold (out_next (\<lambda>i. if i = 1 then Inl EAGAIN else Inr 3))
       [OutSend (ascii ''hello''), OutWritable, OutSend (ascii '' world''), OutWritable] sample_connection
   in tc_wire c' @ contents (tc_output c') = ascii ''hello world''"
proof -
  have "peer_alive (\<lambda>i. if i = 1 then Inl EAGAIN else Inr 3)"
    by (auto simp: peer_alive_def EAGAIN_def EPIPE_def ECONNRESET_def)
  from tcp_output_in_order [OF sample_reachable(1,2) this,
      of "[OutSend (ascii ''hello''), OutWritable, OutSend (ascii '' world''), OutWritable]"]
  show ?thesis by (simp add: sample_reachable Let_def)
qed

text \<open>C33: an orderly shutdown loses nothing. After \<open>shutdown\<close> on an open connection and any number of
  writable events, what is on the wire and what is still queued are together what was accepted before, and
  the write side is shut exactly when nothing is queued: never before the last byte is on the wire. As long
  as the kernel takes at least one byte per writable event, as many events as there are queued bytes are
  enough to get there.\<close>

theorem tcp_shutdown_flushes:
  assumes "tcp_reachable k prog c" and "tcp_connected c"
  shows "let c' = (handleWrite k ^^ m) (tcp_shutdown True c) in
    tc_wire c' @ contents (tc_output c') = tc_wire c @ contents (tc_output c)
    \<and> (tc_shut c' \<longleftrightarrow> contents (tc_output c') = [])
    \<and> (kernel_progress k \<and> length (contents (tc_output c)) \<le> m \<longrightarrow> tc_shut c' \<and> contents (tc_output c') = [])"
proof -
  note inv = reachable_inv [OF assms(1)]
  note s = shutdown_state [OF inv assms(2) reachable_write_open [OF assms(1)]]
  have "outbox (tcp_shutdown True c) = outbox c"
    using tcp.shutdown_outbox [OF inv] by (simp add: tcp_ops_def)
  with drain_steps [OF tcp_shutdown_inv [OF inv] s(1,3), where k = k and m = m]
    drain_all [OF tcp_shutdown_inv [OF inv] _ s(1,3), where k = k and m = m] s(2)
  show ?thesis by (auto simp: Let_def outbox_def)
qed

theorem tcp_shutdown_flushes_witness:
  "\<exists>c. tcp_connected c \<and> contents (tc_output c) \<noteq> [] \<and> \<not> tc_shut (tcp_shutdown True c)
     \<and> tc_wire ((handleWrite (\<lambda>_. Inr 1) ^^ 3) (tcp_shutdown True c)) = ascii ''abc''
     \<and> tc_shut ((handleWrite (\<lambda>_. Inr 1) ^^ 3) (tcp_shutdown True c))"
proof -
  let ?k = "\<lambda>_. Inr 1 :: errno + nat"
  define c where "c = tcp_send ?k True (ascii ''abc'') sample_connection"
  have r: "tcp_reachable ?k (\<lambda>_. []) c"
    by (rule tcp_reachable.step [OF sample_reachable(1), where ev = "Send True (ascii ''abc'')"]) (simp_all add: c_def)
  have "outbox c = ascii ''abc''" and c: "tcp_connected c"
    using tcp.send_outbox [of ?k sample_connection] tcp.send_connected [of sample_connection ?k]
      reachable_inv [OF sample_reachable(1)] sample_reachable(2-)
    by (simp_all add: tcp_ops_def peer_alive_def outbox_def c_def)
  moreover have "tc_wire c = ascii ''a''" unfolding c_def by (rule sample_sends)
  ultimately have o: "tc_wire c = ascii ''a''" "contents (tc_output c) = ascii ''bc''" by (simp_all add: outbox_def)
  have "kernel_progress ?k" by (simp add: kernel_progress_def)
  with tcp_shutdown_flushes [OF r c, where m = 3] o have
    "tc_wire ((handleWrite ?k ^^ 3) (tcp_shutdown True c)) = ascii ''abc''" "tc_shut ((handleWrite ?k ^^ 3) (tcp_shutdown True c))"
    by (auto simp: Let_def)
  moreover have "\<not> tc_shut (tcp_shutdown True c)"
    using tcp_shutdown_flushes [OF r c, where m = 0] shutdown_state(2) [OF reachable_inv [OF r] c reachable_write_open [OF r]] o
    by (simp add: Let_def)
  ultimately show ?thesis using c o by (intro exI [of _ c]) simp
qed



text \<open>C21: the user sees one life. In every state that a connection reaches without an event that closes it
  twice and without being destroyed half-closed, the connection and close callbacks run so far are a prefix
  of up, down, closed, with down reported exactly when the connection is closed; while it is open it is
  watched for reading, and for writing exactly when bytes are queued, so queued bytes are never forgotten.\<close>

theorem tcp_lifecycle:
  assumes "tcp_reachable k prog c"
  shows "(\<exists>rest. life_calls c @ rest = [ConnectionCallback True, ConnectionCallback False, CloseCallback])
    \<and> (tc_state c = kDisconnected \<longleftrightarrow> ConnectionCallback False \<in> set (tc_calls c))
    \<and> (ch_index (tc_channel c) = 1 \<longleftrightarrow> tc_state c \<in> {kConnected, kDisconnecting})
    \<and> (tc_state c \<in> {kConnected, kDisconnecting} \<longrightarrow>
         isReading (tc_channel c) \<and> (isWriting (tc_channel c) \<longleftrightarrow> contents (tc_output c) \<noteq> []))"
proof -
  have "ConnectionCallback False \<in> set (tc_calls c) \<longleftrightarrow> ConnectionCallback False \<in> set (life_calls c)"
    by (simp add: life_calls_def)
  with reachable_inv [OF assms] show ?thesis by (cases "tc_state c") (auto simp: conn_inv_def)
qed

theorem tcp_lifecycle_witness:
  "tc_state sample_connection = kDisconnected \<longleftrightarrow> ConnectionCallback False \<in> set (tc_calls sample_connection)"
  using tcp_lifecycle [OF sample_reachable(1)] by blast

text \<open>A half-closed connection cannot be destroyed. In every reachable state \<open>connectDestroyed\<close>
  runs into the assertion of \<open>Channel::remove\<close> exactly when the connection is in
  \<open>kDisconnecting\<close>: only \<open>kConnected\<close> disables the channel first.\<close>

theorem connectDestroyed_half_closed:
  assumes "tcp_reachable k prog c"
  shows "connectDestroyed c = None \<longleftrightarrow> tc_state c = kDisconnecting"
  by (rule connectDestroyed_total [OF reachable_inv [OF assms]])

theorem connectDestroyed_half_closed_witness:
  "connectDestroyed (tcp_forceClose sample_connection) = None"
proof -
  have "tcp_reachable (\<lambda>_. Inr 1) (\<lambda>_. []) (tcp_forceClose sample_connection)"
    by (rule tcp_reachable.step [OF sample_reachable(1), where ev = ForceClose]) simp_all
  from connectDestroyed_half_closed [OF this] sample_reachable(2) show ?thesis
    by (simp add: tcp_forceClose_def tcp_connected_def queueInLoop_def)
qed

end
