(* ===== verification/Connector.thy ===== *)
theory Connector
  imports Channel "HOL-Library.Multiset"
begin

unbundle bit_operations_syntax

section \<open>Connecting\<close>

text \<open>
  \<open>src/Connector.cpp\<close>: one non-blocking connect attempt per \<open>start\<close>. The calls of \<open>socket\<close>, \<open>connect\<close>,
  \<open>getsockopt\<close>, \<open>getsockname\<close> and \<open>getpeername\<close> are parameters. The callbacks are user code that may
  call \<open>start\<close> and \<open>stop\<close> before it returns; since these calls come last in every function of the
  class, what follows a callback is only the rest of the channel's dispatch.
\<close>

subsection \<open>State\<close>

datatype connector_state = CnDisconnected | CnConnecting | CnConnected | CnFailed

datatype connector_event = ConnectedFd fd | ConnectFailed errno | ClosedFd fd

definition EINTR :: errno where "EINTR = 4"
definition ECONNABORTED :: errno where "ECONNABORTED = 103"
definition EISCONN :: errno where "EISCONN = 106"
definition ETIMEDOUT :: errno where "ETIMEDOUT = 110"
definition ECONNREFUSED :: errno where "ECONNREFUSED = 111"
definition EINPROGRESS :: errno where "EINPROGRESS = 115"

text \<open>\<open>cn_timers\<close> are the deadlines armed in the loop's timer queue, \<open>cn_doomed\<close> the channels handed to
  queued functors, \<open>cn_aborted\<close> tells that an assertion failed. \<open>cn_attempts\<close>, \<open>cn_cancelled\<close>,
  \<open>cn_opened\<close> and \<open>cn_log\<close> record the attempts begun and stopped, the descriptors obtained from
  \<open>socket\<close>, and the callbacks run and descriptors closed.\<close>

record connector =
  cn_state :: connector_state
  cn_channel :: "channel option"
  cn_sockfd :: fd
  cn_timeoutId :: "nat option"
  cn_deadline :: bool
  cn_newConnectionCallback :: bool
  cn_connectErrorCallback :: bool
  cn_poller :: poller
  cn_timers :: "nat set"
  cn_doomed :: "channel list"
  cn_aborted :: bool
  cn_attempts :: nat
  cn_cancelled :: nat
  cn_opened :: "fd list"
  cn_log :: "connector_event list"

definition newConnector :: "bool \<Rightarrow> bool \<Rightarrow> bool \<Rightarrow> connector" where
  "newConnector deadline newCb errCb =
     \<lparr>cn_state = CnDisconnected, cn_channel = None, cn_sockfd = -1, cn_timeoutId = None, cn_deadline = deadline,
      cn_newConnectionCallback = newCb, cn_connectErrorCallback = errCb, cn_poller = newPoller, cn_timers = {},
      cn_doomed = [], cn_aborted = False, cn_attempts = 0, cn_cancelled = 0, cn_opened = [], cn_log = []\<rparr>"

text \<open>What user code does in a callback: start, with what the callback of that attempt does if it is
  called before \<open>start\<close> returns, or stop.\<close>

datatype connector_reaction = Reaction "connector_call list"
  and connector_call = StartCall connector_reaction | StopCall

text \<open>The kernel's answers to an attempt: \<open>socket\<close>, and the errno of \<open>connect\<close>, 0 for success.\<close>

type_synonym attempts = "nat \<Rightarrow> (errno + fd) \<times> errno"

text \<open>\<open>getsockname\<close> and \<open>getpeername\<close>: the two addresses, or nothing if one of them fails.\<close>

type_synonym sock_names = "fd \<Rightarrow> ((nat \<times> nat \<times> nat) \<times> (nat \<times> nat \<times> nat)) option"

subsection \<open>Cleaning up\<close>

definition cancelTimeout :: "connector \<Rightarrow> connector" where
  "cancelTimeout cn =
     (case cn_timeoutId cn of
        None \<Rightarrow> cn
      | Some i \<Rightarrow> cn\<lparr>cn_timers := cn_timers cn - {i}, cn_timeoutId := None\<rparr>)"

definition connector_removeChannel :: "connector \<Rightarrow> connector" where
  "connector_removeChannel cn =
     (case cn_channel cn of
        None \<Rightarrow> cn
      | Some ch \<Rightarrow>
          (case disableAll ch (cn_poller cn) of
             (ch1, P1) \<Rightarrow>
               (case channel_remove ch1 P1 of
                  None \<Rightarrow> cn\<lparr>cn_aborted := True\<rparr>
                | Some (ch2, P2) \<Rightarrow> cn\<lparr>cn_channel := None, cn_poller := P2, cn_doomed := cn_doomed cn @ [ch2]\<rparr>)))"

definition closeSockfd :: "connector \<Rightarrow> connector" where
  "closeSockfd cn =
     (if 0 \<le> cn_sockfd cn then cn\<lparr>cn_log := cn_log cn @ [ClosedFd (cn_sockfd cn)], cn_sockfd := -1\<rparr> else cn)"

definition destroyConnector :: "connector \<Rightarrow> connector" where
  "destroyConnector cn = closeSockfd (connector_removeChannel (cancelTimeout cn))"

definition stopInLoop :: "connector \<Rightarrow> connector" where
  "stopInLoop cn =
     (if cn_state cn = CnConnecting then
        closeSockfd (connector_removeChannel (cancelTimeout
          (cn\<lparr>cn_state := CnDisconnected, cn_cancelled := cn_cancelled cn + 1\<rparr>)))
      else if cn_state cn = CnFailed then cn\<lparr>cn_state := CnDisconnected\<rparr>
      else cn)"

text \<open>\<open>fail\<close> up to its callback.\<close>

definition fail_cleanup :: "errno \<Rightarrow> connector \<Rightarrow> connector" where
  "fail_cleanup savedErrno cn =
     (let cn1 = closeSockfd (connector_removeChannel (cancelTimeout (cn\<lparr>cn_state := CnFailed\<rparr>)))
      in cn1\<lparr>cn_log := cn_log cn1 @ [ConnectFailed savedErrno]\<rparr>)"

subsection \<open>An attempt\<close>

text \<open>The body of \<open>connect\<close>: the errno it fails with, if it does.\<close>

definition attempt :: "attempts \<Rightarrow> connector \<Rightarrow> errno option \<times> connector" where
  "attempt kern cn =
     (case kern (cn_attempts cn) of
        (Inl err, _) \<Rightarrow> (Some err, cn\<lparr>cn_attempts := cn_attempts cn + 1\<rparr>)
      | (Inr sockfd, savedErrno) \<Rightarrow>
          (let cn1 = cn\<lparr>cn_attempts := cn_attempts cn + 1, cn_sockfd := sockfd, cn_opened := cn_opened cn @ [sockfd]\<rparr>;
               ch = newChannel (cn_attempts cn) sockfd
           in if savedErrno \<in> {0, EINPROGRESS, EINTR, EISCONN} then
                (case enableWriting ch (cn_poller cn1) of
                   (ch1, P1) \<Rightarrow>
                     (let cn2 = cn1\<lparr>cn_channel := Some ch1, cn_poller := P1\<rparr>
                      in (None, if cn_deadline cn2
                                then cn2\<lparr>cn_timers := insert (cn_attempts cn) (cn_timers cn2),
                                         cn_timeoutId := Some (cn_attempts cn)\<rparr>
                                else cn2)))
              else (Some savedErrno, cn1\<lparr>cn_channel := Some ch\<rparr>)))"

function startInLoop :: "attempts \<Rightarrow> connector_reaction \<Rightarrow> connector \<Rightarrow> connector"
  and connector_connect :: "attempts \<Rightarrow> connector_reaction \<Rightarrow> connector \<Rightarrow> connector"
  and connector_fail :: "attempts \<Rightarrow> errno \<Rightarrow> connector_reaction \<Rightarrow> connector \<Rightarrow> connector"
  and connector_calls :: "attempts \<Rightarrow> connector_call list \<Rightarrow> connector \<Rightarrow> connector" where
  "startInLoop kern r cn =
     (if cn_state cn = CnConnecting \<or> cn_state cn = CnConnected then cn
      else connector_connect kern r (cn\<lparr>cn_state := CnConnecting\<rparr>))"
| "connector_connect kern r cn =
     (case attempt kern cn of
        (None, cn1) \<Rightarrow> cn1
      | (Some savedErrno, cn1) \<Rightarrow> connector_fail kern savedErrno r cn1)"
| "connector_fail kern savedErrno (Reaction calls) cn =
     (if cn_connectErrorCallback cn then connector_calls kern calls (fail_cleanup savedErrno cn)
      else fail_cleanup savedErrno cn)"
| "connector_calls kern [] cn = cn"
| "connector_calls kern (StartCall r # calls) cn = connector_calls kern calls (startInLoop kern r cn)"
| "connector_calls kern (StopCall # calls) cn = connector_calls kern calls (stopInLoop cn)"
  by pat_completeness auto
termination
  by (relation "measure (\<lambda>x. case x of
      Inl (Inl (_, r, _)) \<Rightarrow> 4 * size r + 3 | Inl (Inr (_, r, _)) \<Rightarrow> 4 * size r + 2
    | Inr (Inl (_, _, r, _)) \<Rightarrow> 4 * size r + 1 | Inr (Inr (_, cs, _)) \<Rightarrow> 4 * size_list size cs)") auto

declare startInLoop.simps [simp del] connector_connect.simps [simp del] connector_fail.simps [simp del]

subsection \<open>Events of the channel and the deadline\<close>

definition finishConnect :: "attempts \<Rightarrow> connector_reaction \<Rightarrow> connector \<Rightarrow> connector" where
  "finishConnect kern r cn =
     (let cn1 = connector_removeChannel (cancelTimeout cn);
          sockfd = cn_sockfd cn1;
          cn2 = cn1\<lparr>cn_sockfd := -1, cn_state := CnConnected\<rparr>
      in if cn_newConnectionCallback cn2
         then (case r of Reaction calls \<Rightarrow>
                 connector_calls kern calls (cn2\<lparr>cn_log := cn_log cn2 @ [ConnectedFd sockfd]\<rparr>))
         else cn2\<lparr>cn_log := cn_log cn2 @ [ClosedFd sockfd]\<rparr>)"

definition isSelfConnect :: "sock_names \<Rightarrow> connector \<Rightarrow> bool" where
  "isSelfConnect names cn =
     (case names (cn_sockfd cn) of None \<Rightarrow> False | Some (local, peer) \<Rightarrow> local = peer)"

text \<open>\<open>soerr\<close> is the answer to \<open>getsockopt(SO_ERROR)\<close>: the pending error, or the errno if the call fails.\<close>

definition connector_handleWrite ::
  "attempts \<Rightarrow> (fd \<Rightarrow> errno) \<Rightarrow> sock_names \<Rightarrow> connector_reaction \<Rightarrow> connector \<Rightarrow> connector" where
  "connector_handleWrite kern soerr names r cn =
     (if cn_state cn \<noteq> CnConnecting then cn
      else if soerr (cn_sockfd cn) \<noteq> 0 then connector_fail kern (soerr (cn_sockfd cn)) r cn
      else if isSelfConnect names cn then connector_fail kern ECONNREFUSED r cn
      else finishConnect kern r cn)"

definition connector_handleError :: "attempts \<Rightarrow> (fd \<Rightarrow> errno) \<Rightarrow> connector_reaction \<Rightarrow> connector \<Rightarrow> connector" where
  "connector_handleError kern soerr r cn =
     (if cn_state cn \<noteq> CnConnecting then cn
      else let err = soerr (cn_sockfd cn)
           in connector_fail kern (if err = 0 then ECONNABORTED else err) r cn)"

definition handleTimeout :: "attempts \<Rightarrow> connector_reaction \<Rightarrow> connector \<Rightarrow> connector" where
  "handleTimeout kern r cn =
     (if cn_state cn = CnConnecting then connector_fail kern ETIMEDOUT r cn else cn)"

text \<open>The dispatch of one event of the channel; only the error and write callbacks are set.\<close>

definition connector_dispatch ::
  "attempts \<Rightarrow> (fd \<Rightarrow> errno) \<Rightarrow> (fd \<Rightarrow> errno) \<Rightarrow> sock_names \<Rightarrow> connector_reaction \<Rightarrow> connector_reaction \<Rightarrow> u32 \<Rightarrow> connector \<Rightarrow> connector option" where
  "connector_dispatch kern soerr1 soerr2 names r1 r2 revents cn =
     handleEventWithGuard Some (Some \<circ> connector_handleError kern soerr1 r1) Some
       (Some \<circ> connector_handleWrite kern soerr2 names r2) revents cn"

subsection \<open>Invariant\<close>

fun closed_fds :: "connector_event list \<Rightarrow> fd list" where
  "closed_fds [] = []"
| "closed_fds (ClosedFd fd # es) = fd # closed_fds es"
| "closed_fds (_ # es) = closed_fds es"

fun connected_fds :: "connector_event list \<Rightarrow> fd list" where
  "connected_fds [] = []"
| "connected_fds (ConnectedFd fd # es) = fd # connected_fds es"
| "connected_fds (_ # es) = connected_fds es"

fun failures :: "connector_event list \<Rightarrow> errno list" where
  "failures [] = []"
| "failures (ConnectFailed e # es) = e # failures es"
| "failures (_ # es) = failures es"

lemma log_append [simp]:
  "closed_fds (es @ fs) = closed_fds es @ closed_fds fs" "connected_fds (es @ fs) = connected_fds es @ connected_fds fs"
  "failures (es @ fs) = failures es @ failures fs"
  by (induction es rule: closed_fds.induct) simp_all

definition held :: "connector \<Rightarrow> fd list" where
  "held cn = (if 0 \<le> cn_sockfd cn then [cn_sockfd cn] else [])"

text \<open>What holds at every point of the code: every descriptor is accounted for, every attempt but the
  one in flight has an outcome, and no assertion has failed.\<close>

definition connector_base :: "connector \<Rightarrow> bool" where
  "connector_base cn \<longleftrightarrow> \<not> cn_aborted cn \<and> cn_newConnectionCallback cn
     \<and> mset (cn_opened cn) = mset (closed_fds (cn_log cn)) + mset (connected_fds (cn_log cn)) + mset (held cn)
     \<and> 0 \<notin> set (failures (cn_log cn)) \<and> -1 \<le> cn_sockfd cn
     \<and> length (connected_fds (cn_log cn)) = (if cn_state cn = CnConnected then 1 else 0)
     \<and> cn_timers cn \<subseteq> set_option (cn_timeoutId cn)"

definition in_flight :: "connector \<Rightarrow> nat" where
  "in_flight cn = (if cn_state cn = CnConnecting then 1 else 0)"

definition outcomes :: "connector \<Rightarrow> nat" where
  "outcomes cn = length (connected_fds (cn_log cn)) + length (failures (cn_log cn)) + cn_cancelled cn"

text \<open>And between two calls: the descriptor, the channel and the deadline belong to the attempt in flight.\<close>

definition connector_inv :: "connector \<Rightarrow> bool" where
  "connector_inv cn \<longleftrightarrow> connector_base cn \<and> cn_attempts cn = outcomes cn + in_flight cn
     \<and> (if cn_state cn = CnConnecting then 0 \<le> cn_sockfd cn \<and> cn_channel cn \<noteq> None
        else cn_sockfd cn = -1 \<and> cn_channel cn = None \<and> cn_timeoutId cn = None)"

definition attempts_ok :: "attempts \<Rightarrow> bool" where
  "attempts_ok kern \<longleftrightarrow> (\<forall>n. case fst (kern n) of Inl err \<Rightarrow> err \<noteq> 0 | Inr fd \<Rightarrow> 0 \<le> fd)"

lemma remove_never_aborts: "channel_remove (fst (disableAll ch P)) P1 = Some (removeChannel (fst (disableAll ch P)\<lparr>ch_addedToLoop := False\<rparr>) P1)"
  by (simp add: channel_remove_def disableAll_def channel_update_def updateChannel_def isNoneEvent_def Let_def)

lemma removeChannel_same:
  "cn_state (connector_removeChannel cn) = cn_state cn" "cn_channel (connector_removeChannel cn) = None"
  "cn_sockfd (connector_removeChannel cn) = cn_sockfd cn" "cn_timeoutId (connector_removeChannel cn) = cn_timeoutId cn"
  "cn_aborted (connector_removeChannel cn) = cn_aborted cn" "cn_attempts (connector_removeChannel cn) = cn_attempts cn"
  "cn_cancelled (connector_removeChannel cn) = cn_cancelled cn" "cn_opened (connector_removeChannel cn) = cn_opened cn"
  "cn_log (connector_removeChannel cn) = cn_log cn" "cn_timers (connector_removeChannel cn) = cn_timers cn"
  "cn_newConnectionCallback (connector_removeChannel cn) = cn_newConnectionCallback cn"
  "cn_connectErrorCallback (connector_removeChannel cn) = cn_connectErrorCallback cn"
  using remove_never_aborts
  by (auto simp: connector_removeChannel_def split: option.splits prod.splits) (metis fst_conv option.distinct(1))+

lemma cancelTimeout_same:
  "cn_state (cancelTimeout cn) = cn_state cn" "cn_sockfd (cancelTimeout cn) = cn_sockfd cn"
  "cn_timeoutId (cancelTimeout cn) = None" "cn_aborted (cancelTimeout cn) = cn_aborted cn"
  "cn_attempts (cancelTimeout cn) = cn_attempts cn" "cn_cancelled (cancelTimeout cn) = cn_cancelled cn"
  "cn_opened (cancelTimeout cn) = cn_opened cn" "cn_log (cancelTimeout cn) = cn_log cn"
  "cn_newConnectionCallback (cancelTimeout cn) = cn_newConnectionCallback cn"
  "cn_connectErrorCallback (cancelTimeout cn) = cn_connectErrorCallback cn"
  "cn_timers (cancelTimeout cn) = cn_timers cn - set_option (cn_timeoutId cn)"
  by (auto simp: cancelTimeout_def split: option.splits)

lemmas cleanup_simps = removeChannel_same cancelTimeout_same

lemma fail_cleanup_inv:
  assumes "connector_base cn" and "cn_attempts cn = outcomes cn + 1" and "e \<noteq> 0" and "cn_state cn = CnConnecting"
  shows "connector_inv (fail_cleanup e cn)"
  using assms
  by (auto simp: fail_cleanup_def closeSockfd_def cleanup_simps connector_inv_def connector_base_def outcomes_def
    in_flight_def held_def Let_def)

lemma stopInLoop_inv: "connector_inv cn \<Longrightarrow> connector_inv (stopInLoop cn)"
  by (auto simp: stopInLoop_def closeSockfd_def cleanup_simps connector_inv_def connector_base_def outcomes_def
    in_flight_def held_def)

text \<open>\<open>connect\<close> starts with the state already set but nothing opened yet.\<close>

definition connector_begun :: "connector \<Rightarrow> bool" where
  "connector_begun cn \<longleftrightarrow> cn_state cn = CnConnecting \<and> connector_inv (cn\<lparr>cn_state := CnDisconnected\<rparr>)"

lemma connector_begins:
  "connector_inv cn \<Longrightarrow> cn_state cn \<noteq> CnConnecting \<Longrightarrow> cn_state cn \<noteq> CnConnected \<Longrightarrow>
     connector_begun (cn\<lparr>cn_state := CnConnecting\<rparr>)"
  by (auto simp: connector_begun_def connector_inv_def connector_base_def outcomes_def in_flight_def held_def)

lemma attempt_inv:
  assumes "connector_begun cn" and "attempts_ok kern" and "attempt kern cn = (res, cn1)"
  shows "case res of None \<Rightarrow> connector_inv cn1
    | Some e \<Rightarrow> e \<noteq> 0 \<and> connector_base cn1 \<and> cn_attempts cn1 = outcomes cn1 + 1 \<and> cn_state cn1 = CnConnecting"
proof -
  have k: "case fst (kern (cn_attempts cn)) of Inl err \<Rightarrow> err \<noteq> 0 | Inr fd \<Rightarrow> 0 \<le> fd"
    using assms(2) by (simp add: attempts_ok_def)
  show ?thesis using assms(1,3) k
    by (auto simp: attempt_def connector_begun_def connector_inv_def connector_base_def outcomes_def in_flight_def
      held_def Let_def split: sum.splits prod.splits if_splits)
qed

lemma connector_calls_inv:
  "attempts_ok kern \<Longrightarrow> connector_inv cn \<Longrightarrow> connector_inv (startInLoop kern r cn)"
  "attempts_ok kern \<Longrightarrow> connector_begun cn \<Longrightarrow> connector_inv (connector_connect kern r cn)"
  "attempts_ok kern \<Longrightarrow> connector_base cn \<Longrightarrow> cn_attempts cn = outcomes cn + 1 \<Longrightarrow> e \<noteq> 0 \<Longrightarrow>
     cn_state cn = CnConnecting \<Longrightarrow> connector_inv (connector_fail kern e r cn)"
  "attempts_ok kern \<Longrightarrow> connector_inv cn \<Longrightarrow> connector_inv (connector_calls kern calls cn)"
proof (induction kern r cn and kern r cn and kern e r cn and kern calls cn
    rule: startInLoop_connector_connect_connector_fail_connector_calls.induct)
  case (1 kern r cn)
  then show ?case by (simp add: startInLoop.simps [of kern r cn] connector_begins)
next
  case (2 kern r cn)
  obtain res cn1 where "attempt kern cn = (res, cn1)" by (cases "attempt kern cn")
  with 2 attempt_inv [OF 2(3,2)] show ?case
    by (cases res) (simp_all add: connector_connect.simps [of kern r cn])
next
  case (3 kern savedErrno calls cn)
  then show ?case by (simp add: connector_fail.simps fail_cleanup_inv)
qed (simp_all add: stopInLoop_inv)

lemma connector_fail_inv:
  "attempts_ok kern \<Longrightarrow> connector_inv cn \<Longrightarrow> cn_state cn = CnConnecting \<Longrightarrow> e \<noteq> 0 \<Longrightarrow>
     connector_inv (connector_fail kern e r cn)"
  by (rule connector_calls_inv(3)) (simp_all add: connector_inv_def in_flight_def)

lemma finishConnect_inv:
  assumes "attempts_ok kern" and "connector_inv cn" and "cn_state cn = CnConnecting"
  shows "connector_inv (finishConnect kern r cn)"
proof -
  let ?cn = "connector_removeChannel (cancelTimeout cn)"
  let ?cn2 = "?cn\<lparr>cn_sockfd := -1, cn_state := CnConnected, cn_log := cn_log ?cn @ [ConnectedFd (cn_sockfd ?cn)]\<rparr>"
  have "connector_inv ?cn2" "cn_newConnectionCallback ?cn" using assms(2,3)
    by (auto simp: cleanup_simps connector_inv_def connector_base_def outcomes_def in_flight_def held_def)
  with connector_calls_inv(4) [OF assms(1)] show ?thesis
    by (cases r) (simp add: finishConnect_def Let_def)
qed

lemmas errno_defs = EINTR_def ECONNABORTED_def EISCONN_def ETIMEDOUT_def ECONNREFUSED_def EINPROGRESS_def

lemma connector_handlers_inv:
  assumes "attempts_ok kern" and "connector_inv cn"
  shows "connector_inv (connector_handleWrite kern soerr names r cn)"
    "connector_inv (connector_handleError kern soerr r cn)" "connector_inv (handleTimeout kern r cn)"
  using connector_fail_inv [OF assms] finishConnect_inv [OF assms] assms(2)
  by (simp_all add: connector_handleWrite_def connector_handleError_def handleTimeout_def Let_def errno_defs)

lemma connector_dispatch_inv:
  assumes "attempts_ok kern" and "connector_inv cn"
    and "connector_dispatch kern soerr1 soerr2 names r1 r2 revents cn = Some cn'"
  shows "connector_inv cn'"
  using assms(3) connector_handlers_inv [OF assms(1)] assms(2)
  by (auto simp: connector_dispatch_def handleEventWithGuard_def split: if_splits)

subsection \<open>Runs\<close>

datatype connector_input = InStart connector_reaction | InStop
  | InEvent "fd \<Rightarrow> errno" "fd \<Rightarrow> errno" sock_names connector_reaction connector_reaction u32
  | InTimeout nat connector_reaction

text \<open>The deadline of an attempt may fire although it was cancelled: the timer queue runs every timer of an
  expired batch, also one that an earlier timer of the batch has cancelled.\<close>

fun connector_step :: "attempts \<Rightarrow> connector_input \<Rightarrow> connector \<Rightarrow> connector option" where
  "connector_step kern (InStart r) cn = Some (startInLoop kern r cn)"
| "connector_step kern InStop cn = Some (stopInLoop cn)"
| "connector_step kern (InEvent soerr1 soerr2 names r1 r2 revents) cn =
     connector_dispatch kern soerr1 soerr2 names r1 r2 revents cn"
| "connector_step kern (InTimeout i r) cn =
     Some (if i < cn_attempts cn then handleTimeout kern r (cn\<lparr>cn_timers := cn_timers cn - {i}\<rparr>) else cn)"

fun connector_run :: "attempts \<Rightarrow> connector_input list \<Rightarrow> connector \<Rightarrow> connector option" where
  "connector_run kern [] cn = Some cn"
| "connector_run kern (i # is) cn = Option.bind (connector_step kern i cn) (connector_run kern is)"

lemma connector_step_inv:
  assumes "attempts_ok kern" and "connector_inv cn"
  shows "\<exists>cn'. connector_step kern i cn = Some cn' \<and> connector_inv cn'"
proof (cases i)
  case (InEvent so1 so2 names r1 r2 ev)
  have "\<exists>cn'. connector_step kern i cn = Some cn'"
    by (simp add: InEvent connector_dispatch_def handleEventWithGuard_def)
  then show ?thesis using connector_dispatch_inv [OF assms] by (auto simp: InEvent)
next
  case (InTimeout k r)
  have "connector_inv (cn\<lparr>cn_timers := cn_timers cn - {k}\<rparr>)" using assms(2)
    by (auto simp: connector_inv_def connector_base_def outcomes_def in_flight_def held_def)
  with connector_handlers_inv(3) [OF assms(1)] assms(2) show ?thesis by (simp add: InTimeout)
qed (simp_all add: connector_calls_inv(1) stopInLoop_inv assms)

lemma connector_run_inv:
  "attempts_ok kern \<Longrightarrow> connector_inv cn \<Longrightarrow> \<exists>cn'. connector_run kern is cn = Some cn' \<and> connector_inv cn'"
proof (induction "is" arbitrary: cn)
  case (Cons i "is")
  then show ?case using connector_step_inv [OF Cons.prems, of i] by auto
qed simp

lemma newConnector_inv: "connector_inv (newConnector deadline True errCb)"
  by (simp add: newConnector_def connector_inv_def connector_base_def outcomes_def in_flight_def held_def)

lemma attempt_in_progress:
  assumes "kern (cn_attempts cn) = (Inr fd, EINPROGRESS)"
  shows "\<exists>cn1. attempt kern cn = (None, cn1) \<and> cn_state cn1 = cn_state cn \<and> cn_sockfd cn1 = fd \<and> cn_log cn1 = cn_log cn
    \<and> cn_attempts cn1 = cn_attempts cn + 1 \<and> cn_connectErrorCallback cn1 = cn_connectErrorCallback cn
    \<and> cn_newConnectionCallback cn1 = cn_newConnectionCallback cn"
  using assms by (cases "enableWriting (newChannel (cn_attempts cn) fd) (cn_poller cn)") (simp add: attempt_def Let_def)

lemma startInLoop_in_progress:
  assumes "kern (cn_attempts cn) = (Inr fd, EINPROGRESS)" and "cn_state cn \<notin> {CnConnecting, CnConnected}"
  shows "\<exists>cn1. startInLoop kern r cn = cn1 \<and> cn_state cn1 = CnConnecting \<and> cn_sockfd cn1 = fd \<and> cn_log cn1 = cn_log cn
    \<and> cn_attempts cn1 = cn_attempts cn + 1 \<and> cn_connectErrorCallback cn1 = cn_connectErrorCallback cn
    \<and> cn_newConnectionCallback cn1 = cn_newConnectionCallback cn"
  using attempt_in_progress [of kern "cn\<lparr>cn_state := CnConnecting\<rparr>" fd] assms
  by (auto simp: startInLoop.simps connector_connect.simps)

lemma fail_cleanup_same:
  "cn_state (fail_cleanup e cn) = CnFailed" "cn_attempts (fail_cleanup e cn) = cn_attempts cn"
  "cn_log (fail_cleanup e cn) =
     cn_log cn @ (if 0 \<le> cn_sockfd cn then [ClosedFd (cn_sockfd cn)] else []) @ [ConnectFailed e]"
  "cn_newConnectionCallback (fail_cleanup e cn) = cn_newConnectionCallback cn"
  by (simp_all add: fail_cleanup_def closeSockfd_def cleanup_simps Let_def)

lemma destroy_releases:
  assumes "connector_inv cn"
  shows "mset (cn_opened (destroyConnector cn)) =
      mset (closed_fds (cn_log (destroyConnector cn))) + mset (connected_fds (cn_log (destroyConnector cn)))"
    and "cn_channel (destroyConnector cn) = None" and "cn_timers (destroyConnector cn) = {}"
  using assms
  by (auto simp: destroyConnector_def closeSockfd_def cleanup_simps connector_inv_def connector_base_def held_def)

subsection \<open>Properties\<close>

text \<open>C17: the connector neither leaks nor double-closes a descriptor, and every attempt has one outcome.
  However starts, stops, events, deadlines and callbacks that start or stop again follow each other:
  every descriptor obtained from \<open>socket\<close> is, once for each time it was obtained, closed, handed to the
  connection callback, or held by the attempt in flight; every attempt but the one in flight has ended in
  a connection, a failure, which is never reported with errno 0, or a stop; at most one connection is ever
  made. When no attempt is in flight, the connector holds no descriptor, channel or deadline, and its
  destructor leaves nothing behind.\<close>

theorem connector_owns_descriptors:
  assumes "attempts_ok kern"
  shows "\<exists>cn. connector_run kern is (newConnector deadline True errCb) = Some cn \<and> \<not> cn_aborted cn
    \<and> mset (cn_opened cn) = mset (closed_fds (cn_log cn)) + mset (connected_fds (cn_log cn)) + mset (held cn)
    \<and> (cn_state cn = CnConnecting \<or> held cn = [] \<and> cn_channel cn = None \<and> cn_timers cn = {})
    \<and> cn_attempts cn = length (connected_fds (cn_log cn)) + length (failures (cn_log cn)) + cn_cancelled cn
        + (if cn_state cn = CnConnecting then 1 else 0)
    \<and> 0 \<notin> set (failures (cn_log cn)) \<and> length (connected_fds (cn_log cn)) \<le> 1
    \<and> mset (cn_opened (destroyConnector cn)) =
        mset (closed_fds (cn_log (destroyConnector cn))) + mset (connected_fds (cn_log (destroyConnector cn)))
    \<and> cn_channel (destroyConnector cn) = None \<and> cn_timers (destroyConnector cn) = {}"
proof -
  obtain cn where r: "connector_run kern is (newConnector deadline True errCb) = Some cn" and i: "connector_inv cn"
    using connector_run_inv [OF assms newConnector_inv] by blast
  from i have "cn_state cn = CnConnecting \<or> held cn = [] \<and> cn_channel cn = None \<and> cn_timers cn = {}"
    by (cases "cn_state cn = CnConnecting") (auto simp: connector_inv_def connector_base_def held_def)
  moreover from i have "cn_attempts cn = length (connected_fds (cn_log cn)) + length (failures (cn_log cn)) + cn_cancelled cn
        + (if cn_state cn = CnConnecting then 1 else 0)" "length (connected_fds (cn_log cn)) \<le> 1"
    by (simp_all add: connector_inv_def connector_base_def outcomes_def in_flight_def)
  ultimately show ?thesis
    using r destroy_releases [OF i] i unfolding connector_inv_def connector_base_def by blast
qed

theorem connector_owns_descriptors_witness:
  "\<exists>cn. connector_run (\<lambda>n. (Inr 7, EINPROGRESS)) [InStart (Reaction []), InTimeout 0 (Reaction [])] (newConnector True True True) = Some cn
    \<and> mset (cn_opened cn) = mset (closed_fds (cn_log cn)) + mset (connected_fds (cn_log cn)) + mset (held cn)"
  using connector_owns_descriptors [of "\<lambda>n. (Inr 7, EINPROGRESS)" "[InStart (Reaction []), InTimeout 0 (Reaction [])]" True True]
  by (auto simp: attempts_ok_def)

text \<open>C40: a retry from the error callback is reported as connected although it is not. An attempt fails
  with \<open>EPOLLERR\<close> and \<open>EPOLLOUT\<close> in one event, as a refused connection does, and the error callback starts
  a second attempt, whose \<open>connect\<close> is in progress. The same dispatch then calls the write callback: it
  finds the new attempt in flight, reads no pending error of the new socket, which has no peer yet, and
  hands the descriptor out as a connection.\<close>

theorem connector_retry_false_success:
  assumes "kern 0 = (Inr fd1, EINPROGRESS)" and "kern 1 = (Inr fd2, EINPROGRESS)" and "0 \<le> fd1" and "0 \<le> fd2"
    and "soerr1 fd1 = ECONNREFUSED" and "soerr2 fd2 = 0" and "names fd2 = None"
  shows "\<exists>cn. connector_run kern
      [InStart (Reaction []),
       InEvent soerr1 soerr2 names (Reaction [StartCall (Reaction [])]) (Reaction []) (EPOLLERR OR EPOLLHUP OR EPOLLOUT)]
      (newConnector True True True) = Some cn
    \<and> cn_log cn = [ClosedFd fd1, ConnectFailed ECONNREFUSED, ConnectedFd fd2] \<and> cn_state cn = CnConnected"
proof -
  let ?cn = "newConnector True True True" and ?r = "Reaction [StartCall (Reaction [])]"
  have s: "cn_state ?cn = CnDisconnected" "cn_attempts ?cn = 0" "cn_log ?cn = []"
    "cn_connectErrorCallback ?cn" "cn_newConnectionCallback ?cn" by (simp_all add: newConnector_def)
  define cn1 where "cn1 = startInLoop kern (Reaction []) ?cn"
  have 1: "cn_state cn1 = CnConnecting" "cn_sockfd cn1 = fd1" "cn_log cn1 = []" "cn_attempts cn1 = 1"
    "cn_connectErrorCallback cn1" "cn_newConnectionCallback cn1"
    using startInLoop_in_progress [of kern ?cn fd1 "Reaction []"] assms(1) s by (auto simp: cn1_def)
  define cn2 where "cn2 = startInLoop kern (Reaction []) (fail_cleanup ECONNREFUSED cn1)"
  have 2: "cn_state cn2 = CnConnecting" "cn_sockfd cn2 = fd2" "cn_log cn2 = [ClosedFd fd1, ConnectFailed ECONNREFUSED]"
    "cn_newConnectionCallback cn2"
    using startInLoop_in_progress [of kern "fail_cleanup ECONNREFUSED cn1" fd2 "Reaction []"] assms(2,3) 1
    by (auto simp: cn2_def fail_cleanup_same)
  have "connector_handleError kern soerr1 ?r cn1 = cn2"
    using 1 assms(5) by (simp add: connector_handleError_def connector_fail.simps cn2_def) (simp add: ECONNREFUSED_def)
  moreover have "connector_handleWrite kern soerr2 names (Reaction []) cn2 = finishConnect kern (Reaction []) cn2"
    using 2 assms(6,7) by (simp add: connector_handleWrite_def isSelfConnect_def)
  moreover have "cn_log (finishConnect kern (Reaction []) cn2) = [ClosedFd fd1, ConnectFailed ECONNREFUSED, ConnectedFd fd2]"
    "cn_state (finishConnect kern (Reaction []) cn2) = CnConnected"
    using 2 by (simp_all add: finishConnect_def cleanup_simps Let_def)
  ultimately show ?thesis
    by (simp add: connector_dispatch_def handleEventWithGuard_def event_defs cn1_def [symmetric])
qed

theorem connector_retry_false_success_witness:
  "\<exists>cn. connector_run (\<lambda>n. (Inr (5 + int n), EINPROGRESS))
      [InStart (Reaction []),
       InEvent (\<lambda>fd. ECONNREFUSED) (\<lambda>fd. 0) (\<lambda>fd. None) (Reaction [StartCall (Reaction [])]) (Reaction [])
         (EPOLLERR OR EPOLLHUP OR EPOLLOUT)]
      (newConnector True True True) = Some cn
    \<and> cn_log cn = [ClosedFd 5, ConnectFailed ECONNREFUSED, ConnectedFd 6] \<and> cn_state cn = CnConnected"
  by (rule connector_retry_false_success) simp_all

end
