(* ===== verification/Tcp_Client.thy ===== *)
theory Tcp_Client
  imports Tcp_Lifecycle Connector
begin

unbundle bit_operations_syntax

section \<open>Clients\<close>

text \<open>
  \<open>src/TcpClient.cpp\<close>: the connector and the connection it leads to, with the real state machines of
  both. The connection's events are those of \<open>Tcp_Lifecycle\<close>; it is given the connector's view of the
  poller, and the two are not merged again afterwards. Local and peer address and the name built from
  them are left out.
\<close>

subsection \<open>State\<close>

text \<open>\<open>cl_closing\<close> are the connections that only a queued \<open>connectDestroyed\<close> keeps alive, \<open>cl_dying\<close> those
  that only their own queued functors keep alive, \<open>cl_released\<close> those whose last reference is gone, as
  they were at that moment.\<close>

record tcp_client =
  cl_connector :: connector
  cl_connection :: "tcp_connection option"
  cl_nextConnId :: nat
  cl_writeComplete :: bool
  cl_closing :: "tcp_connection list"
  cl_dying :: "tcp_connection list"
  cl_released :: "tcp_connection list"

definition newTcpClient :: "bool \<Rightarrow> bool \<Rightarrow> tcp_client" where
  "newTcpClient deadline wc =
     \<lparr>cl_connector = newConnector deadline True True, cl_connection = None, cl_nextConnId = 1, cl_writeComplete = wc,
      cl_closing = [], cl_dying = [], cl_released = []\<rparr>"

subsection \<open>Operations\<close>

text \<open>\<open>connect\<close>, \<open>disconnect\<close> and \<open>stop\<close> on the loop's thread; from another thread they are functors.\<close>

definition tcpClient_connect :: "attempts \<Rightarrow> connector_reaction \<Rightarrow> tcp_client \<Rightarrow> tcp_client" where
  "tcpClient_connect kern r cl = cl\<lparr>cl_connector := startInLoop kern r (cl_connector cl)\<rparr>"

definition client_disconnect :: "tcp_client \<Rightarrow> tcp_client" where
  "client_disconnect cl =
     (case cl_connection cl of
        Some c \<Rightarrow> cl\<lparr>cl_connection := Some (tcp_shutdown True c)\<rparr>
      | None \<Rightarrow> cl\<lparr>cl_connector := stopInLoop (cl_connector cl)\<rparr>)"

definition client_stop :: "tcp_client \<Rightarrow> tcp_client" where
  "client_stop cl =
     (let cl1 = cl\<lparr>cl_connector := stopInLoop (cl_connector cl)\<rparr>
      in case cl_connection cl1 of
           Some c \<Rightarrow> cl1\<lparr>cl_connection := Some (tcp_forceClose c)\<rparr>
         | None \<Rightarrow> cl1)"

text \<open>What the user's connection callback does with the client when the connection is up.\<close>

datatype client_call = DisconnectCall | StopCallback

fun client_calls :: "client_call list \<Rightarrow> tcp_client \<Rightarrow> tcp_client" where
  "client_calls [] cl = cl"
| "client_calls (DisconnectCall # calls) cl = client_calls calls (client_disconnect cl)"
| "client_calls (StopCallback # calls) cl = client_calls calls (client_stop cl)"

definition client_newConnection :: "client_call list \<Rightarrow> fd \<Rightarrow> tcp_client \<Rightarrow> tcp_client option" where
  "client_newConnection calls sockfd cl =
     (let conn = newTcpConnection (cl_nextConnId cl) sockfd (cl_writeComplete cl) (cn_poller (cl_connector cl));
          cl1 = cl\<lparr>cl_nextConnId := cl_nextConnId cl + 1, cl_connection := Some conn\<rparr>
      in map_option (\<lambda>conn1. client_calls calls (cl1\<lparr>cl_connection := Some conn1\<rparr>)) (connectEstablished conn))"

text \<open>The close callback of \<open>conn\<close>, the connection of the client.\<close>

definition client_removeConnection :: "tcp_connection \<Rightarrow> tcp_client \<Rightarrow> tcp_client" where
  "client_removeConnection conn cl = cl\<lparr>cl_connection := None, cl_closing := cl_closing cl @ [conn]\<rparr>"

text \<open>The destructor, with that of the connector. An open connection is torn down on the spot and its
  last reference dropped; a closing one is left to the functor that \<open>forceClose\<close> queues.\<close>

definition client_destroy :: "tcp_client \<Rightarrow> tcp_client option" where
  "client_destroy cl =
     (let cl1 = cl\<lparr>cl_connector := destroyConnector (stopInLoop (cl_connector cl))\<rparr>
      in case cl_connection cl1 of
           None \<Rightarrow> Some cl1
         | Some c \<Rightarrow>
             let cl2 = cl1\<lparr>cl_connection := None\<rparr>
             in if tcp_connected c
                then map_option (\<lambda>c1. cl2\<lparr>cl_released := cl_released cl2 @ [c1]\<rparr>) (connectDestroyed c)
                else Some (cl2\<lparr>cl_dying := cl_dying cl2 @ [tcp_forceClose c]\<rparr>))"

fun run_tasks :: "kernel \<Rightarrow> tcp_task list \<Rightarrow> tcp_connection \<Rightarrow> tcp_connection option" where
  "run_tasks k [] c = Some c"
| "run_tasks k (t # ts) c = Option.bind (run_task k t c) (run_tasks k ts)"

text \<open>A closed connection first sees the functors queued before, then \<open>connectDestroyed\<close>.\<close>

definition client_functor :: "kernel \<Rightarrow> tcp_client \<Rightarrow> tcp_client option" where
  "client_functor k cl =
     (case cl_closing cl of
        [] \<Rightarrow> Some cl
      | c # cs \<Rightarrow>
          Option.bind (run_tasks k (tc_tasks c) (c\<lparr>tc_tasks := []\<rparr>))
            (\<lambda>c1. map_option (\<lambda>c2. cl\<lparr>cl_closing := cs, cl_released := cl_released cl @ [c2]\<rparr>) (connectDestroyed c1)))"

subsection \<open>Runs\<close>

datatype client_input =
    ClConnect connector_reaction
  | ClConnector connector_input "client_call list"
  | ClConnection conn_event
  | ClDisconnect
  | ClStop
  | ClFunctor

text \<open>An event of the connector may hand over a connected descriptor.\<close>

definition handed_over :: "connector \<Rightarrow> connector \<Rightarrow> fd list" where
  "handed_over cn cn' = connected_fds (drop (length (cn_log cn)) (cn_log cn'))"

definition client_connector_step ::
  "attempts \<Rightarrow> connector_input \<Rightarrow> client_call list \<Rightarrow> tcp_client \<Rightarrow> tcp_client option" where
  "client_connector_step kern i calls cl =
     Option.bind (connector_step kern i (cl_connector cl))
       (\<lambda>cn. let cl1 = cl\<lparr>cl_connector := cn\<rparr>
             in case handed_over (cl_connector cl) cn of
                  [] \<Rightarrow> Some cl1
                | sockfd # _ \<Rightarrow> client_newConnection calls sockfd cl1)"

definition client_connection_step ::
  "kernel \<Rightarrow> user_code \<Rightarrow> conn_event \<Rightarrow> tcp_client \<Rightarrow> tcp_client option" where
  "client_connection_step k prog ev cl =
     (case cl_connection cl of
        None \<Rightarrow> Some cl
      | Some c \<Rightarrow>
          map_option
            (\<lambda>c1. if CloseCallback \<in> set (tc_calls c1) then client_removeConnection c1 cl
                  else cl\<lparr>cl_connection := Some c1\<rparr>)
            (conn_step k prog ev c))"

fun client_input_step :: "kernel \<Rightarrow> user_code \<Rightarrow> attempts \<Rightarrow> client_input \<Rightarrow> tcp_client \<Rightarrow> tcp_client option" where
  "client_input_step k prog kern (ClConnect r) cl = Some (tcpClient_connect kern r cl)"
| "client_input_step k prog kern (ClConnector i calls) cl = client_connector_step kern i calls cl"
| "client_input_step k prog kern (ClConnection ev) cl = client_connection_step k prog ev cl"
| "client_input_step k prog kern ClDisconnect cl = Some (client_disconnect cl)"
| "client_input_step k prog kern ClStop cl = Some (client_stop cl)"
| "client_input_step k prog kern ClFunctor cl = client_functor k cl"

text \<open>The loop and the kernel respect \<open>event_ok\<close>; only the client establishes and destroys.\<close>

fun input_ok :: "client_input \<Rightarrow> tcp_client \<Rightarrow> bool" where
  "input_ok (ClConnection ev) cl \<longleftrightarrow>
     ev \<noteq> Established \<and> ev \<noteq> Destroyed \<and> (\<forall>c. cl_connection cl = Some c \<longrightarrow> event_ok ev c)"
| "input_ok _ cl \<longleftrightarrow> True"

inductive client_runs :: "kernel \<Rightarrow> user_code \<Rightarrow> attempts \<Rightarrow> tcp_client \<Rightarrow> bool" for k prog kern where
  client_new: "client_runs k prog kern (newTcpClient deadline wc)"
| client_next: "client_runs k prog kern cl \<Longrightarrow> input_ok i cl \<Longrightarrow> client_input_step k prog kern i cl = Some cl' \<Longrightarrow>
    client_runs k prog kern cl'"

subsection \<open>Invariant\<close>

definition client_inv :: "tcp_client \<Rightarrow> bool" where
  "client_inv cl \<longleftrightarrow> connector_inv (cl_connector cl)
     \<and> (\<forall>c. cl_connection cl = Some c \<longrightarrow> conn_open c)
     \<and> (\<forall>c \<in> set (cl_closing cl). conn_closed c)
     \<and> (\<forall>c \<in> set (cl_released cl). connection_destructible c)
     \<and> length (connected_fds (cn_log (cl_connector cl)))
       = (if cl_connection cl = None then 0 else 1) + length (cl_closing cl) + length (cl_released cl)"

lemma closing_states:
  "tc_state c \<in> {kConnected, kDisconnecting} \<Longrightarrow> tc_state (tcp_shutdown b c) \<in> {kConnected, kDisconnecting}"
  "tc_state c \<in> {kConnected, kDisconnecting} \<Longrightarrow> tc_state (tcp_forceClose c) \<in> {kConnected, kDisconnecting}"
  by (auto simp: tcp_shutdown_def shutdownInLoop_def tcp_forceClose_def queueInLoop_def Let_def)

lemma shutdown_open: "conn_open c \<Longrightarrow> conn_open (tcp_shutdown b c)"
  using closing_states(1) [of c b] by (simp add: conn_open_def told.keeps_shutdown tcp_shutdown_inv)

lemma forceClose_open: "conn_open c \<Longrightarrow> conn_open (tcp_forceClose c)"
  using closing_states(2) [of c] by (simp add: conn_open_def told.keeps_forceClose tcp_forceClose_inv)

text \<open>The log of a connector only grows, and stopping does not connect.\<close>

lemma stop_connected: "connected_fds (cn_log (stopInLoop cn)) = connected_fds (cn_log cn)"
  by (simp add: stopInLoop_def closeSockfd_def cleanup_simps)

definition log_grows :: "connector \<Rightarrow> connector \<Rightarrow> bool" where
  "log_grows cn cn' \<longleftrightarrow> (\<exists>more. cn_log cn' = cn_log cn @ more)"

lemma log_grows_refl [simp]: "cn_log cn' = cn_log cn \<Longrightarrow> log_grows cn cn'"
  by (simp add: log_grows_def)

lemma log_grows_trans: "log_grows cn cn1 \<Longrightarrow> log_grows cn1 cn2 \<Longrightarrow> log_grows cn cn2"
  by (auto simp: log_grows_def)

text \<open>Everything but \<open>finishConnect\<close> adds no connection.\<close>

definition log_fails :: "connector \<Rightarrow> connector \<Rightarrow> bool" where
  "log_fails cn cn' \<longleftrightarrow> (\<exists>more. cn_log cn' = cn_log cn @ more \<and> connected_fds more = [])"

lemma log_fails_refl [simp]: "cn_log cn' = cn_log cn \<Longrightarrow> log_fails cn cn'"
  by (simp add: log_fails_def)

lemma log_fails_grows: "log_fails cn cn' \<Longrightarrow> log_grows cn cn'"
  by (auto simp: log_fails_def log_grows_def)

lemma log_fails_trans: "log_fails cn cn1 \<Longrightarrow> log_fails cn1 cn2 \<Longrightarrow> log_fails cn cn2"
  by (auto simp: log_fails_def)

lemma log_fails_basic: "log_fails cn (stopInLoop cn)" "log_fails cn (fail_cleanup e cn)" "attempt kern cn = (res, cn1) \<Longrightarrow> log_fails cn cn1"
  by (auto simp: log_fails_def stopInLoop_def fail_cleanup_def closeSockfd_def attempt_def cleanup_simps Let_def
    split: sum.splits prod.splits if_splits)

lemma log_fails_calls:
  "log_fails cn (startInLoop kern r cn)" "log_fails cn (connector_connect kern r cn)"
  "log_fails cn (connector_fail kern e r cn)" "log_fails cn (connector_calls kern calls cn)"
proof (induction kern r cn and kern r cn and kern e r cn and kern calls cn
    rule: startInLoop_connector_connect_connector_fail_connector_calls.induct)
  case (1 kern r cn)
  then show ?case by (auto simp: startInLoop.simps [of kern r cn] log_fails_def)
next
  case (2 kern r cn)
  obtain res cn1 where a: "attempt kern cn = (res, cn1)" by (cases "attempt kern cn")
  with 2 log_fails_basic(3) [OF a] show ?case
    by (cases res) (auto simp: connector_connect.simps [of kern r cn] intro: log_fails_trans)
next
  case (3 kern savedErrno calls cn)
  then show ?case using log_fails_basic(2) [of cn savedErrno] by (auto simp: connector_fail.simps intro: log_fails_trans)
qed (auto intro: log_fails_trans log_fails_basic)

lemma log_grows_finish: "log_grows cn (finishConnect kern r cn)"
proof (cases r)
  case (Reaction calls)
  let ?cn = "connector_removeChannel (cancelTimeout cn)"
  have "log_grows cn (?cn\<lparr>cn_sockfd := -1, cn_state := CnConnected, cn_log := cn_log ?cn @ [ConnectedFd (cn_sockfd ?cn)]\<rparr>)"
    by (simp add: log_grows_def cleanup_simps)
  with log_grows_trans [OF this log_fails_grows [OF log_fails_calls(4) [of _ kern calls]]] show ?thesis
    by (simp add: finishConnect_def Reaction Let_def cleanup_simps) (simp add: log_grows_def cleanup_simps)
qed

lemma log_grows_handlers:
  "log_grows cn (connector_handleWrite kern soerr names r cn)" "log_grows cn (connector_handleError kern soerr r cn)"
  "log_grows cn (handleTimeout kern r cn)"
  by (simp_all add: connector_handleWrite_def connector_handleError_def handleTimeout_def log_fails_calls [THEN log_fails_grows] log_grows_finish Let_def)

lemma log_grows_step: "connector_step kern i cn = Some cn' \<Longrightarrow> log_grows cn cn'"
proof (induction kern i cn rule: connector_step.induct)
  case (3 kern soerr1 soerr2 names r1 r2 revents cn)
  then show ?case
    using log_grows_handlers log_grows_trans [OF log_grows_handlers(2) log_grows_handlers(1)]
    by (auto simp: connector_dispatch_def handleEventWithGuard_def split: if_splits)
next
  case (4 kern i r cn)
  then show ?case using log_grows_handlers(3) [of "cn\<lparr>cn_timers := cn_timers cn - {i}\<rparr>" kern r]
    by (auto simp: log_grows_def split: if_splits)
qed (auto simp: log_fails_calls [THEN log_fails_grows] log_fails_basic [THEN log_fails_grows])

lemma handed_over_count:
  assumes "connector_step kern i cn = Some cn'"
  shows "connected_fds (cn_log cn') = connected_fds (cn_log cn) @ handed_over cn cn'"
  using log_grows_step [OF assms] by (auto simp: log_grows_def handed_over_def)

lemma client_calls_inv: "client_inv cl \<Longrightarrow> client_inv (client_disconnect cl)" "client_inv cl \<Longrightarrow> client_inv (client_stop cl)"
    "client_inv cl \<Longrightarrow> client_inv (client_calls calls cl)"
proof -
  show d: "client_inv cl \<Longrightarrow> client_inv (client_disconnect cl)" for cl
    by (cases "cl_connection cl")
      (simp_all add: client_disconnect_def client_inv_def shutdown_open stopInLoop_inv stop_connected)
  show s: "client_inv cl \<Longrightarrow> client_inv (client_stop cl)" for cl
    by (cases "cl_connection cl")
      (simp_all add: client_stop_def client_inv_def forceClose_open stopInLoop_inv stop_connected Let_def)
  show "client_inv cl \<Longrightarrow> client_inv (client_calls calls cl)"
    by (induction calls cl rule: client_calls.induct) (simp_all add: d s)
qed

lemma client_connection_step_inv:
  assumes "client_inv cl" and "input_ok (ClConnection ev) cl"
  shows "\<exists>cl'. client_connection_step k prog ev cl = Some cl' \<and> client_inv cl'"
proof (cases "cl_connection cl")
  case (Some c)
  then have "conn_open c" using assms(1) by (simp add: client_inv_def)
  with conn_step_kept [OF this, of ev k prog] assms(2) Some obtain c' where
    "conn_step k prog ev c = Some c'" "if CloseCallback \<in> set (tc_calls c') then conn_closed c' else conn_open c'" by auto
  with assms(1) Some show ?thesis
    by (auto simp: client_connection_step_def client_removeConnection_def client_inv_def)
qed (use assms(1) in \<open>simp add: client_connection_step_def\<close>)

lemma run_task_closed:
  assumes "conn_closed c"
  shows "\<exists>c'. run_task k t c = Some c' \<and> conn_closed c'"
  using assms
  by (cases t) (auto simp: run_task_def conn_closed_def sendInLoop_def shutdownInLoop_def forceCloseInLoop_def run_callback_def
    conn_inv_def life_calls_def)

lemma run_tasks_closed: "conn_closed c \<Longrightarrow> \<exists>c'. run_tasks k ts c = Some c' \<and> conn_closed c'"
proof (induction ts arbitrary: c)
  case (Cons t ts)
  from run_task_closed [OF Cons.prems, of k t] Cons.IH show ?case by auto
qed simp

lemma client_functor_releases:
  assumes "client_inv cl" and "cl_closing cl = c # cs"
  shows "\<exists>c'. client_functor k cl = Some (cl\<lparr>cl_closing := cs, cl_released := cl_released cl @ [c']\<rparr>) \<and> connection_destructible c'"
proof -
  have "conn_closed (c\<lparr>tc_tasks := []\<rparr>)" using assms
    by (auto simp: client_inv_def conn_closed_def conn_inv_def life_calls_def)
  from run_tasks_closed [OF this, of k "tc_tasks c"] destroy_closed obtain c1 c2 where
    "run_tasks k (tc_tasks c) (c\<lparr>tc_tasks := []\<rparr>) = Some c1" "connectDestroyed c1 = Some c2" "connection_destructible c2" by blast
  with assms(2) show ?thesis by (auto simp: client_functor_def)
qed

lemma client_functor_inv:
  assumes "client_inv cl"
  shows "\<exists>cl'. client_functor k cl = Some cl' \<and> client_inv cl'"
proof (cases "cl_closing cl")
  case (Cons c cs)
  from client_functor_releases [OF assms Cons, of k] obtain c' where
    f: "client_functor k cl = Some (cl\<lparr>cl_closing := cs, cl_released := cl_released cl @ [c']\<rparr>)" "connection_destructible c'"
    by blast
  with assms Cons have "client_inv (cl\<lparr>cl_closing := cs, cl_released := cl_released cl @ [c']\<rparr>)"
    by (simp add: client_inv_def)
  with f(1) show ?thesis by blast
qed (use assms in \<open>simp add: client_functor_def\<close>)

lemma client_connector_step_inv:
  assumes "client_inv cl" and "attempts_ok kern"
  shows "\<exists>cl'. client_connector_step kern i calls cl = Some cl' \<and> client_inv cl'"
proof -
  obtain cn where cn: "connector_step kern i (cl_connector cl) = Some cn" "connector_inv cn"
    using connector_step_inv [OF assms(2), of "cl_connector cl" i] assms(1) by (auto simp: client_inv_def)
  note h = handed_over_count [OF cn(1)]
  let ?cl = "cl\<lparr>cl_connector := cn\<rparr>"
  show ?thesis
  proof (cases "handed_over (cl_connector cl) cn")
    case Nil
    with cn h assms(1) show ?thesis by (simp add: client_connector_step_def client_inv_def)
  next
    case (Cons sockfd fds)
    have "length (connected_fds (cn_log cn)) \<le> 1" using cn(2) by (simp add: connector_inv_def connector_base_def)
    with h Cons assms(1) have none: "cl_connection cl = None" "cl_closing cl = []" "cl_released cl = []"
      "length (connected_fds (cn_log cn)) = 1"
      by (auto simp: client_inv_def split: if_splits)
    obtain c where c: "connectEstablished (newTcpConnection (cl_nextConnId cl) sockfd (cl_writeComplete cl) (cn_poller cn)) = Some c"
      "conn_open c" using established_open by blast
    let ?cl2 = "?cl\<lparr>cl_nextConnId := cl_nextConnId cl + 1, cl_connection := Some c\<rparr>"
    have "client_inv ?cl2" using cn(2) none c(2) by (simp add: client_inv_def)
    from client_calls_inv(3) [OF this, of calls] show ?thesis
      using cn(1) Cons c(1) by (simp add: client_connector_step_def client_newConnection_def Let_def)
  qed
qed

lemma client_connect_inv:
  assumes "client_inv cl" and "attempts_ok kern"
  shows "client_inv (tcpClient_connect kern r cl)"
  using log_fails_calls(1) [of "cl_connector cl" kern r] connector_calls_inv(1) [OF assms(2), of "cl_connector cl" r] assms(1)
  by (auto simp: tcpClient_connect_def client_inv_def log_fails_def)

lemma client_step_inv:
  assumes "client_inv cl" and "attempts_ok kern" and "input_ok i cl"
  shows "\<exists>cl'. client_input_step k prog kern i cl = Some cl' \<and> client_inv cl'"
  using assms client_connector_step_inv client_connection_step_inv client_functor_inv client_connect_inv client_calls_inv(1,2)
  by (cases i) auto

lemma client_runs_inv:
  assumes "client_runs k prog kern cl" and "attempts_ok kern"
  shows "client_inv cl"
  using assms(1)
proof induction
  case (client_new deadline wc)
  then show ?case using newConnector_inv [of deadline True]
    by (simp add: client_inv_def newTcpClient_def) (simp add: newConnector_def)
next
  case (client_next cl i cl')
  then show ?case using client_step_inv [OF client_next.IH assms(2) client_next.hyps(2), of k prog] by simp
qed

subsection \<open>Properties\<close>

text \<open>C20: a client makes at most one connection and always lets go of it properly. Whatever the
  connector, the kernel, the peer and the user do, as long as no event closes the connection twice, every
  event is handled without a failing assertion and there is at most one connection; when it is closed, the
  queued functor destroys it with the assertions of both destructors holding; destroying the client while
  the connection is open does the same.\<close>

theorem client_releases_connection:
  assumes "client_runs k prog kern cl" and "attempts_ok kern" and "input_ok i cl"
  shows "(\<exists>cl'. client_input_step k prog kern i cl = Some cl')
    \<and> (if cl_connection cl = None then 0 else 1) + length (cl_closing cl) + length (cl_released cl) \<le> (1 :: nat)
    \<and> list_all connection_destructible (cl_released cl)
    \<and> (\<forall>c cs. cl_closing cl = c # cs \<longrightarrow>
        (\<exists>cl' c'. client_functor k cl = Some cl' \<and> cl_closing cl' = cs \<and> cl_released cl' = cl_released cl @ [c']
          \<and> connection_destructible c'))
    \<and> (\<forall>c. cl_connection cl = Some c \<longrightarrow> tcp_connected c \<longrightarrow>
        (\<exists>cl' c'. client_destroy cl = Some cl' \<and> cl_connection cl' = None \<and> cl_released cl' = cl_released cl @ [c']
          \<and> connection_destructible c'))"
proof -
  have inv: "client_inv cl" using client_runs_inv [OF assms(1,2)] .
  then have "length (connected_fds (cn_log (cl_connector cl))) \<le> 1"
    by (simp add: client_inv_def connector_inv_def connector_base_def)
  then have "(if cl_connection cl = None then 0 else 1) + length (cl_closing cl) + length (cl_released cl) \<le> (1 :: nat)"
    using inv by (simp add: client_inv_def)
  moreover have "\<exists>cl' c'. client_destroy cl = Some cl' \<and> cl_connection cl' = None \<and> cl_released cl' = cl_released cl @ [c']
      \<and> connection_destructible c'" if "cl_connection cl = Some c" "tcp_connected c" for c
    using destroy_open [of c] that by (auto simp: client_destroy_def tcp_connected_def)
  moreover have "\<exists>cl' c'. client_functor k cl = Some cl' \<and> cl_closing cl' = cs \<and> cl_released cl' = cl_released cl @ [c']
      \<and> connection_destructible c'" if "cl_closing cl = c # cs" for c cs
    using client_functor_releases [OF inv that, of k] by auto
  moreover have "\<exists>cl'. client_input_step k prog kern i cl = Some cl'" using client_step_inv [OF inv assms(2,3)] by blast
  moreover have "list_all connection_destructible (cl_released cl)" using inv by (simp add: client_inv_def list_all_iff)
  ultimately show ?thesis by blast
qed

text \<open>A client through its life: the attempt succeeds, the connection is established, closed by force and
  left to the functor.\<close>

abbreviation sample_attempts :: attempts where
  "sample_attempts \<equiv> \<lambda>_. (Inr 7, EINPROGRESS)"

lemma connected_client:
  "\<exists>cl c. client_runs k prog sample_attempts cl \<and> cl_connection cl = Some c \<and> tc_state c = kConnected \<and> tc_tasks c = []
     \<and> tc_calls c = [ConnectionCallback True] \<and> cl_closing cl = [] \<and> cl_released cl = []"
proof -
  let ?cl = "newTcpClient True False" and ?r = "Reaction []"
  define cn where "cn = startInLoop sample_attempts ?r (cl_connector ?cl)"
  have cn: "cn_state cn = CnConnecting" "cn_sockfd cn = 7" "cn_log cn = []" "cn_newConnectionCallback cn"
    using startInLoop_in_progress [of sample_attempts "cl_connector ?cl" 7 ?r]
    by (auto simp: cn_def newTcpClient_def newConnector_def)
  let ?cl1 = "?cl\<lparr>cl_connector := cn\<rparr>"
  have 1: "client_runs k prog sample_attempts ?cl1"
    by (rule client_next [OF client_new, where i = "ClConnect ?r"]) (simp_all add: tcpClient_connect_def cn_def)
  define cn1 where "cn1 = finishConnect sample_attempts ?r cn"
  have cn1: "cn_log cn1 = [ConnectedFd 7]" using cn by (simp add: cn1_def finishConnect_def cleanup_simps Let_def)
  have step: "connector_step sample_attempts (InEvent (\<lambda>_. 0) (\<lambda>_. 0) (\<lambda>_. None) ?r ?r EPOLLOUT) cn = Some cn1"
    using cn by (simp add: connector_dispatch_def handleEventWithGuard_def connector_handleWrite_def isSelfConnect_def event_defs cn1_def)
  obtain c where c: "connectEstablished (newTcpConnection 1 7 False (cn_poller cn1)) = Some c"
    using established_open by blast
  let ?cl2 = "?cl1\<lparr>cl_connector := cn1, cl_nextConnId := 2, cl_connection := Some c\<rparr>"
  have "client_input_step k prog sample_attempts (ClConnector (InEvent (\<lambda>_. 0) (\<lambda>_. 0) (\<lambda>_. None) ?r ?r EPOLLOUT) []) ?cl1 = Some ?cl2"
    using step cn cn1 c
    by (simp add: client_connector_step_def handed_over_def client_newConnection_def newTcpClient_def Let_def del: connector_step.simps)
  then have "client_runs k prog sample_attempts ?cl2" by (rule client_next [OF 1, rotated]) simp
  moreover have "tc_state c = kConnected" "tc_tasks c = []" "tc_calls c = [ConnectionCallback True]"
    using connectEstablished_same [OF c] by (simp_all add: newTcpConnection_def)
  ultimately show ?thesis by (intro exI [of _ ?cl2] exI [of _ c]) (simp add: newTcpClient_def)
qed

lemma closed_client: "\<exists>cl c. client_runs k prog sample_attempts cl \<and> cl_closing cl = [c] \<and> cl_released cl = []"
proof -
  obtain cl c where r: "client_runs k prog sample_attempts cl" and cl: "cl_connection cl = Some c" "cl_closing cl = []" "cl_released cl = []"
    and c: "tc_state c = kConnected" "tc_tasks c = []" "tc_calls c = [ConnectionCallback True]"
    using connected_client by blast
  let ?c1 = "c\<lparr>tc_state := kDisconnecting, tc_tasks := [ForceCloseInLoop]\<rparr>"
  have 1: "client_runs k prog sample_attempts (cl\<lparr>cl_connection := Some ?c1\<rparr>)"
    by (rule client_next [OF r, where i = "ClConnection ForceClose"])
      (simp_all add: cl c client_connection_step_def tcp_forceClose_def queueInLoop_def)
  obtain c2 where c2: "handleClose (?c1\<lparr>tc_tasks := []\<rparr>) = Some c2" by (simp add: handleClose_def)
  let ?cl2 = "cl\<lparr>cl_connection := None, cl_closing := [c2]\<rparr>"
  have "client_runs k prog sample_attempts ?cl2"
    by (rule client_next [OF 1, where i = "ClConnection Task"])
      (use c2 handleClose_same [OF c2] cl in
        \<open>simp_all add: client_connection_step_def run_task_def forceCloseInLoop_def client_removeConnection_def\<close>)
  then show ?thesis using cl by (intro exI [of _ ?cl2] exI [of _ c2]) simp
qed

theorem client_releases_connection_witness:
  "(\<exists>cl c cl' c'. client_runs (\<lambda>_. Inr 1) (\<lambda>_. []) sample_attempts cl \<and> cl_connection cl = Some c \<and> tcp_connected c
      \<and> client_destroy cl = Some cl' \<and> cl_released cl' = [c'] \<and> connection_destructible c')
   \<and> (\<exists>cl c cl' c'. client_runs (\<lambda>_. Inr 1) (\<lambda>_. []) sample_attempts cl \<and> cl_closing cl = [c]
      \<and> client_functor (\<lambda>_. Inr 1) cl = Some cl' \<and> cl_released cl' = [c'] \<and> connection_destructible c')"
proof -
  have k: "attempts_ok sample_attempts" by (simp add: attempts_ok_def)
  obtain cl c where 1: "client_runs (\<lambda>_. Inr 1) (\<lambda>_. []) sample_attempts cl" "cl_connection cl = Some c"
    "tcp_connected c" "cl_released cl = []"
    using connected_client [of "\<lambda>_. Inr 1" "\<lambda>_. []"] unfolding tcp_connected_def by blast
  obtain cl2 c2 where 2: "client_runs (\<lambda>_. Inr 1) (\<lambda>_. []) sample_attempts cl2" "cl_closing cl2 = [c2]" "cl_released cl2 = []"
    using closed_client by blast
  from client_releases_connection [OF 1(1) k, of ClStop] 1(2-4) obtain cl' c' where
    "client_destroy cl = Some cl'" "cl_released cl' = [c']" "connection_destructible c'" by auto
  moreover from client_releases_connection [OF 2(1) k, of ClStop] 2(2,3) obtain cl3 c3 where
    "client_functor (\<lambda>_. Inr 1) cl2 = Some cl3" "cl_released cl3 = [c3]" "connection_destructible c3" by auto
  ultimately show ?thesis using 1(1-3) 2(1,2) by blast
qed

text \<open>Destroying a client whose connection is half-closed, after \<open>disconnect\<close> for instance, leads to
  a failing assertion. The destructor leaves the connection to \<open>forceClose\<close> with an empty close callback;
  the queued functor closes the connection, but nothing removes its channel from the loop, and when the
  last reference is dropped \<open>~Channel\<close> finds it still added. Before that the functor has run the user's
  connection callback, which the destructor does not clear and which in \<open>RpcClient\<close> refers to the client
  that is gone.\<close>

theorem client_destroyed_half_closed:
  assumes "cl_connection cl = Some c" and "conn_inv c" and "tc_state c = kDisconnecting" and "tc_tasks c = []"
  shows "\<exists>cl' d c'. client_destroy cl = Some cl' \<and> cl_dying cl' = cl_dying cl @ [d]
    \<and> run_tasks k (tc_tasks d) (d\<lparr>tc_tasks := []\<rparr>) = Some c' \<and> tc_state c' = kDisconnected
    \<and> ch_addedToLoop (tc_channel c') \<and> \<not> connection_destructible c'
    \<and> tc_calls c' = tc_calls c @ [ConnectionCallback False, CloseCallback]"
proof -
  let ?d = "tcp_forceClose c"
  have d: "?d = c\<lparr>tc_state := kDisconnecting, tc_tasks := [ForceCloseInLoop]\<rparr>"
    using assms(3,4) by (simp add: tcp_forceClose_def queueInLoop_def)
  obtain c' where c': "handleClose (?d\<lparr>tc_tasks := []\<rparr>) = Some c'" by (simp add: d handleClose_def)
  have "tc_state c' = kDisconnected" "ch_addedToLoop (tc_channel c')"
    "tc_calls c' = tc_calls c @ [ConnectionCallback False, CloseCallback]"
    using c' disableAll_channel(1) [of "tc_channel c" "tc_poller c"]
    by (auto simp: d handleClose_def run_callback_def on_channel_def split: prod.splits)
  moreover have "run_tasks k (tc_tasks ?d) (?d\<lparr>tc_tasks := []\<rparr>) = Some c'"
    using c' by (simp add: d run_task_def forceCloseInLoop_def)
  moreover have "\<not> tcp_connected c" using assms(3) by (simp add: tcp_connected_def)
  ultimately show ?thesis using assms(1)
    by (auto simp: client_destroy_def connection_destructible_def Let_def)
qed

definition half_closed_client :: tcp_client where
  "half_closed_client = (newTcpClient True False)\<lparr>cl_connection := Some (tcp_shutdown True sample_connection)\<rparr>"

lemma sample_tasks: "tc_tasks sample_connection = []"
  by (simp add: sample_connection_def connectEstablished_def newTcpConnection_def run_callback_def on_channel_def Let_def
    split: prod.splits)

theorem client_destroyed_half_closed_witness:
  "\<exists>cl' d c'. client_destroy half_closed_client = Some cl' \<and> cl_dying cl' = [d]
    \<and> run_tasks (\<lambda>_. Inr 1) (tc_tasks d) (d\<lparr>tc_tasks := []\<rparr>) = Some c' \<and> \<not> connection_destructible c'"
proof -
  have c: "cl_connection half_closed_client = Some (tcp_shutdown True sample_connection)" "cl_dying half_closed_client = []"
    by (simp_all add: half_closed_client_def newTcpClient_def)
  have "conn_inv (tcp_shutdown True sample_connection)" by (rule tcp_shutdown_inv) (rule reachable_inv [OF sample_reachable(1)])
  moreover have "tc_state (tcp_shutdown True sample_connection) = kDisconnecting" "tc_tasks (tcp_shutdown True sample_connection) = []"
    using sample_reachable(2) sample_tasks by (simp_all add: tcp_shutdown_def tcp_connected_def shutdownInLoop_def Let_def)
  ultimately show ?thesis
    using client_destroyed_half_closed [OF c(1), of "\<lambda>_. Inr 1"] c(2) by auto
qed

end
