(* ===== verification/Tcp_Server.thy ===== *)
theory Tcp_Server
  imports Tcp_Lifecycle Inet_Address "HOL-Library.Multiset"
begin

section \<open>Accepting connections\<close>

text \<open>
  \<open>src/Acceptor.cpp\<close>, the part of \<open>src/Socket.cpp\<close> it calls, and \<open>src/TcpServer.cpp\<close>: the listening side
  with its reserve descriptor, the table of connections and their distribution over the worker loops.
  \<open>accept4\<close> and \<open>open\<close> are parameters. The connections are those of \<open>Tcp_Connection\<close>, with the events of
  \<open>Tcp_Lifecycle\<close>, and the server is the close callback of each of them.
\<close>

subsection \<open>Acceptor\<close>

definition ENFILE :: errno where "ENFILE = 23"
definition EMFILE :: errno where "EMFILE = 24"

text \<open>\<open>ac_accepts\<close> counts the calls of \<open>accept\<close>, \<open>ac_opens\<close> those of \<open>open\<close> after the constructor;
  \<open>ac_closed\<close> are the descriptors closed.\<close>

record acceptor =
  ac_listening :: bool
  ac_idleFd :: fd
  ac_newConnectionCallback :: bool
  ac_accepts :: nat
  ac_opens :: nat
  ac_closed :: "fd list"

definition newAcceptor :: "(nat \<Rightarrow> fd) \<Rightarrow> acceptor" where
  "newAcceptor open_null =
     \<lparr>ac_listening = False, ac_idleFd = open_null 0, ac_newConnectionCallback = False, ac_accepts = 0,
      ac_opens = 0, ac_closed = []\<rparr>"

definition acceptor_listen :: "acceptor \<Rightarrow> acceptor" where
  "acceptor_listen ac = ac\<lparr>ac_listening := True\<rparr>"

text \<open>\<open>Socket::accept\<close>: the call's errno, or the descriptor and the peer's address.\<close>

type_synonym accept_calls = "nat \<Rightarrow> errno + fd \<times> sockaddr_in"

definition socket_accept :: "accept_calls \<Rightarrow> acceptor \<Rightarrow> (errno + fd \<times> sockaddr_in) \<times> acceptor" where
  "socket_accept accept4 ac = (accept4 (ac_accepts ac), ac\<lparr>ac_accepts := ac_accepts ac + 1\<rparr>)"

text \<open>The socket handed to the callback, if there is one.\<close>

definition acceptor_handleRead ::
  "accept_calls \<Rightarrow> (nat \<Rightarrow> fd) \<Rightarrow> acceptor \<Rightarrow> (fd \<times> sockaddr_in) option \<times> acceptor" where
  "acceptor_handleRead accept4 open_null ac =
     (case socket_accept accept4 ac of
        (Inr (connfd, peer), ac1) \<Rightarrow>
          if ac_newConnectionCallback ac1 then (Some (connfd, peer), ac1)
          else (None, ac1\<lparr>ac_closed := ac_closed ac1 @ [connfd]\<rparr>)
      | (Inl err, ac1) \<Rightarrow>
          if err = EMFILE \<or> err = ENFILE then
            (let ac2 = ac1\<lparr>ac_closed := ac_closed ac1 @ [ac_idleFd ac1]\<rparr>;
                 (res, ac3) = socket_accept accept4 ac2;
                 ac4 = (case res of
                          Inr (fd, _) \<Rightarrow> ac3\<lparr>ac_closed := ac_closed ac3 @ [fd]\<rparr>
                        | Inl _ \<Rightarrow> ac3)
             in (None, ac4\<lparr>ac_idleFd := open_null (ac_opens ac4 + 1), ac_opens := ac_opens ac4 + 1\<rparr>))
          else (None, ac1))"

subsection \<open>TcpServer\<close>

text \<open>Loop 0 is the base loop, loop \<open>i + 1\<close> the \<open>i\<close>-th sub-loop. A connection has a number, by which tasks and
  callbacks refer to it; \<open>sc_conn\<close> is its object, which has its own view of the poller of its loop.\<close>

record server_conn =
  sc_name :: bytes
  sc_loop :: nat
  sc_fd :: fd
  sc_peer :: sockaddr_in
  sc_conn :: tcp_connection

datatype server_task = EstablishTask nat | RemoveTask nat | DestroyTask nat

text \<open>\<open>ts_conns\<close> are the connections ever created, \<open>ts_tasks\<close> the functors posted to loops, the other
  lists record the calls of \<open>connectEstablished\<close>, \<open>removeConnection\<close> and \<open>connectDestroyed\<close>. \<open>nextConnId_\<close> is an
  \<open>int\<close>; the increment that would overflow is undefined.\<close>

record tcp_server =
  ts_name :: bytes
  ts_started :: bool
  ts_threadNum :: nat
  ts_subLoops :: nat
  ts_listening :: bool
  ts_writeComplete :: bool
  ts_nextConnId :: nat
  ts_connections :: "bytes \<rightharpoonup> nat"
  ts_conns :: "server_conn list"
  ts_tasks :: "(nat \<times> server_task) list"
  ts_established :: "nat list"
  ts_closed :: "nat list"
  ts_destroyed :: "nat list"

definition newTcpServer :: "bytes \<Rightarrow> tcp_server" where
  "newTcpServer name =
     \<lparr>ts_name = name, ts_started = False, ts_threadNum = 0, ts_subLoops = 0, ts_listening = False,
      ts_writeComplete = False, ts_nextConnId = 1, ts_connections = Map.empty, ts_conns = [], ts_tasks = [],
      ts_established = [], ts_closed = [], ts_destroyed = []\<rparr>"

text \<open>The assertion of \<open>setThreadNum\<close>.\<close>

definition setThreadNum :: "nat \<Rightarrow> tcp_server \<Rightarrow> tcp_server option" where
  "setThreadNum n sv = (if ts_started sv then None else Some (sv\<lparr>ts_threadNum := n\<rparr>))"

definition setWriteCompleteCallback :: "bool \<Rightarrow> tcp_server \<Rightarrow> tcp_server" where
  "setWriteCompleteCallback cb sv = sv\<lparr>ts_writeComplete := cb\<rparr>"

definition tcpServer_start :: "tcp_server \<Rightarrow> tcp_server" where
  "tcpServer_start sv =
     (let sv1 = (if ts_started sv then sv else sv\<lparr>ts_started := True, ts_subLoops := ts_threadNum sv\<rparr>)
      in if ts_listening sv1 then sv1 else sv1\<lparr>ts_listening := True\<rparr>)"

definition connName :: "bytes \<Rightarrow> sockaddr_in \<Rightarrow> nat \<Rightarrow> bytes" where
  "connName name peer n = name @ [0x2D] @ toIpPort peer @ [0x23] @ dec_digits n"

definition INT_MAX :: nat where
  "INT_MAX = 2 ^ 31 - 1"

definition update_conn :: "nat \<Rightarrow> tcp_connection \<Rightarrow> tcp_server \<Rightarrow> tcp_server" where
  "update_conn i c sv = sv\<lparr>ts_conns := (ts_conns sv)[i := (ts_conns sv ! i)\<lparr>sc_conn := c\<rparr>]\<rparr>"

definition server_establish :: "nat \<Rightarrow> tcp_server \<Rightarrow> tcp_server option" where
  "server_establish i sv =
     map_option (\<lambda>c. update_conn i c (sv\<lparr>ts_established := ts_established sv @ [i]\<rparr>))
       (connectEstablished (sc_conn (ts_conns sv ! i)))"

definition server_newConnection :: "fd \<Rightarrow> sockaddr_in \<Rightarrow> tcp_server \<Rightarrow> tcp_server option" where
  "server_newConnection fd peer sv =
     (if ts_subLoops sv \<noteq> 0 \<and> ts_nextConnId sv = INT_MAX then None
      else
        let (ioLoop, sv1) =
              (if ts_subLoops sv \<noteq> 0
               then (ts_nextConnId sv mod ts_subLoops sv + 1, sv\<lparr>ts_nextConnId := ts_nextConnId sv + 1\<rparr>)
               else (0, sv));
            name = connName (ts_name sv1) peer (ts_nextConnId sv1);
            i = length (ts_conns sv1);
            conn = \<lparr>sc_name = name, sc_loop = ioLoop, sc_fd = fd, sc_peer = peer,
                    sc_conn = newTcpConnection i fd (ts_writeComplete sv1) newPoller\<rparr>;
            sv2 = sv1\<lparr>ts_conns := ts_conns sv1 @ [conn], ts_connections := (ts_connections sv1)(name \<mapsto> i)\<rparr>
        in if ioLoop = 0 then server_establish i sv2
           else Some (sv2\<lparr>ts_tasks := ts_tasks sv2 @ [(ioLoop, EstablishTask i)]\<rparr>))"

text \<open>\<open>None\<close>: the assertion that the name was in the table fails.\<close>

definition removeConnectionInLoop :: "nat \<Rightarrow> tcp_server \<Rightarrow> tcp_server option" where
  "removeConnectionInLoop i sv =
     (let conn = ts_conns sv ! i
      in if ts_connections sv (sc_name conn) = None then None
         else Some (sv\<lparr>ts_connections := (ts_connections sv)(sc_name conn := None),
                       ts_tasks := ts_tasks sv @ [(sc_loop conn, DestroyTask i)]\<rparr>))"

text \<open>The close callback of a connection, on the connection's loop.\<close>

definition server_removeConnection :: "nat \<Rightarrow> tcp_server \<Rightarrow> tcp_server option" where
  "server_removeConnection i sv =
     (let sv1 = sv\<lparr>ts_closed := ts_closed sv @ [i]\<rparr>
      in if sc_loop (ts_conns sv1 ! i) = 0 then removeConnectionInLoop i sv1
         else Some (sv1\<lparr>ts_tasks := ts_tasks sv1 @ [(0, RemoveTask i)]\<rparr>))"

definition server_destroyConnection :: "nat \<Rightarrow> tcp_server \<Rightarrow> tcp_server option" where
  "server_destroyConnection i sv =
     map_option (\<lambda>c. update_conn i c (sv\<lparr>ts_destroyed := ts_destroyed sv @ [i]\<rparr>))
       (connectDestroyed (sc_conn (ts_conns sv ! i)))"

fun run_server_task :: "server_task \<Rightarrow> tcp_server \<Rightarrow> tcp_server option" where
  "run_server_task (EstablishTask i) sv = server_establish i sv"
| "run_server_task (RemoveTask i) sv = removeConnectionInLoop i sv"
| "run_server_task (DestroyTask i) sv = server_destroyConnection i sv"

text \<open>The destructor, over the connections in the table in the order of their names.\<close>

fun destroyTcpServer :: "nat list \<Rightarrow> tcp_server \<Rightarrow> tcp_server option" where
  "destroyTcpServer [] sv = Some sv"
| "destroyTcpServer (i # is) sv =
     Option.bind
       (if sc_loop (ts_conns sv ! i) = 0 then server_destroyConnection i sv
        else Some (sv\<lparr>ts_tasks := ts_tasks sv @ [(sc_loop (ts_conns sv ! i), DestroyTask i)]\<rparr>))
       (destroyTcpServer is)"

subsection \<open>Steps\<close>

text \<open>A step of the server's environment: a descriptor is accepted, something happens to a connection, or a
  loop runs its next task. Each time a connection runs its close callback, the callback is \<open>removeConnection\<close>.\<close>

datatype server_event = SvAccept fd sockaddr_in | SvConn nat conn_event | SvTask nat

fun close_callbacks :: "nat \<Rightarrow> user_call list \<Rightarrow> tcp_server \<Rightarrow> tcp_server option" where
  "close_callbacks i [] sv = Some sv"
| "close_callbacks i (CloseCallback # calls) sv = Option.bind (server_removeConnection i sv) (close_callbacks i calls)"
| "close_callbacks i (_ # calls) sv = close_callbacks i calls sv"

definition server_conn_step :: "kernel \<Rightarrow> user_code \<Rightarrow> nat \<Rightarrow> conn_event \<Rightarrow> tcp_server \<Rightarrow> tcp_server option" where
  "server_conn_step k prog i ev sv =
     (let c = sc_conn (ts_conns sv ! i)
      in case conn_step k prog ev c of
           None \<Rightarrow> None
         | Some c' \<Rightarrow> close_callbacks i (drop (length (tc_calls c)) (tc_calls c')) (update_conn i c' sv))"

text \<open>The next task of a loop: each loop runs its own tasks in order, the loops interleave freely.\<close>

fun take_task :: "nat \<Rightarrow> (nat \<times> server_task) list \<Rightarrow> (server_task \<times> (nat \<times> server_task) list) option" where
  "take_task l [] = None"
| "take_task l ((l', t) # ts) =
     (if l' = l then Some (t, ts) else map_option (\<lambda>(t', ts'). (t', (l', t) # ts')) (take_task l ts))"

text \<open>\<open>k i\<close> is the kernel's answer to the writes of connection \<open>i\<close>.\<close>

fun server_step :: "(nat \<Rightarrow> kernel) \<Rightarrow> user_code \<Rightarrow> server_event \<Rightarrow> tcp_server \<Rightarrow> tcp_server option" where
  "server_step k prog (SvAccept fd peer) sv = server_newConnection fd peer sv"
| "server_step k prog (SvConn i ev) sv = server_conn_step (k i) prog i ev sv"
| "server_step k prog (SvTask l) sv =
     (case take_task l (ts_tasks sv) of
        None \<Rightarrow> Some sv
      | Some (t, ts) \<Rightarrow> run_server_task t (sv\<lparr>ts_tasks := ts\<rparr>))"

fun server_run :: "(nat \<Rightarrow> kernel) \<Rightarrow> user_code \<Rightarrow> server_event list \<Rightarrow> tcp_server \<Rightarrow> tcp_server option" where
  "server_run k prog [] sv = Some sv"
| "server_run k prog (e # es) sv = Option.bind (server_step k prog e sv) (server_run k prog es)"

text \<open>A condition on every event of a run and the state it meets.\<close>

fun along :: "(server_event \<Rightarrow> tcp_server \<Rightarrow> bool) \<Rightarrow> (nat \<Rightarrow> kernel) \<Rightarrow> user_code \<Rightarrow> server_event list \<Rightarrow> tcp_server \<Rightarrow> bool" where
  "along Q k prog [] sv \<longleftrightarrow> True"
| "along Q k prog (e # es) sv \<longleftrightarrow>
     Q e sv \<and> (case server_step k prog e sv of None \<Rightarrow> True | Some sv' \<Rightarrow> along Q k prog es sv')"

text \<open>The loops and the kernel respect \<open>event_ok\<close>; only the server establishes and destroys.\<close>

fun server_event_ok :: "server_event \<Rightarrow> tcp_server \<Rightarrow> bool" where
  "server_event_ok (SvConn i ev) sv \<longleftrightarrow>
     i < length (ts_conns sv) \<and> ev \<noteq> Established \<and> ev \<noteq> Destroyed \<and> event_ok ev (sc_conn (ts_conns sv ! i))"
| "server_event_ok _ sv \<longleftrightarrow> True"

text \<open>The name of the next connection is not in the table: with sub-loops always, otherwise if no connection
  in the table has the same peer address.\<close>

definition fresh_peer :: "sockaddr_in \<Rightarrow> tcp_server \<Rightarrow> bool" where
  "fresh_peer peer sv \<longleftrightarrow> 0 < ts_subLoops sv \<or>
     (\<forall>i \<in> ran (ts_connections sv).
        (sin_addr (sc_peer (ts_conns sv ! i)), sin_port (sc_peer (ts_conns sv ! i))) \<noteq> (sin_addr peer, sin_port peer))"

fun peer_ok :: "server_event \<Rightarrow> tcp_server \<Rightarrow> bool" where
  "peer_ok (SvAccept fd peer) sv \<longleftrightarrow> fresh_peer peer sv"
| "peer_ok _ sv \<longleftrightarrow> True"

fun accepts :: "server_event list \<Rightarrow> nat" where
  "accepts [] = 0"
| "accepts (SvAccept fd peer # es) = Suc (accepts es)"
| "accepts (_ # es) = accepts es"

subsection \<open>Invariant\<close>

fun establish_ids :: "(nat \<times> server_task) list \<Rightarrow> nat list" where
  "establish_ids [] = []"
| "establish_ids ((_, EstablishTask i) # ts) = i # establish_ids ts"
| "establish_ids (_ # ts) = establish_ids ts"

fun remove_ids :: "(nat \<times> server_task) list \<Rightarrow> nat list" where
  "remove_ids [] = []"
| "remove_ids ((_, RemoveTask i) # ts) = i # remove_ids ts"
| "remove_ids (_ # ts) = remove_ids ts"

fun destroy_ids :: "(nat \<times> server_task) list \<Rightarrow> nat list" where
  "destroy_ids [] = []"
| "destroy_ids ((_, DestroyTask i) # ts) = i # destroy_ids ts"
| "destroy_ids (_ # ts) = destroy_ids ts"

lemma task_ids_append [simp]:
  "establish_ids (ts @ us) = establish_ids ts @ establish_ids us" "remove_ids (ts @ us) = remove_ids ts @ remove_ids us"
  "destroy_ids (ts @ us) = destroy_ids ts @ destroy_ids us"
  by (induction ts rule: establish_ids.induct) simp_all

lemma take_task_split:
  "take_task l ts = Some (t, us) \<Longrightarrow> \<exists>as bs. ts = as @ (l, t) # bs \<and> us = as @ bs"
proof (induction ts arbitrary: us)
  case (Cons x ts)
  show ?case
  proof (cases "fst x = l")
    case True
    with Cons.prems show ?thesis by (cases x) (auto intro: exI [of _ "[]"])
  next
    case False
    then obtain vs where "take_task l ts = Some (t, vs)" "us = x # vs" using Cons.prems by (cases x) auto
    with Cons.IH [OF this(1)] show ?thesis by (metis append_Cons)
  qed
qed simp

definition removed_ids :: "tcp_server \<Rightarrow> nat list" where
  "removed_ids sv = destroy_ids (ts_tasks sv) @ ts_destroyed sv"

definition conn_ids :: "tcp_server \<Rightarrow> nat set" where
  "conn_ids sv = {..<length (ts_conns sv)}"

text \<open>Every connection is established once and closed at most once; a closed one is removed from the
  table and destroyed once.\<close>

definition tasks_inv :: "tcp_server \<Rightarrow> bool" where
  "tasks_inv sv \<longleftrightarrow>
     mset (ts_closed sv) = mset (remove_ids (ts_tasks sv)) + mset (removed_ids sv)
     \<and> distinct (ts_closed sv) \<and> set (ts_closed sv) \<subseteq> set (ts_established sv)
     \<and> mset (ts_established sv) + mset (establish_ids (ts_tasks sv)) = mset [0..<length (ts_conns sv)]"

text \<open>The table holds the connections that are not removed, under their names.\<close>

definition table_inv :: "tcp_server \<Rightarrow> bool" where
  "table_inv sv \<longleftrightarrow> (\<forall>s i. ts_connections sv s = Some i \<longleftrightarrow>
     i \<in> conn_ids sv - set (removed_ids sv) \<and> s = sc_name (ts_conns sv ! i))"

text \<open>How connections are named and spread over the loops.\<close>

definition names_inv :: "tcp_server \<Rightarrow> bool" where
  "names_inv sv \<longleftrightarrow>
     (\<forall>i \<in> conn_ids sv. \<exists>k \<le> ts_nextConnId sv.
        sc_name (ts_conns sv ! i) = connName (ts_name sv) (sc_peer (ts_conns sv ! i)) k)
     \<and> ts_nextConnId sv = (if ts_subLoops sv = 0 then 1 else length (ts_conns sv) + 1)"

definition loops_inv :: "tcp_server \<Rightarrow> bool" where
  "loops_inv sv \<longleftrightarrow> (\<forall>i \<in> conn_ids sv.
     sc_loop (ts_conns sv ! i) = (if ts_subLoops sv = 0 then 0 else (i + 1) mod ts_subLoops sv + 1))"

text \<open>Every connection object is in a state of its life cycle that agrees with what the server has done to it:
  it was established exactly if it has left its first state, \<open>removeConnection\<close> has run exactly if the
  close callback has, and a destroyed one can be released.\<close>

definition conns_inv :: "tcp_server \<Rightarrow> bool" where
  "conns_inv sv \<longleftrightarrow> (\<forall>i \<in> conn_ids sv. let c = sc_conn (ts_conns sv ! i) in
     conn_inv c \<and> (if i \<in> set (ts_established sv) then close_told c else tc_state c = kConnecting)
     \<and> (i \<in> set (ts_closed sv) \<longleftrightarrow> CloseCallback \<in> set (tc_calls c))
     \<and> (i \<in> set (ts_destroyed sv) \<longrightarrow> connection_destructible c))"

definition server_inv :: "tcp_server \<Rightarrow> bool" where
  "server_inv sv \<longleftrightarrow> tasks_inv sv \<and> table_inv sv \<and> names_inv sv \<and> loops_inv sv \<and> conns_inv sv"

lemma update_conn_fields [simp]:
  "ts_connections (update_conn i c sv) = ts_connections sv" "ts_tasks (update_conn i c sv) = ts_tasks sv"
  "ts_established (update_conn i c sv) = ts_established sv" "ts_closed (update_conn i c sv) = ts_closed sv"
  "ts_destroyed (update_conn i c sv) = ts_destroyed sv" "ts_subLoops (update_conn i c sv) = ts_subLoops sv"
  "ts_name (update_conn i c sv) = ts_name sv" "ts_nextConnId (update_conn i c sv) = ts_nextConnId sv"
  "length (ts_conns (update_conn i c sv)) = length (ts_conns sv)"
  "removed_ids (update_conn i c sv) = removed_ids sv" "conn_ids (update_conn i c sv) = conn_ids sv"
  by (simp_all add: update_conn_def removed_ids_def conn_ids_def)

lemma update_conn_nth [simp]:
  "sc_name (ts_conns (update_conn i c sv) ! j) = sc_name (ts_conns sv ! j)"
  "sc_loop (ts_conns (update_conn i c sv) ! j) = sc_loop (ts_conns sv ! j)"
  "sc_peer (ts_conns (update_conn i c sv) ! j) = sc_peer (ts_conns sv ! j)"
  "sc_conn (ts_conns (update_conn i c sv) ! j) = (if i = j \<and> i < length (ts_conns sv) then c else sc_conn (ts_conns sv ! j))"
proof -
  have "ts_conns (update_conn i c sv) ! j =
      (if i = j \<and> i < length (ts_conns sv) then (ts_conns sv ! j)\<lparr>sc_conn := c\<rparr> else ts_conns sv ! j)"
    by (cases "i < length (ts_conns sv)") (auto simp: update_conn_def nth_list_update list_update_beyond)
  then show "sc_name (ts_conns (update_conn i c sv) ! j) = sc_name (ts_conns sv ! j)"
    "sc_loop (ts_conns (update_conn i c sv) ! j) = sc_loop (ts_conns sv ! j)"
    "sc_peer (ts_conns (update_conn i c sv) ! j) = sc_peer (ts_conns sv ! j)"
    "sc_conn (ts_conns (update_conn i c sv) ! j) = (if i = j \<and> i < length (ts_conns sv) then c else sc_conn (ts_conns sv ! j))"
    by simp_all
qed

lemma update_conn_inv [simp]:
  "tasks_inv (update_conn i c sv) = tasks_inv sv" "table_inv (update_conn i c sv) = table_inv sv"
  "names_inv (update_conn i c sv) = names_inv sv" "loops_inv (update_conn i c sv) = loops_inv sv"
  by (simp_all add: tasks_inv_def table_inv_def names_inv_def loops_inv_def)

lemma connName_inj:
  assumes "connName s x m = connName s y n"
  shows "sin_addr x = sin_addr y \<and> sin_port x = sin_port y \<and> m = n"
proof -
  from assms have "toIpPort x @ 0x23 # dec_digits m = toIpPort y @ 0x23 # dec_digits n" by (simp add: connName_def)
  from toIpPort_split [OF this not_digits(3)] dec_digits_inj show ?thesis by blast
qed

lemma fresh_name:
  assumes "table_inv sv" and "names_inv sv" and "fresh_peer peer sv"
  shows "ts_connections sv (connName (ts_name sv) peer (if ts_subLoops sv = 0 then 1 else ts_nextConnId sv + 1)) = None"
proof (rule ccontr)
  let ?k = "if ts_subLoops sv = 0 then 1 else ts_nextConnId sv + 1"
  assume "ts_connections sv (connName (ts_name sv) peer ?k) \<noteq> None"
  then obtain i where i: "ts_connections sv (connName (ts_name sv) peer ?k) = Some i" by blast
  then have "i \<in> conn_ids sv" and n: "sc_name (ts_conns sv ! i) = connName (ts_name sv) peer ?k"
    using assms(1) by (auto simp: table_inv_def)
  then obtain m where m: "sc_name (ts_conns sv ! i) = connName (ts_name sv) (sc_peer (ts_conns sv ! i)) m" "m \<le> ts_nextConnId sv"
    using assms(2) unfolding names_inv_def by blast
  have eq: "sin_addr (sc_peer (ts_conns sv ! i)) = sin_addr peer \<and> sin_port (sc_peer (ts_conns sv ! i)) = sin_port peer \<and> m = ?k"
    by (rule connName_inj) (use n m(1) in simp)
  then have "ts_subLoops sv = 0" using m(2) by (auto split: if_splits)
  with eq assms(3) i show False by (auto simp: fresh_peer_def intro!: ranI)
qed

lemma removed_known:
  assumes "tasks_inv sv"
  shows "set (remove_ids (ts_tasks sv) @ removed_ids sv) = set (ts_closed sv)" and "set (ts_closed sv) \<subseteq> conn_ids sv"
    and "distinct (remove_ids (ts_tasks sv) @ removed_ids sv)"
    and "set (ts_established sv @ establish_ids (ts_tasks sv)) = conn_ids sv"
    and "distinct (ts_established sv @ establish_ids (ts_tasks sv))"
proof -
  have m: "mset (remove_ids (ts_tasks sv) @ removed_ids sv) = mset (ts_closed sv)" using assms by (simp add: tasks_inv_def)
  then show "set (remove_ids (ts_tasks sv) @ removed_ids sv) = set (ts_closed sv)" by (rule mset_eq_setD)
  show "distinct (remove_ids (ts_tasks sv) @ removed_ids sv)"
    using mset_eq_imp_distinct_iff [OF m] assms by (simp add: tasks_inv_def)
  have e: "mset (ts_established sv @ establish_ids (ts_tasks sv)) = mset [0..<length (ts_conns sv)]"
    using assms by (simp add: tasks_inv_def)
  show "distinct (ts_established sv @ establish_ids (ts_tasks sv))" using mset_eq_imp_distinct_iff [OF e] by simp
  show s: "set (ts_established sv @ establish_ids (ts_tasks sv)) = conn_ids sv"
    unfolding mset_eq_setD [OF e] by (simp add: conn_ids_def lessThan_atLeast0)
  have "set (ts_closed sv) \<subseteq> set (ts_established sv)" using assms unfolding tasks_inv_def by blast
  with s show "set (ts_closed sv) \<subseteq> conn_ids sv" by auto
qed

subsubsection \<open>A new connection\<close>

text \<open>The server after a connection is created, before it is established.\<close>

definition with_connection :: "fd \<Rightarrow> sockaddr_in \<Rightarrow> tcp_server \<Rightarrow> tcp_server" where
  "with_connection fd peer sv =
     (let n = (if ts_subLoops sv = 0 then ts_nextConnId sv else ts_nextConnId sv + 1);
          l = (if ts_subLoops sv = 0 then 0 else ts_nextConnId sv mod ts_subLoops sv + 1)
      in sv\<lparr>ts_nextConnId := n, ts_conns := ts_conns sv @ [\<lparr>sc_name = connName (ts_name sv) peer n, sc_loop = l, sc_fd = fd,
              sc_peer = peer, sc_conn = newTcpConnection (length (ts_conns sv)) fd (ts_writeComplete sv) newPoller\<rparr>],
            ts_connections := (ts_connections sv)(connName (ts_name sv) peer n \<mapsto> length (ts_conns sv))\<rparr>)"

lemma newConnection_split:
  "server_newConnection fd peer sv =
     (if ts_subLoops sv = 0 then server_establish (length (ts_conns sv)) (with_connection fd peer sv)
      else if ts_nextConnId sv = INT_MAX then None
      else Some ((with_connection fd peer sv)\<lparr>ts_tasks :=
        ts_tasks sv @ [(ts_nextConnId sv mod ts_subLoops sv + 1, EstablishTask (length (ts_conns sv)))]\<rparr>))"
  by (simp add: server_newConnection_def with_connection_def Let_def)

lemma with_connection_inv:
  assumes "server_inv sv" and "fresh_peer peer sv"
    and us: "us = (l, EstablishTask (length (ts_conns sv))) # ts_tasks sv
      \<or> us = ts_tasks sv @ [(l, EstablishTask (length (ts_conns sv)))]"
  shows "server_inv ((with_connection fd peer sv)\<lparr>ts_tasks := us\<rparr>)"
proof -
  let ?w = "with_connection fd peer sv" and ?i = "length (ts_conns sv)"
  let ?sv = "?w\<lparr>ts_tasks := us\<rparr>"
  let ?n = "if ts_subLoops sv = 0 then ts_nextConnId sv else ts_nextConnId sv + 1"
  note inv = assms(1) [unfolded server_inv_def]
  have nx: "ts_nextConnId sv = (if ts_subLoops sv = 0 then 1 else ?i + 1)" using inv by (simp add: names_inv_def)
  have fresh: "ts_connections sv (connName (ts_name sv) peer ?n) = None"
    using fresh_name [OF _ _ assms(2)] inv nx by (simp split: if_splits)
  have f: "ts_connections ?w = (ts_connections sv)(connName (ts_name sv) peer ?n \<mapsto> ?i)" "ts_name ?w = ts_name sv"
    "ts_subLoops ?w = ts_subLoops sv" "ts_nextConnId ?w = ?n" "ts_established ?w = ts_established sv"
    "ts_closed ?w = ts_closed sv" "ts_destroyed ?w = ts_destroyed sv" "length (ts_conns ?w) = Suc ?i"
    "sc_name (ts_conns ?w ! ?i) = connName (ts_name sv) peer ?n" "sc_peer (ts_conns ?w ! ?i) = peer"
    "sc_loop (ts_conns ?w ! ?i) = (if ts_subLoops sv = 0 then 0 else ts_nextConnId sv mod ts_subLoops sv + 1)"
    "sc_conn (ts_conns ?w ! ?i) = newTcpConnection ?i fd (ts_writeComplete sv) newPoller"
    by (simp_all add: with_connection_def Let_def)
  have old: "j \<in> conn_ids sv \<Longrightarrow> ts_conns ?w ! j = ts_conns sv ! j" for j
    by (simp add: conn_ids_def with_connection_def nth_append Let_def)
  have ids: "conn_ids ?sv = insert ?i (conn_ids sv)" using f(8) by (auto simp: conn_ids_def)
  have t: "remove_ids us = remove_ids (ts_tasks sv)" "destroy_ids us = destroy_ids (ts_tasks sv)"
    "mset (establish_ids us) = add_mset ?i (mset (establish_ids (ts_tasks sv)))" using us by auto
  have rem: "removed_ids ?sv = removed_ids sv" using t f(7) by (simp add: removed_ids_def)
  note known = removed_known [OF conjunct1 [OF inv]]
  have out: "?i \<notin> conn_ids sv" by (simp add: conn_ids_def)
  then have new: "?i \<notin> set (ts_established sv)" "?i \<notin> set (ts_closed sv)" "?i \<notin> set (removed_ids sv)" "?i \<notin> set (ts_destroyed sv)"
    using known(1,2,4) by (auto simp: removed_ids_def)
  have "tasks_inv ?sv" using inv t f(8) by (simp add: tasks_inv_def rem f(5,6))
  moreover have "table_inv ?sv"
    unfolding table_inv_def
  proof (intro allI)
    fix s j
    have tab: "ts_connections sv s = Some j \<longleftrightarrow> j \<in> conn_ids sv - set (removed_ids sv) \<and> s = sc_name (ts_conns sv ! j)"
      using inv unfolding table_inv_def by blast
    have "ts_connections ?sv s = Some j \<longleftrightarrow> s = connName (ts_name sv) peer ?n \<and> j = ?i \<or> ts_connections sv s = Some j"
      using fresh by (auto simp: f(1))
    also have "\<dots> \<longleftrightarrow> j \<in> conn_ids ?sv - set (removed_ids ?sv) \<and> s = sc_name (ts_conns ?sv ! j)"
      unfolding tab ids rem using f(9) new(3) out old [of j] by auto
    finally show "ts_connections ?sv s = Some j \<longleftrightarrow> j \<in> conn_ids ?sv - set (removed_ids ?sv) \<and> s = sc_name (ts_conns ?sv ! j)" .
  qed
  moreover have "names_inv ?sv"
    unfolding names_inv_def
  proof (intro conjI ballI)
    fix j assume "j \<in> conn_ids ?sv"
    then consider "j = ?i" | "j \<in> conn_ids sv" using ids by blast
    then show "\<exists>k\<le>ts_nextConnId ?sv. sc_name (ts_conns ?sv ! j) = connName (ts_name ?sv) (sc_peer (ts_conns ?sv ! j)) k"
    proof cases
      case 2
      then obtain k where "k \<le> ts_nextConnId sv" "sc_name (ts_conns sv ! j) = connName (ts_name sv) (sc_peer (ts_conns sv ! j)) k"
        using inv unfolding names_inv_def by blast
      then show ?thesis using old [OF 2] by (intro exI [of _ k]) (simp add: f(2,4))
    qed (intro exI [of _ ?n], simp add: f(2,4,9,10))
  qed (use nx f(3,4,8) in simp)
  moreover have "loops_inv ?sv" using inv nx old f(3,11) by (auto simp: loops_inv_def ids)
  moreover have "conns_inv ?sv"
    unfolding conns_inv_def ids
  proof (intro ballI)
    fix j assume "j \<in> insert ?i (conn_ids sv)"
    then show "let c = sc_conn (ts_conns ?sv ! j) in
       conn_inv c \<and> (if j \<in> set (ts_established ?sv) then close_told c else tc_state c = kConnecting)
       \<and> (j \<in> set (ts_closed ?sv) \<longleftrightarrow> CloseCallback \<in> set (tc_calls c))
       \<and> (j \<in> set (ts_destroyed ?sv) \<longrightarrow> connection_destructible c)"
    proof (cases "j = ?i")
      case True
      then show ?thesis using new newTcpConnection_inv by (simp add: f(5-7,12)) (simp add: newTcpConnection_def)
    next
      case False
      with \<open>j \<in> insert _ _\<close> have j: "j \<in> conn_ids sv" by simp
      with inv old [OF j] show ?thesis by (simp add: conns_inv_def f(5-7))
    qed
  qed
  ultimately show ?thesis by (simp add: server_inv_def)
qed

subsubsection \<open>What happens to one connection\<close>

text \<open>Only connection \<open>i\<close> and what was done to it have changed.\<close>

lemma conns_inv_update:
  assumes "conns_inv sv" and "i < length (ts_conns sv)"
    and "ts_conns sv' = ts_conns (update_conn i c sv)"
    and "\<And>j. j \<noteq> i \<Longrightarrow> (j \<in> set (ts_established sv') \<longleftrightarrow> j \<in> set (ts_established sv))
      \<and> (j \<in> set (ts_closed sv') \<longleftrightarrow> j \<in> set (ts_closed sv)) \<and> (j \<in> set (ts_destroyed sv') \<longrightarrow> j \<in> set (ts_destroyed sv))"
    and "conn_inv c" and "if i \<in> set (ts_established sv') then close_told c else tc_state c = kConnecting"
    and "i \<in> set (ts_closed sv') \<longleftrightarrow> CloseCallback \<in> set (tc_calls c)" and "i \<in> set (ts_destroyed sv') \<Longrightarrow> connection_destructible c"
  shows "conns_inv sv'"
  unfolding conns_inv_def
proof (intro ballI)
  fix j assume "j \<in> conn_ids sv'"
  then have j: "j \<in> conn_ids sv" using assms(3) by (simp add: conn_ids_def)
  show "let c = sc_conn (ts_conns sv' ! j) in
       conn_inv c \<and> (if j \<in> set (ts_established sv') then close_told c else tc_state c = kConnecting)
       \<and> (j \<in> set (ts_closed sv') \<longleftrightarrow> CloseCallback \<in> set (tc_calls c))
       \<and> (j \<in> set (ts_destroyed sv') \<longrightarrow> connection_destructible c)"
  proof (cases "j = i")
    case True
    then show ?thesis using assms(2,3,5-8) by simp
  next
    case False
    with assms(1,3) assms(4) [OF False] j show ?thesis by (simp add: conns_inv_def Let_def)
  qed
qed

lemma conns_invD:
  assumes "conns_inv sv" and "i < length (ts_conns sv)"
  shows "conn_inv (sc_conn (ts_conns sv ! i))"
    and "i \<in> set (ts_established sv) \<Longrightarrow> close_told (sc_conn (ts_conns sv ! i))"
    and "i \<notin> set (ts_established sv) \<Longrightarrow> tc_state (sc_conn (ts_conns sv ! i)) = kConnecting"
    and "i \<in> set (ts_closed sv) \<longleftrightarrow> CloseCallback \<in> set (tc_calls (sc_conn (ts_conns sv ! i)))"
    and "i \<in> set (ts_destroyed sv) \<Longrightarrow> connection_destructible (sc_conn (ts_conns sv ! i))"
  using assms by (auto simp: conns_inv_def conn_ids_def Let_def)

lemma conns_inv_same:
  "ts_conns sv' = ts_conns sv \<Longrightarrow> ts_established sv' = ts_established sv \<Longrightarrow> ts_closed sv' = ts_closed sv \<Longrightarrow>
   ts_destroyed sv' = ts_destroyed sv \<Longrightarrow> conns_inv sv' = conns_inv sv"
  by (simp add: conns_inv_def conn_ids_def)

lemma names_loops_cong:
  assumes "ts_conns sv' = ts_conns sv" "ts_name sv' = ts_name sv" "ts_nextConnId sv' = ts_nextConnId sv"
    "ts_subLoops sv' = ts_subLoops sv"
  shows "names_inv sv' = names_inv sv" "loops_inv sv' = loops_inv sv"
  using assms by (simp_all add: names_inv_def loops_inv_def conn_ids_def)

lemma establish_inv:
  assumes "server_inv (sv\<lparr>ts_tasks := (l, EstablishTask i) # ts_tasks sv\<rparr>)"
  shows "\<exists>sv'. server_establish i sv = Some sv' \<and> server_inv sv' \<and> ts_subLoops sv' = ts_subLoops sv
    \<and> length (ts_conns sv') = length (ts_conns sv)"
proof -
  let ?sv = "sv\<lparr>ts_tasks := (l, EstablishTask i) # ts_tasks sv\<rparr>" and ?c = "sc_conn (ts_conns sv ! i)"
  note inv = assms [unfolded server_inv_def] and known = removed_known [of ?sv]
  have i: "i < length (ts_conns sv)" "i \<notin> set (ts_established sv)" "i \<notin> set (ts_closed sv)" "i \<notin> set (ts_destroyed sv)"
    using known inv by (auto simp: conn_ids_def tasks_inv_def removed_ids_def)
  have c: "conn_inv ?c" "tc_state ?c = kConnecting" "CloseCallback \<notin> set (tc_calls ?c)"
    using conns_invD [of ?sv i] inv i by auto
  then obtain c' where e: "connectEstablished ?c = Some c'" by (auto simp: connectEstablished_def Let_def)
  note s = connectEstablished_same [OF e]
  let ?sv' = "update_conn i c' (sv\<lparr>ts_established := ts_established sv @ [i]\<rparr>)"
  have "conns_inv ?sv'"
  proof (rule conns_inv_update [where sv = ?sv and i = i and c = c'])
    show "conn_inv c'" by (rule connectEstablished_inv [OF c(1) e])
    show "if i \<in> set (ts_established ?sv') then close_told c' else tc_state c' = kConnecting"
      using s by (simp add: close_told_def)
    show "i \<in> set (ts_closed ?sv') \<longleftrightarrow> CloseCallback \<in> set (tc_calls c')" using s c(3) i(3) by simp
  qed (use inv i in \<open>auto simp: update_conn_def\<close>)
  moreover have "tasks_inv ?sv'" "table_inv ?sv'" using inv
    by (auto simp: tasks_inv_def table_inv_def removed_ids_def conn_ids_def)
  moreover have "names_inv ?sv'" "loops_inv ?sv'"
    using inv names_loops_cong [of "sv\<lparr>ts_established := ts_established sv @ [i]\<rparr>" ?sv] by simp_all
  ultimately show ?thesis using e by (simp add: server_establish_def server_inv_def)
qed

lemma newConnection_inv:
  assumes "server_inv sv" and "fresh_peer peer sv" and "ts_subLoops sv = 0 \<or> length (ts_conns sv) + 1 < INT_MAX"
  shows "\<exists>sv'. server_newConnection fd peer sv = Some sv' \<and> server_inv sv' \<and> ts_subLoops sv' = ts_subLoops sv
    \<and> length (ts_conns sv') = Suc (length (ts_conns sv))"
proof -
  let ?sv = "with_connection fd peer sv" and ?i = "length (ts_conns sv)"
  have f: "ts_subLoops ?sv = ts_subLoops sv" "length (ts_conns ?sv) = Suc ?i" "ts_tasks ?sv = ts_tasks sv"
    by (simp_all add: with_connection_def Let_def)
  show ?thesis
  proof (cases "ts_subLoops sv = 0")
    case True
    have "server_inv (?sv\<lparr>ts_tasks := (0, EstablishTask ?i) # ts_tasks ?sv\<rparr>)"
      using with_connection_inv [OF assms(1,2) disjI1 [OF refl]] f(3) by simp
    from establish_inv [OF this] True show ?thesis by (simp add: newConnection_split f)
  next
    case False
    then have "ts_nextConnId sv \<noteq> INT_MAX" using assms(1,3) by (auto simp: server_inv_def names_inv_def)
    with False with_connection_inv [OF assms(1,2) disjI2 [OF refl]] show ?thesis by (simp add: newConnection_split f)
  qed
qed

lemma destroyConnection_inv:
  assumes "server_inv (sv\<lparr>ts_tasks := (l, DestroyTask i) # ts_tasks sv\<rparr>)"
  shows "\<exists>sv'. server_destroyConnection i sv = Some sv' \<and> server_inv sv' \<and> ts_subLoops sv' = ts_subLoops sv
    \<and> length (ts_conns sv') = length (ts_conns sv)"
proof -
  let ?sv = "sv\<lparr>ts_tasks := (l, DestroyTask i) # ts_tasks sv\<rparr>" and ?c = "sc_conn (ts_conns sv ! i)"
  note inv = assms [unfolded server_inv_def] and known = removed_known [of ?sv]
  have "i \<in> set (removed_ids ?sv)" by (simp add: removed_ids_def)
  then have i: "i \<in> set (ts_closed sv)" "i < length (ts_conns sv)" using known(1,2) inv by (auto simp: conn_ids_def)
  then have est: "i \<in> set (ts_established sv)" using inv by (auto simp: tasks_inv_def)
  have c: "conn_inv ?c" "CloseCallback \<in> set (tc_calls ?c)" using conns_invD [of ?sv i] inv i by auto
  then have d: "tc_state ?c = kDisconnected" by (rule told_closed)
  then obtain c' where e: "connectDestroyed ?c = Some c'" "connection_destructible c'"
    using destroy_closed [of ?c] c(1) by (auto simp: conn_closed_def)
  then have s: "tc_calls c' = tc_calls ?c" "tc_state c' = kDisconnected"
    using d by (auto simp: connectDestroyed_def Let_def split: option.splits)
  let ?sv' = "update_conn i c' (sv\<lparr>ts_destroyed := ts_destroyed sv @ [i]\<rparr>)"
  have "conns_inv ?sv'"
  proof (rule conns_inv_update [where sv = ?sv and i = i and c = c'])
    show "conn_inv c'" using connectDestroyed_inv [OF c(1) e(1)] d by simp
    show "if i \<in> set (ts_established ?sv') then close_told c' else tc_state c' = kConnecting"
      using s c(2) est by (simp add: close_told_def)
    show "i \<in> set (ts_closed ?sv') \<longleftrightarrow> CloseCallback \<in> set (tc_calls c')" using s c(2) i(1) by simp
  qed (use inv i e in \<open>auto simp: update_conn_def\<close>)
  moreover have "tasks_inv ?sv'" "table_inv ?sv'" using inv
    by (auto simp: tasks_inv_def table_inv_def removed_ids_def conn_ids_def)
  moreover have "names_inv ?sv'" "loops_inv ?sv'"
    using inv names_loops_cong [of "sv\<lparr>ts_destroyed := ts_destroyed sv @ [i]\<rparr>" ?sv] by simp_all
  ultimately show ?thesis using e by (simp add: server_destroyConnection_def server_inv_def)
qed

lemma removeConnectionInLoop_inv:
  assumes "server_inv (sv\<lparr>ts_tasks := (0, RemoveTask i) # ts_tasks sv\<rparr>)"
  shows "\<exists>sv'. removeConnectionInLoop i sv = Some sv' \<and> server_inv sv' \<and> ts_subLoops sv' = ts_subLoops sv
    \<and> length (ts_conns sv') = length (ts_conns sv)"
proof -
  let ?sv = "sv\<lparr>ts_tasks := (0, RemoveTask i) # ts_tasks sv\<rparr>"
  have t: "tasks_inv ?sv" using assms by (simp add: server_inv_def)
  have r: "removed_ids ?sv = removed_ids sv" "conn_ids ?sv = conn_ids sv" by (simp_all add: removed_ids_def conn_ids_def)
  have i: "i \<in> conn_ids sv" "i \<notin> set (removed_ids sv)" "i \<notin> set (remove_ids (ts_tasks sv))"
    using removed_known [OF t] by (auto simp: r)
  have tab: "\<And>s j. ts_connections sv s = Some j \<longleftrightarrow> j \<in> conn_ids sv - set (removed_ids sv) \<and> s = sc_name (ts_conns sv ! j)"
    using assms unfolding server_inv_def table_inv_def by (simp add: r)
  then have c: "ts_connections sv (sc_name (ts_conns sv ! i)) = Some i" using i by blast
  define sv' where "sv' = sv\<lparr>ts_connections := (ts_connections sv)(sc_name (ts_conns sv ! i) := None),
                       ts_tasks := ts_tasks sv @ [(sc_loop (ts_conns sv ! i), DestroyTask i)]\<rparr>"
  have f: "removed_ids sv' = destroy_ids (ts_tasks sv) @ i # ts_destroyed sv" "conn_ids sv' = conn_ids sv" "ts_conns sv' = ts_conns sv"
    by (simp_all add: sv'_def removed_ids_def conn_ids_def)
  have rs: "set (removed_ids sv') = insert i (set (removed_ids sv))" by (auto simp: f(1) removed_ids_def [of sv])
  have "tasks_inv sv'" using t by (simp add: tasks_inv_def f) (simp add: sv'_def removed_ids_def)
  moreover have "table_inv sv'" unfolding table_inv_def
  proof (intro allI)
    fix s j
    have "ts_connections sv' s = Some j \<longleftrightarrow> s \<noteq> sc_name (ts_conns sv ! i) \<and> ts_connections sv s = Some j" by (simp add: sv'_def)
    also have "\<dots> \<longleftrightarrow> j \<noteq> i \<and> ts_connections sv s = Some j" using tab c by (metis option.inject)
    finally show "ts_connections sv' s = Some j \<longleftrightarrow> j \<in> conn_ids sv' - set (removed_ids sv') \<and> s = sc_name (ts_conns sv' ! j)"
      using tab by (auto simp: f(2,3) rs)
  qed
  moreover have "names_inv sv'" "loops_inv sv'" "conns_inv sv'"
    using assms names_loops_cong [of sv' ?sv] conns_inv_same [of sv' ?sv] by (simp_all add: server_inv_def sv'_def)
  moreover have "removeConnectionInLoop i sv = Some sv'" using c by (simp add: removeConnectionInLoop_def sv'_def Let_def)
  ultimately show ?thesis by (auto simp: server_inv_def sv'_def)
qed

text \<open>The close callback of a connection runs at most once.\<close>

lemma closes_once:
  fixes c :: tcp_connection
  assumes "conn_inv c"
  shows "count_list (tc_calls c) CloseCallback \<le> 1"
proof (cases "CloseCallback \<in> set (tc_calls c)")
  case True
  then have "tc_state c = kDisconnected" by (rule told_closed [OF assms])
  then have "life_calls c \<in> {[ConnectionCallback True, ConnectionCallback False],
      [ConnectionCallback True, ConnectionCallback False, CloseCallback]}" using assms by (simp add: conn_inv_def)
  then have "count_list (life_calls c) CloseCallback \<le> 1" by auto
  then show ?thesis by (simp add: life_calls_def count_list_eq_length_filter)
    (metis (mono_tags, lifting) filter_cong user_call.distinct)
qed (simp add: count_list_0_iff [THEN iffD2])

lemma close_callbacks_once:
  "count_list calls CloseCallback \<le> 1 \<Longrightarrow>
     close_callbacks i calls sv = (if CloseCallback \<in> set calls then server_removeConnection i sv else Some sv)"
proof (induction i calls sv rule: close_callbacks.induct)
  case (2 i calls sv)
  then have "CloseCallback \<notin> set calls" by (simp add: count_list_0_iff)
  then have "close_callbacks i calls = Some"
    by (intro ext) (induction i calls _ rule: close_callbacks.induct, simp_all)
  then show ?case by (cases "server_removeConnection i sv") simp_all
qed simp_all

text \<open>Nothing happens to a connection that is not yet established, and a closed one stays as it is for its
  destructor.\<close>

lemma conn_step_connecting:
  assumes "conn_inv c" and "tc_state c = kConnecting" and "event_ok ev c" and "ev \<noteq> Established"
    and "conn_step k prog ev c = Some c'" and "ev \<noteq> Destroyed"
  shows "c' = c"
  using assms by (cases ev) (auto simp: conn_inv_def tcp_send_def tcp_shutdown_def tcp_forceClose_def)

lemma conn_step_destructible:
  assumes "conn_inv c" and "connection_destructible c" and "event_ok ev c" and "ev \<noteq> Established"
    and "conn_step k prog ev c = Some c'" and "ev \<noteq> Destroyed"
  shows "connection_destructible c'"
proof (cases ev)
  case (IO revents rd)
  then show ?thesis using assms(1-3) by (auto simp: conn_inv_def connection_destructible_def)
next
  case Task
  then show ?thesis using assms(2,5)
    by (auto simp: connection_destructible_def run_task_def sendInLoop_def shutdownInLoop_def forceCloseInLoop_def run_callback_def
        split: list.splits tcp_task.splits if_splits)
qed (use assms in \<open>auto simp: connection_destructible_def tcp_send_def tcp_shutdown_def tcp_forceClose_def\<close>)

lemma removeConnection_inv:
  assumes "server_inv sv" and "i \<in> set (ts_established sv)" and "i \<notin> set (ts_closed sv)" and "i < length (ts_conns sv)"
    and "conn_inv c" and "close_told c" and "CloseCallback \<in> set (tc_calls c)"
  shows "\<exists>sv'. server_removeConnection i (update_conn i c sv) = Some sv' \<and> server_inv sv' \<and> ts_subLoops sv' = ts_subLoops sv
    \<and> length (ts_conns sv') = length (ts_conns sv)"
proof -
  let ?sv1 = "(update_conn i c sv)\<lparr>ts_closed := ts_closed sv @ [i]\<rparr>"
  let ?sv2 = "?sv1\<lparr>ts_tasks := (0, RemoveTask i) # ts_tasks ?sv1\<rparr>"
    and ?sv3 = "?sv1\<lparr>ts_tasks := ts_tasks ?sv1 @ [(0, RemoveTask i)]\<rparr>"
  note inv = assms(1) [unfolded server_inv_def]
  have nd: "i \<notin> set (ts_destroyed sv)" using removed_known(1) [of sv] inv assms(3) by (auto simp: removed_ids_def)
  have "conns_inv ?sv1"
    by (rule conns_inv_update [where sv = sv and i = i and c = c]) (use inv assms nd in auto)
  then have c: "conns_inv ?sv2" "conns_inv ?sv3" using conns_inv_same [of ?sv2 ?sv1] conns_inv_same [of ?sv3 ?sv1] by simp_all
  have t: "tasks_inv ?sv2" "tasks_inv ?sv3" "table_inv ?sv2" "table_inv ?sv3"
    using inv assms(2,3) by (simp_all add: tasks_inv_def table_inv_def removed_ids_def conn_ids_def)
  have "names_inv ?sv2" "loops_inv ?sv2" "names_inv ?sv3" "loops_inv ?sv3"
    using inv names_loops_cong [of ?sv2 "update_conn i c sv"] names_loops_cong [of ?sv3 "update_conn i c sv"] by simp_all
  with c t have "server_inv ?sv2" "server_inv ?sv3" by (simp_all add: server_inv_def)
  with removeConnectionInLoop_inv [of i ?sv1] show ?thesis by (simp add: server_removeConnection_def Let_def)
qed

lemma server_conn_step_inv:
  assumes "server_inv sv" and "server_event_ok (SvConn i ev) sv"
  shows "\<exists>sv'. server_conn_step k prog i ev sv = Some sv' \<and> server_inv sv' \<and> ts_subLoops sv' = ts_subLoops sv
    \<and> length (ts_conns sv') = length (ts_conns sv)"
proof -
  let ?c = "sc_conn (ts_conns sv ! i)"
  note inv = assms(1) [unfolded server_inv_def]
  have i: "i < length (ts_conns sv)" and ev: "ev \<noteq> Established" "ev \<noteq> Destroyed" "event_ok ev ?c" using assms(2) by simp_all
  note D = conns_invD [OF _ i]
  have ci: "conn_inv ?c" using D(1) inv by blast
  obtain c' where c': "conn_step k prog ev ?c = Some c'" "conn_inv c'" using conn_step_inv [OF ci ev(3)] by blast
  obtain later where m: "tc_calls c' = tc_calls ?c @ later" using calls.keeps_step [OF _ c'(1) ev(2), of "tc_calls ?c"] by auto
  have step: "server_conn_step k prog i ev sv =
      (if CloseCallback \<in> set later then server_removeConnection i (update_conn i c' sv) else Some (update_conn i c' sv))"
    using c'(1) m closes_once [OF c'(2)] by (simp add: server_conn_step_def close_callbacks_once Let_def)
  show ?thesis
  proof (cases "i \<in> set (ts_established sv)")
    case False
    then have "c' = ?c" using conn_step_connecting [OF ci _ ev(3,1) c'(1) ev(2)] D(3) inv by blast
    then have "later = []" "update_conn i c' sv = sv" using m by (simp_all add: update_conn_def)
    with step assms(1) show ?thesis by simp
  next
    case True
    have told: "close_told c'" using told.keeps_step [OF _ c'(1) ev(2)] D(2) inv True by blast
    show ?thesis
    proof (cases "CloseCallback \<in> set later")
      case close: True
      then have "0 < count_list later CloseCallback" using count_list_0_iff [of later CloseCallback] by (metis gr0I)
      then have "CloseCallback \<notin> set (tc_calls ?c)" using closes_once [OF c'(2)] m by (simp add: count_list_0_iff [symmetric])
      then have "i \<notin> set (ts_closed sv)" using D(4) inv by blast
      with removeConnection_inv [OF assms(1) True _ i c'(2) told] close m step show ?thesis by simp
    next
      case no: False
      have "conns_inv (update_conn i c' sv)"
      proof (rule conns_inv_update [where sv = sv and i = i and c = c'])
        show "connection_destructible c'" if "i \<in> set (ts_destroyed (update_conn i c' sv))"
          using that conn_step_destructible [OF ci _ ev(3,1) c'(1) ev(2)] D(5) inv by simp
      qed (use inv i c'(2) told True D(4) no m in auto)
      with inv step no show ?thesis by (simp add: server_inv_def)
    qed
  qed
qed

lemma run_server_task_inv:
  assumes "server_inv (sv\<lparr>ts_tasks := (l, t) # ts_tasks sv\<rparr>)"
  shows "\<exists>sv'. run_server_task t sv = Some sv' \<and> server_inv sv' \<and> ts_subLoops sv' = ts_subLoops sv
    \<and> length (ts_conns sv') = length (ts_conns sv)"
proof (cases t)
  case (RemoveTask i)
  let ?svt = "sv\<lparr>ts_tasks := (l, t) # ts_tasks sv\<rparr>" and ?sv0 = "sv\<lparr>ts_tasks := (0, RemoveTask i) # ts_tasks sv\<rparr>"
  have "server_inv ?sv0"
    using assms RemoveTask names_loops_cong [of ?sv0 ?svt] conns_inv_same [of ?sv0 ?svt]
    by (simp add: server_inv_def tasks_inv_def table_inv_def removed_ids_def conn_ids_def)
  with RemoveTask removeConnectionInLoop_inv show ?thesis by simp
qed (use assms establish_inv destroyConnection_inv in auto)

lemma server_step_inv:
  assumes "server_inv sv" and "server_event_ok e sv" and "peer_ok e sv"
    and "ts_subLoops sv = 0 \<or> length (ts_conns sv) + accepts (e # es) < INT_MAX"
  shows "\<exists>sv'. server_step k prog e sv = Some sv' \<and> server_inv sv' \<and> ts_subLoops sv' = ts_subLoops sv
    \<and> length (ts_conns sv') + accepts es = length (ts_conns sv) + accepts (e # es)"
proof (cases e)
  case (SvAccept fd peer)
  with newConnection_inv [OF assms(1), of peer fd] assms(3,4) show ?thesis by auto
next
  case (SvConn i ev)
  with server_conn_step_inv [OF assms(1), of i ev "k i" prog] assms(2) show ?thesis by auto
next
  case (SvTask l)
  show ?thesis
  proof (cases "take_task l (ts_tasks sv)")
    case (Some p)
    then obtain t us where p: "take_task l (ts_tasks sv) = Some (t, us)" by (cases p) auto
    from take_task_split [OF p] obtain as bs where ab: "ts_tasks sv = as @ (l, t) # bs" "us = as @ bs" by blast
    let ?sv = "sv\<lparr>ts_tasks := us\<rparr>"
    let ?svt = "?sv\<lparr>ts_tasks := (l, t) # ts_tasks ?sv\<rparr>"
    have "tasks_inv ?svt" "table_inv ?svt" using assms(1)
      by (cases t; auto simp: server_inv_def tasks_inv_def table_inv_def removed_ids_def conn_ids_def ab)+
    then have "server_inv ?svt"
      using assms(1) names_loops_cong [of ?svt sv] conns_inv_same [of ?svt sv] by (simp add: server_inv_def)
    from run_server_task_inv [OF this] SvTask p show ?thesis by simp
  qed (auto simp: SvTask assms(1))
qed

lemma server_run_inv:
  "server_inv sv \<Longrightarrow> along server_event_ok k prog es sv \<Longrightarrow> along peer_ok k prog es sv \<Longrightarrow>
   ts_subLoops sv = 0 \<or> length (ts_conns sv) + accepts es < INT_MAX \<Longrightarrow>
     \<exists>sv'. server_run k prog es sv = Some sv' \<and> server_inv sv' \<and> ts_subLoops sv' = ts_subLoops sv"
proof (induction es arbitrary: sv)
  case (Cons e es)
  from server_step_inv [OF Cons.prems(1) _ _ Cons.prems(4), of k prog] Cons.prems(2,3) obtain sv1 where
    1: "server_step k prog e sv = Some sv1" "server_inv sv1" "ts_subLoops sv1 = ts_subLoops sv"
      "length (ts_conns sv1) + accepts es = length (ts_conns sv) + accepts (e # es)" by auto
  with Cons.IH [OF 1(2)] Cons.prems(2-4) show ?case by auto
qed simp

lemma close_callbacks_subLoops: "close_callbacks i calls sv = Some sv' \<Longrightarrow> ts_subLoops sv' = ts_subLoops sv"
  by (induction i calls sv rule: close_callbacks.induct)
    (auto simp: server_removeConnection_def removeConnectionInLoop_def Let_def bind_eq_Some_conv split: if_splits)

lemma server_step_subLoops: "server_step k prog e sv = Some sv' \<Longrightarrow> ts_subLoops sv' = ts_subLoops sv"
proof (cases e)
  case (SvTask l)
  assume step: "server_step k prog e sv = Some sv'"
  show ?thesis
  proof (cases "take_task l (ts_tasks sv)")
    case (Some p)
    then show ?thesis using step SvTask
      by (cases p; cases "fst p") (auto simp: server_establish_def server_destroyConnection_def removeConnectionInLoop_def Let_def
          split: if_splits)
  qed (use step SvTask in simp)
qed (auto simp: newConnection_split server_establish_def with_connection_def server_conn_step_def Let_def
    dest!: close_callbacks_subLoops split: if_splits option.splits)

lemma peer_ok_subLoops: "0 < ts_subLoops sv \<Longrightarrow> along peer_ok k prog es sv"
proof (induction es arbitrary: sv)
  case (Cons e es)
  have "peer_ok e sv" using Cons.prems by (cases e) (simp_all add: fresh_peer_def)
  with Cons server_step_subLoops [of k prog e sv] show ?case by (auto split: option.splits)
qed simp

lemma tcpServer_start_inv:
  fixes name n cb
  defines "sv \<equiv> tcpServer_start (setWriteCompleteCallback cb ((newTcpServer name)\<lparr>ts_threadNum := n\<rparr>))"
  shows "server_inv sv" "ts_subLoops sv = n" "ts_conns sv = []"
  by (simp_all add: sv_def tcpServer_start_def setWriteCompleteCallback_def newTcpServer_def server_inv_def tasks_inv_def
    table_inv_def names_inv_def loops_inv_def conns_inv_def removed_ids_def conn_ids_def Let_def)

subsection \<open>Runs of the acceptor\<close>

fun acceptor_reads :: "accept_calls \<Rightarrow> (nat \<Rightarrow> fd) \<Rightarrow> nat \<Rightarrow> acceptor \<Rightarrow> (fd \<times> sockaddr_in) list \<times> acceptor" where
  "acceptor_reads accept4 open_null 0 ac = ([], ac)"
| "acceptor_reads accept4 open_null (Suc n) ac =
     (case acceptor_reads accept4 open_null n ac of
        (ds, ac1) \<Rightarrow>
          case acceptor_handleRead accept4 open_null ac1 of
            (res, ac2) \<Rightarrow> (ds @ (case res of None \<Rightarrow> [] | Some d \<Rightarrow> [d]), ac2))"

definition accepted_fds :: "accept_calls \<Rightarrow> nat \<Rightarrow> fd list" where
  "accepted_fds accept4 k = concat (map (\<lambda>j. case accept4 j of Inl _ \<Rightarrow> [] | Inr (fd, _) \<Rightarrow> [fd]) [0..<k])"

definition null_fds :: "(nat \<Rightarrow> fd) \<Rightarrow> nat \<Rightarrow> fd list" where
  "null_fds open_null k = map open_null [0..<k]"

lemma fds_Suc:
  "accepted_fds accept4 (Suc k) = accepted_fds accept4 k @ (case accept4 k of Inl _ \<Rightarrow> [] | Inr (fd, _) \<Rightarrow> [fd])"
  "null_fds open_null (Suc k) = null_fds open_null k @ [open_null k]"
  by (simp_all add: accepted_fds_def null_fds_def)

definition acceptor_inv :: "accept_calls \<Rightarrow> (nat \<Rightarrow> fd) \<Rightarrow> fd list \<Rightarrow> acceptor \<Rightarrow> bool" where
  "acceptor_inv accept4 open_null ds ac \<longleftrightarrow>
     mset (accepted_fds accept4 (ac_accepts ac)) + mset (null_fds open_null (Suc (ac_opens ac)))
       = add_mset (ac_idleFd ac) (mset ds + mset (ac_closed ac))"

lemma acceptor_handleRead_inv:
  assumes "acceptor_inv accept4 open_null ds ac" and "acceptor_handleRead accept4 open_null ac = (res, ac')"
  shows "acceptor_inv accept4 open_null (ds @ (case res of None \<Rightarrow> [] | Some d \<Rightarrow> [fst d])) ac'"
  using assms
  by (auto simp: acceptor_inv_def acceptor_handleRead_def socket_accept_def fds_Suc Let_def
    split: sum.splits prod.splits if_splits)

lemma acceptor_reads_inv:
  "acceptor_inv accept4 open_null (map fst (fst (acceptor_reads accept4 open_null n (newAcceptor open_null\<lparr>ac_newConnectionCallback := b\<rparr>))))
     (snd (acceptor_reads accept4 open_null n (newAcceptor open_null\<lparr>ac_newConnectionCallback := b\<rparr>)))"
proof (induction n)
  case 0
  then show ?case by (simp add: acceptor_inv_def newAcceptor_def accepted_fds_def null_fds_def)
next
  case (Suc n)
  obtain ds ac1 where 1: "acceptor_reads accept4 open_null n (newAcceptor open_null\<lparr>ac_newConnectionCallback := b\<rparr>) = (ds, ac1)"
    by (cases "acceptor_reads accept4 open_null n (newAcceptor open_null\<lparr>ac_newConnectionCallback := b\<rparr>)")
  obtain res ac2 where 2: "acceptor_handleRead accept4 open_null ac1 = (res, ac2)"
    by (cases "acceptor_handleRead accept4 open_null ac1")
  from Suc 1 acceptor_handleRead_inv [OF _ 2, of "map fst ds"] 2 show ?case by (cases res) simp_all
qed

subsection \<open>Properties\<close>

text \<open>C19: the server keeps track of its connections. With worker loops, however accepts, the events of all
  connections and the tasks of the loops interleave, for fewer than \<open>INT_MAX - 1\<close> accepts, and in a single loop
  as long as no connection is accepted from the address of one in the table, no assertion of the server or of
  its connections fails, provided that no event closes a connection twice. The table holds exactly the
  connections whose removal has not run, each under its own name. A connection is in the list of the closed
  ones exactly if its close callback has run, and there once; it is destroyed at most once, when no task
  is left exactly the closed ones are, and a destroyed one satisfies the assertions of the destructors.
  Connections go round the worker loops in turn.\<close>

theorem server_tracks_connections:
  assumes "setThreadNum n (newTcpServer name) = Some sv" and "sv0 = tcpServer_start (setWriteCompleteCallback cb sv)"
    and "along server_event_ok k prog es sv0" and "if n = 0 then along peer_ok k prog es sv0 else accepts es < INT_MAX - 1"
  shows "\<exists>sv'. server_run k prog es sv0 = Some sv'
    \<and> (\<forall>s i. ts_connections sv' s = Some i \<longleftrightarrow>
         i < length (ts_conns sv') \<and> i \<notin> set (removed_ids sv') \<and> s = sc_name (ts_conns sv' ! i))
    \<and> (\<forall>i < length (ts_conns sv'). i \<in> set (ts_closed sv') \<longleftrightarrow> CloseCallback \<in> set (tc_calls (sc_conn (ts_conns sv' ! i))))
    \<and> distinct (ts_closed sv') \<and> distinct (ts_destroyed sv')
    \<and> (ts_tasks sv' = [] \<longrightarrow> set (ts_destroyed sv') = set (ts_closed sv'))
    \<and> (\<forall>i \<in> set (ts_destroyed sv'). connection_destructible (sc_conn (ts_conns sv' ! i)))
    \<and> (\<forall>i < length (ts_conns sv'). sc_loop (ts_conns sv' ! i) = (if n = 0 then 0 else (i + 1) mod n + 1))"
proof -
  have sv: "sv = (newTcpServer name)\<lparr>ts_threadNum := n\<rparr>" using assms(1) by (simp add: setThreadNum_def split: if_splits)
  have s: "server_inv sv0" "ts_subLoops sv0 = n" "ts_conns sv0 = []" using tcpServer_start_inv by (simp_all add: assms(2) sv)
  have "along peer_ok k prog es sv0" "ts_subLoops sv0 = 0 \<or> length (ts_conns sv0) + accepts es < INT_MAX"
    using assms(4) peer_ok_subLoops [of sv0 k prog es] s by (auto split: if_splits)
  from server_run_inv [OF s(1) assms(3) this] s(2) obtain sv' where
    r: "server_run k prog es sv0 = Some sv'" "server_inv sv'" "ts_subLoops sv' = n" by auto
  note inv = r(2) [unfolded server_inv_def]
  note known = removed_known [OF conjunct1 [OF inv]]
  have "distinct (ts_closed sv')" using inv by (simp add: tasks_inv_def)
  moreover have "distinct (ts_destroyed sv')" using known(3) by (simp add: removed_ids_def)
  moreover have "ts_tasks sv' = [] \<Longrightarrow> set (ts_destroyed sv') = set (ts_closed sv')" using known(1) by (simp add: removed_ids_def)
  moreover have "\<forall>i \<in> set (ts_destroyed sv'). connection_destructible (sc_conn (ts_conns sv' ! i))"
  proof
    fix i assume i: "i \<in> set (ts_destroyed sv')"
    then have "i < length (ts_conns sv')" using known(1,2) by (auto simp: removed_ids_def conn_ids_def)
    with conns_invD(5) [of sv' i] inv i show "connection_destructible (sc_conn (ts_conns sv' ! i))" by blast
  qed
  moreover have "\<forall>i < length (ts_conns sv'). sc_loop (ts_conns sv' ! i) = (if n = 0 then 0 else (i + 1) mod n + 1)"
    using inv r(3) by (simp add: loops_inv_def conn_ids_def)
  moreover have "\<forall>s i. ts_connections sv' s = Some i \<longleftrightarrow>
         i < length (ts_conns sv') \<and> i \<notin> set (removed_ids sv') \<and> s = sc_name (ts_conns sv' ! i)"
    using inv unfolding table_inv_def conn_ids_def by simp
  moreover have "\<forall>i < length (ts_conns sv').
      i \<in> set (ts_closed sv') \<longleftrightarrow> CloseCallback \<in> set (tc_calls (sc_conn (ts_conns sv' ! i)))"
    using conns_invD(4) [of sv'] inv by blast
  ultimately show ?thesis using r(1) by blast
qed

definition sample_peer :: sockaddr_in where
  "sample_peer = \<lparr>sin_family = AF_INET, sin_port = htons 40000, sin_addr = (10, 0, 0, 1)\<rparr>"

definition sample_events :: "server_event list" where
  "sample_events = [SvAccept 5 sample_peer, SvAccept 6 sample_peer, SvTask 1, SvConn 1 ForceClose, SvConn 1 Task, SvTask 0, SvTask 1]"

definition sample_server :: tcp_server where
  "sample_server = tcpServer_start (setWriteCompleteCallback False ((newTcpServer [])\<lparr>ts_threadNum := 2\<rparr>))"

lemma forced_close:
  "\<exists>c1 c2 c3. connectEstablished (newTcpConnection i fd cb newPoller) = Some c1 \<and> tc_state c1 = kConnected \<and> tc_tasks c1 = []
     \<and> tc_calls c1 = [ConnectionCallback True] \<and> forceCloseInLoop (c1\<lparr>tc_state := kDisconnecting, tc_tasks := []\<rparr>) = Some c2
     \<and> tc_calls c2 = [ConnectionCallback True, ConnectionCallback False, CloseCallback] \<and> connectDestroyed c2 = Some c3"
proof -
  obtain c1 where c1: "connectEstablished (newTcpConnection i fd cb newPoller) = Some c1" using established_open by blast
  let ?c = "c1\<lparr>tc_state := kDisconnecting, tc_tasks := []\<rparr>"
  obtain c2 where c2: "handleClose ?c = Some c2" by (simp add: handleClose_def)
  note same = connectEstablished_same [OF c1] handleClose_same [OF c2]
  have "conn_inv c1" by (rule connectEstablished_inv [OF newTcpConnection_inv c1])
  then have "conn_closed c2"
    using handleClose_inv [OF _ c2] same by (auto simp: conn_closed_def conn_inv_def life_calls_def)
  then obtain c3 where "connectDestroyed c2 = Some c3" using destroy_closed by blast
  with c1 c2 same show ?thesis by (simp add: forceCloseInLoop_def newTcpConnection_def)
qed

lemmas server_run_defs = tcpServer_start_def setWriteCompleteCallback_def newTcpServer_def server_newConnection_def
  server_establish_def server_conn_step_def update_conn_def tcp_forceClose_def queueInLoop_def run_task_def
  server_removeConnection_def removeConnectionInLoop_def server_destroyConnection_def INT_MAX_def

lemma sample_server_run:
  "\<exists>sv. server_run (\<lambda>_ _. Inr 1) (\<lambda>_. []) sample_events sample_server = Some sv \<and> ts_closed sv = [1] \<and> ts_destroyed sv = [1]
     \<and> along server_event_ok (\<lambda>_ _. Inr 1) (\<lambda>_. []) sample_events sample_server"
  using forced_close [of 1 6 False] by (auto simp: sample_events_def sample_server_def server_run_defs Let_def)

theorem server_tracks_connections_witness:
  "\<exists>sv'. server_run (\<lambda>_ _. Inr 1) (\<lambda>_. []) sample_events sample_server = Some sv'
    \<and> ts_closed sv' = [1] \<and> ts_destroyed sv' = [1] \<and> connection_destructible (sc_conn (ts_conns sv' ! 1))"
proof -
  from sample_server_run obtain sv where sv: "server_run (\<lambda>_ _. Inr 1) (\<lambda>_. []) sample_events sample_server = Some sv"
    "ts_closed sv = [1]" "ts_destroyed sv = [1]" "along server_event_ok (\<lambda>_ _. Inr 1) (\<lambda>_. []) sample_events sample_server"
    by blast
  have "setThreadNum 2 (newTcpServer []) = Some ((newTcpServer [])\<lparr>ts_threadNum := 2\<rparr>)"
    by (simp add: setThreadNum_def newTcpServer_def)
  from server_tracks_connections [OF this sample_server_def sv(4)] sv(1-3)
  show ?thesis by (simp add: sample_events_def INT_MAX_def)
qed

text \<open>Without worker loops the connection number never changes, so two connections with the same peer
  address share a name. The second replaces the first in the table, the first to close takes the entry out,
  and closing the other one fails the assertion that an entry was erased.\<close>

theorem server_same_peer_aborts:
  "server_run k prog [SvAccept fd1 peer, SvAccept fd2 peer, SvConn 0 ForceClose, SvConn 0 Task, SvConn 1 ForceClose, SvConn 1 Task]
     (tcpServer_start (newTcpServer name)) = None"
  using forced_close [of 0 fd1 False] forced_close [of 1 fd2 False] by (auto simp: server_run_defs Let_def)

text \<open>The acceptor accounts for every descriptor. After any number of readable events, whatever
  \<open>accept\<close> and \<open>open\<close> answer, the descriptors they returned are those handed to the server, those closed
  and the one in reserve, each once: running out of descriptors neither loses a connection nor the
  reserve.\<close>

theorem acceptor_accounts_descriptors:
  "case acceptor_reads accept4 open_null n (newAcceptor open_null\<lparr>ac_newConnectionCallback := b\<rparr>) of (ds, ac) \<Rightarrow>
     mset (accepted_fds accept4 (ac_accepts ac)) + mset (null_fds open_null (Suc (ac_opens ac)))
       = add_mset (ac_idleFd ac) (mset (map fst ds) + mset (ac_closed ac))"
  using acceptor_reads_inv [of accept4 open_null n b] by (auto simp: acceptor_inv_def split: prod.splits)

end
