(* ===== verification/Json_Value.thy ===== *)
theory Json_Value
  imports Prelude
begin

section \<open>The payload object model\<close>

text \<open>
  \<open>rpc/include/rpc/json_value.h\<close>. The class is a tagged union: \<open>type_\<close> together with
  \<open>isInteger_\<close> selects the member in use, so it is a datatype with one constructor per tag and
  two for numbers. \<open>double\<close> is the type parameter \<^typ>\<open>'d\<close>. Accessors assert the tag; a call
  on another tag is \<^const>\<open>None\<close>. References returned by the accessors (\<open>operator[]\<close>) are the
  position of the element in the updated object, and an assignment through such a reference is
  an update at that position.
\<close>

datatype 'd JsonValue =
    kNull
  | kBool bool
  | kInteger i64
  | kNumber 'd
  | kString bytes
  | kArray "'d JsonValue list"
  | kObject "(bytes \<times> 'd JsonValue) list"

type_synonym 'd JsonObject = "(bytes \<times> 'd JsonValue) list"

fun isString :: "'d JsonValue \<Rightarrow> bool" where
  "isString (kString s) = True"
| "isString _ = False"

fun asString :: "'d JsonValue \<Rightarrow> bytes option" where
  "asString (kString s) = Some s"
| "asString _ = None"

fun asObject :: "'d JsonValue \<Rightarrow> 'd JsonObject option" where
  "asObject (kObject fs) = Some fs"
| "asObject _ = None"

text \<open>The tag itself, the tests on it and the other accessors. \<open>asNumber\<close> converts an integer to the
  nearest \<open>double\<close>, which is a parameter.\<close>

datatype JsonType = TypeNull | TypeBool | TypeNumber | TypeString | TypeArray | TypeObject

fun json_type :: "'d JsonValue \<Rightarrow> JsonType" where
  "json_type kNull = TypeNull"
| "json_type (kBool b) = TypeBool"
| "json_type (kInteger n) = TypeNumber"
| "json_type (kNumber d) = TypeNumber"
| "json_type (kString s) = TypeString"
| "json_type (kArray vs) = TypeArray"
| "json_type (kObject fs) = TypeObject"

fun isInteger :: "'d JsonValue \<Rightarrow> bool" where
  "isInteger (kInteger n) = True"
| "isInteger _ = False"

fun asBool :: "'d JsonValue \<Rightarrow> bool option" where
  "asBool (kBool b) = Some b"
| "asBool _ = None"

fun asInt :: "'d JsonValue \<Rightarrow> i64 option" where
  "asInt (kInteger n) = Some n"
| "asInt _ = None"

fun asNumber :: "(i64 \<Rightarrow> 'd) \<Rightarrow> 'd JsonValue \<Rightarrow> 'd option" where
  "asNumber to_double (kInteger n) = Some (to_double n)"
| "asNumber to_double (kNumber d) = Some d"
| "asNumber to_double _ = None"

fun asArray :: "'d JsonValue \<Rightarrow> 'd JsonValue list option" where
  "asArray (kArray vs) = Some vs"
| "asArray _ = None"

text \<open>\<open>operator[](index)\<close>, which does not check the index, as a read and in the statement
  \<open>value[index] = x\<close>.\<close>

definition json_at :: "nat \<Rightarrow> 'd JsonValue \<Rightarrow> 'd JsonValue option" where
  "json_at index v =
     (case asArray v of None \<Rightarrow> None | Some vs \<Rightarrow> if index < length vs then Some (vs ! index) else None)"

definition json_assign_at :: "nat \<Rightarrow> 'd JsonValue \<Rightarrow> 'd JsonValue \<Rightarrow> 'd JsonValue option" where
  "json_assign_at index x v =
     (case asArray v of None \<Rightarrow> None | Some vs \<Rightarrow> if index < length vs then Some (kArray (vs[index := x])) else None)"

text \<open>\<open>find\<close>: the loop over the entries, returning the position of the first match.\<close>

fun find_field :: "bytes \<Rightarrow> 'd JsonObject \<Rightarrow> nat option" where
  "find_field key [] = None"
| "find_field key (entry # rest) =
     (if fst entry = key then Some 0
      else (case find_field key rest of None \<Rightarrow> None | Some i \<Rightarrow> Some (Suc i)))"

definition json_find :: "bytes \<Rightarrow> 'd JsonValue \<Rightarrow> 'd JsonValue option" where
  "json_find key v =
     (case asObject v of
        None \<Rightarrow> None
      | Some fs \<Rightarrow> (case find_field key fs of None \<Rightarrow> None | Some i \<Rightarrow> Some (snd (fs ! i))))"

text \<open>\<open>operator[](key)\<close>: the object after the call and the position of the field.\<close>

definition json_index :: "bytes \<Rightarrow> 'd JsonValue \<Rightarrow> (nat \<times> 'd JsonObject) option" where
  "json_index key v =
     (case asObject v of
        None \<Rightarrow> None
      | Some fs \<Rightarrow>
          (case find_field key fs of
             Some i \<Rightarrow> Some (i, fs)
           | None \<Rightarrow> Some (length fs, fs @ [(key, kNull)])))"

text \<open>The statement \<open>value[key] = x\<close>.\<close>

definition json_assign :: "bytes \<Rightarrow> 'd JsonValue \<Rightarrow> 'd JsonValue \<Rightarrow> 'd JsonValue option" where
  "json_assign key x v =
     (case json_index key v of
        None \<Rightarrow> None
      | Some (i, fs) \<Rightarrow> Some (kObject (fs[i := (fst (fs ! i), x)])))"

text \<open>\<open>operator==\<close>, with the equality of \<open>double\<close> as a parameter: it is not the equality of
  representations (\<open>NaN\<close>, signed zero).\<close>

fun json_eq :: "('d \<Rightarrow> 'd \<Rightarrow> bool) \<Rightarrow> 'd JsonValue \<Rightarrow> 'd JsonValue \<Rightarrow> bool"
  and json_eq_array :: "('d \<Rightarrow> 'd \<Rightarrow> bool) \<Rightarrow> 'd JsonValue list \<Rightarrow> 'd JsonValue list \<Rightarrow> bool"
  and json_eq_object :: "('d \<Rightarrow> 'd \<Rightarrow> bool) \<Rightarrow> 'd JsonObject \<Rightarrow> 'd JsonObject \<Rightarrow> bool" where
  "json_eq deq kNull w = (case w of kNull \<Rightarrow> True | _ \<Rightarrow> False)"
| "json_eq deq (kBool a) w = (case w of kBool b \<Rightarrow> a = b | _ \<Rightarrow> False)"
| "json_eq deq (kInteger a) w = (case w of kInteger b \<Rightarrow> a = b | _ \<Rightarrow> False)"
| "json_eq deq (kNumber a) w = (case w of kNumber b \<Rightarrow> deq a b | _ \<Rightarrow> False)"
| "json_eq deq (kString a) w = (case w of kString b \<Rightarrow> a = b | _ \<Rightarrow> False)"
| "json_eq deq (kArray a) w = (case w of kArray b \<Rightarrow> json_eq_array deq a b | _ \<Rightarrow> False)"
| "json_eq deq (kObject a) w = (case w of kObject b \<Rightarrow> json_eq_object deq a b | _ \<Rightarrow> False)"
| "json_eq_array deq [] bs = (bs = [])"
| "json_eq_array deq (a # as) bs =
     (case bs of [] \<Rightarrow> False | b # bs' \<Rightarrow> json_eq deq a b \<and> json_eq_array deq as bs')"
| "json_eq_object deq [] bs = (bs = [])"
| "json_eq_object deq (f # as) bs =
     (case bs of
        [] \<Rightarrow> False
      | g # bs' \<Rightarrow> fst f = fst g \<and> json_eq deq (snd f) (snd g) \<and> json_eq_object deq as bs')"

subsection \<open>Equality\<close>

lemma json_eq_array_refl: "json_eq_array deq as as \<longleftrightarrow> (\<forall>a \<in> set as. json_eq deq a a)"
  by (induction as) simp_all

lemma json_eq_object_refl: "json_eq_object deq fs fs \<longleftrightarrow> (\<forall>f \<in> set fs. json_eq deq (snd f) (snd f))"
  by (induction fs) auto

text \<open>A payload compares equal to itself exactly when every floating-point number in it does:
  one \<open>NaN\<close> anywhere in the value, at whatever depth, makes \<open>v == v\<close> false, and nothing else
  does.\<close>

theorem json_eq_self: "json_eq deq v v \<longleftrightarrow> set_JsonValue v \<subseteq> {d. deq d d}"
proof (induction v)
  case (kObject fs)
  have "json_eq deq (snd f) (snd f) \<longleftrightarrow> set_JsonValue (snd f) \<subseteq> {d. deq d d}" if "f \<in> set fs" for f
    using kObject [OF that] by (cases f) simp
  moreover have "set_JsonValue (kObject fs) = (\<Union>f \<in> set fs. set_JsonValue (snd f))"
    by (simp add: prod_set_defs)
  ultimately show ?case by (simp add: json_eq_object_refl UN_subset_iff del: JsonValue.set)
qed (auto simp: json_eq_array_refl)

lemma json_type_accessors:
  "json_type v = TypeBool \<longleftrightarrow> asBool v \<noteq> None"
  "json_type v = TypeNumber \<and> isInteger v \<longleftrightarrow> asInt v \<noteq> None"
  "json_type v = TypeNumber \<longleftrightarrow> asNumber to_double v \<noteq> None"
  "json_type v = TypeString \<longleftrightarrow> asString v \<noteq> None"
  "json_type v = TypeArray \<longleftrightarrow> asArray v \<noteq> None"
  "json_type v = TypeObject \<longleftrightarrow> asObject v \<noteq> None"
  by (cases v; simp)+

lemma json_eq_type: "json_eq deq v w \<Longrightarrow> json_type v = json_type w \<and> isInteger v = isInteger w"
  by (cases v; cases w) simp_all

lemma json_assign_at_read:
  assumes "json_assign_at i x v = Some v'"
  shows "json_at j v' = (if j = i then Some x else json_at j v)" and "json_type v' = json_type v"
  using assms by (cases v; auto simp: json_assign_at_def json_at_def split: if_splits)+

subsection \<open>Field lookup\<close>

lemma find_field_Some:
  "find_field key fs = Some i \<Longrightarrow> i < length fs \<and> fst (fs ! i) = key"
  by (induction fs arbitrary: i) (auto split: if_splits option.splits)

lemma find_field_None: "find_field key fs = None \<longleftrightarrow> key \<notin> fst ` set fs"
  by (induction fs) (auto split: option.splits)

lemma find_field_update:
  assumes "i < length fs"
  shows "find_field key (fs[i := (fst (fs ! i), x)]) = find_field key fs"
  using assms by (induction fs arbitrary: i) (auto split: nat.splits)

lemma find_field_snoc:
  "find_field key (fs @ [(k, v)]) =
     (case find_field key fs of
        Some i \<Rightarrow> Some i
      | None \<Rightarrow> if k = key then Some (length fs) else None)"
  by (induction fs) (auto split: option.splits)

text \<open>Writing a field. \<open>value[key] = x\<close> on an object makes \<open>find(key)\<close> return \<open>x\<close>, leaves
  every other field as it was, and keeps the order of the fields that were there: an existing
  key is overwritten in place and a new one goes to the end.\<close>

theorem json_assign_find:
  "(case json_assign key x (kObject fs) of
      None \<Rightarrow> False
    | Some v \<Rightarrow> (\<forall>k. json_find k v = (if k = key then Some x else json_find k (kObject fs)))
        \<and> (\<exists>gs. v = kObject gs
             \<and> map fst gs = map fst fs @ (if key \<in> fst ` set fs then [] else [key])))"
proof (cases "find_field key fs")
  case None
  then have "key \<notin> fst ` set fs" by (simp add: find_field_None)
  with None show ?thesis
    by (auto simp: json_assign_def json_index_def json_find_def find_field_snoc nth_append
        split: option.splits dest: find_field_Some)
next
  case (Some i)
  note i = find_field_Some [OF this]
  then have "key \<in> fst ` set fs" by (metis image_eqI nth_mem)
  with Some i show ?thesis
    by (auto simp: json_assign_def json_index_def json_find_def find_field_update nth_list_update
        map_update list_update_same_conv split: option.splits dest: find_field_Some)
qed

end
