(* ===== verification/Json_Utf8.thy ===== *)
theory Json_Utf8
  imports Prelude
begin

unbundle bit_operations_syntax

section \<open>UTF-8\<close>

text \<open>
  \<open>rpc/src/json_utf8.h\<close>, the validator the JSON writer and parser share, and
  \<open>appendUtf8\<close> of \<open>rpc/src/json_parser.cpp\<close>, the encoder for escaped code points. The
  validator's index into the text is the suffix that is still to be read. The theorem at the
  end states that the two agree: a text is accepted exactly when it is a concatenation of
  encodings of Unicode scalar values.
\<close>

subsection \<open>The validator and the encoder\<close>

text \<open>The branch on the lead byte: the sequence length and the code point bits it carries;
  \<open>None\<close> for \<open>0xC0\<close>, \<open>0xC1\<close>, \<open>0xF5\<close> and above, and stray continuation bytes.\<close>

definition utf8_lead :: "byte \<Rightarrow> (nat \<times> u32) option" where
  "utf8_lead lead =
     (if lead AND 0xE0 = 0xC0 then
        (let codePoint = ucast (lead AND 0x1F) in if codePoint < 2 then None else Some (2, codePoint))
      else if lead AND 0xF0 = 0xE0 then Some (3, ucast (lead AND 0x0F))
      else if lead AND 0xF8 = 0xF0 then
        (let codePoint = ucast (lead AND 0x07) in if codePoint > 4 then None else Some (4, codePoint))
      else None)"

text \<open>The loop over the continuation bytes.\<close>

fun utf8_cont :: "u32 \<Rightarrow> bytes \<Rightarrow> u32 option" where
  "utf8_cont codePoint [] = Some codePoint"
| "utf8_cont codePoint (next # rest) =
     (if next AND 0xC0 \<noteq> 0x80 then None
      else utf8_cont (push_bit 6 codePoint OR ucast (next AND 0x3F)) rest)"

text \<open>The checks on the assembled code point: overlong, surrogate, beyond the last one.\<close>

definition utf8_cp_ok :: "nat \<Rightarrow> u32 \<Rightarrow> bool" where
  "utf8_cp_ok len codePoint \<longleftrightarrow>
     \<not> (len = 3 \<and> codePoint < 0x800 \<or> len = 4 \<and> codePoint < 0x10000)
     \<and> \<not> (codePoint \<ge> 0xD800 \<and> codePoint \<le> 0xDFFF)
     \<and> \<not> codePoint > 0x10FFFF"

function isValidUtf8 :: "bytes \<Rightarrow> bool" where
  "isValidUtf8 [] = True"
| "isValidUtf8 (lead # rest) =
     (if lead < 0x80 then isValidUtf8 rest
      else case utf8_lead lead of
        None \<Rightarrow> False
      | Some (len, codePoint) \<Rightarrow>
          if Suc (length rest) < len then False
          else (case utf8_cont codePoint (take (len - 1) rest) of
             None \<Rightarrow> False
           | Some codePoint' \<Rightarrow>
               utf8_cp_ok len codePoint' \<and> isValidUtf8 (drop (len - 1) rest)))"
  by pat_completeness auto
termination
  by (relation "measure length") auto

definition appendUtf8 :: "u32 \<Rightarrow> bytes" where
  "appendUtf8 codePoint =
     (if codePoint \<le> 0x7F then [ucast codePoint]
      else if codePoint \<le> 0x7FF then
        [ucast (0xC0 OR drop_bit 6 codePoint), ucast (0x80 OR (codePoint AND 0x3F))]
      else if codePoint \<le> 0xFFFF then
        [ucast (0xE0 OR drop_bit 12 codePoint), ucast (0x80 OR (drop_bit 6 codePoint AND 0x3F)),
         ucast (0x80 OR (codePoint AND 0x3F))]
      else
        [ucast (0xF0 OR drop_bit 18 codePoint), ucast (0x80 OR (drop_bit 12 codePoint AND 0x3F)),
         ucast (0x80 OR (drop_bit 6 codePoint AND 0x3F)), ucast (0x80 OR (codePoint AND 0x3F))])"

text \<open>Unicode scalar values: every code point but the surrogates.\<close>

definition scalar_value :: "u32 \<Rightarrow> bool" where
  "scalar_value cp \<longleftrightarrow> cp \<le> 0x10FFFF \<and> \<not> (0xD800 \<le> cp \<and> cp \<le> 0xDFFF)"

subsection \<open>Words, bit by bit\<close>

lemma byte_eq_bits:
  "(x :: byte) = y \<longleftrightarrow> (\<forall>n \<in> set [0, 1, 2, 3, 4, 5, 6, 7]. bit x n = bit y n)"
proof
  assume *: "\<forall>n \<in> set [0, 1, 2, 3, 4, 5, 6, 7]. bit x n = bit y n"
  show "x = y"
  proof (rule bit_word_eqI)
    fix n
    assume "n < LENGTH(8)"
    then have "n \<in> set [0, 1, 2, 3, 4, 5, 6, 7]" by (simp add: numeral_eq_Suc less_Suc_eq)
    with * show "bit x n = bit y n" by blast
  qed
qed simp

lemma u32_eq_bits:
  "(x :: u32) = y \<longleftrightarrow> (\<forall>n \<in> set [0, 1, 2, 3, 4, 5, 6, 7, 8, 9, 10, 11, 12, 13, 14, 15, 16, 17, 18,
     19, 20, 21, 22, 23, 24, 25, 26, 27, 28, 29, 30, 31]. bit x n = bit y n)"
proof
  assume *: "\<forall>n \<in> set [0, 1, 2, 3, 4, 5, 6, 7, 8, 9, 10, 11, 12, 13, 14, 15, 16, 17, 18,
     19, 20, 21, 22, 23, 24, 25, 26, 27, 28, 29, 30, 31]. bit x n = bit y n"
  show "x = y"
  proof (rule bit_word_eqI)
    fix n
    assume "n < LENGTH(32)"
    then have "n \<in> set [0, 1, 2, 3, 4, 5, 6, 7, 8, 9, 10, 11, 12, 13, 14, 15, 16, 17, 18,
     19, 20, 21, 22, 23, 24, 25, 26, 27, 28, 29, 30, 31]" by (simp add: numeral_eq_Suc less_Suc_eq)
    with * show "bit x n = bit y n" by blast
  qed
qed simp

text \<open>Comparisons with powers of two are statements about the high bits.\<close>

lemma take_bit_self_iff: "take_bit n (w :: 'a::len word) = w \<longleftrightarrow> unat w < 2 ^ n"
proof -
  have "take_bit n w = w \<longleftrightarrow> unat (take_bit n w) = unat w" by (simp only: unsigned_word_eqI word_unat_eq_iff)
  also have "\<dots> \<longleftrightarrow> take_bit n (unat w) = unat w" by (simp only: unsigned_take_bit_eq)
  finally show ?thesis by (simp only: take_bit_nat_eq_self_iff)
qed

lemma byte_less_0x80: "(x :: byte) < 0x80 \<longleftrightarrow> \<not> bit x 7"
  using take_bit_self_iff [of 7 x] by (simp add: byte_eq_bits bit_simps word_less_nat_alt)

lemma u32_bit_high: "32 \<le> n \<Longrightarrow> \<not> bit (x :: u32) n"
  using bit_imp_le_length [of x n] by auto

lemma u32_less_bits:
  "(x :: u32) < 2 \<longleftrightarrow> take_bit 1 x = x"
  "(x :: u32) \<le> 0x7F \<longleftrightarrow> take_bit 7 x = x"
  "(x :: u32) \<le> 0x7FF \<longleftrightarrow> take_bit 11 x = x"
  "(x :: u32) \<le> 0xFFFF \<longleftrightarrow> take_bit 16 x = x"
  "(x :: u32) < 0x800 \<longleftrightarrow> take_bit 11 x = x"
  "(x :: u32) < 0x10000 \<longleftrightarrow> take_bit 16 x = x"
  using take_bit_self_iff [of 1 x] take_bit_self_iff [of 7 x]
    take_bit_self_iff [of 11 x] take_bit_self_iff [of 16 x]
  by (auto simp: word_less_nat_alt word_le_nat_alt)

lemmas bitblast = byte_eq_bits u32_eq_bits u32_less_bits byte_less_0x80 bit_simps u32_bit_high

subsection \<open>Encoded code points are accepted\<close>

lemma unat_drop_bit_u32: "unat (drop_bit n (w :: u32)) = unat w div 2 ^ n"
  unfolding unat_drop_bit_eq by (rule drop_bit_eq_div)

lemma odd_ucast_byte: "odd (ucast (x :: byte) :: u32) = bit x 0"
  by (simp flip: bit_0 add: bit_simps)

lemma utf8_accepts_2:
  assumes "0x7F < cp" and "cp \<le> 0x7FF" and "scalar_value cp"
  shows "isValidUtf8 (appendUtf8 cp @ r) = isValidUtf8 r"
proof -
  let ?l = "ucast (0xC0 OR drop_bit 6 cp) :: byte" and ?c = "ucast (0x80 OR (cp AND 0x3F)) :: byte"
  have "\<not> drop_bit 6 cp < 2"
    using assms(1) by (simp add: word_less_nat_alt unat_drop_bit_u32)
  moreover have "ucast (?l AND 0x1F) = drop_bit 6 cp" and "?l AND 0xE0 = 0xC0" "\<not> ?l < 0x80"
    using assms(2) by (auto simp: bitblast)
  ultimately have "utf8_lead ?l = Some (2, drop_bit 6 cp)" by (simp add: utf8_lead_def)
  moreover have "?c AND 0xC0 = 0x80"
    and "push_bit 6 (drop_bit 6 cp) OR ucast (?c AND 0x3F) = cp"
    by (simp_all add: bitblast)
  moreover have "utf8_cp_ok 2 cp" using assms(3) by (auto simp: utf8_cp_ok_def scalar_value_def)
  moreover have "\<not> ?l < 0x80" by (simp add: bitblast)
  moreover have "\<not> cp \<le> 0x7F" using assms(1) by simp
  ultimately show ?thesis using assms(1,2) by (simp add: appendUtf8_def)
qed

lemma utf8_accepts_3:
  assumes "0x7FF < cp" and "cp \<le> 0xFFFF" and "scalar_value cp"
  shows "isValidUtf8 (appendUtf8 cp @ r) = isValidUtf8 r"
proof -
  let ?l = "ucast (0xE0 OR drop_bit 12 cp) :: byte"
    and ?c = "ucast (0x80 OR (drop_bit 6 cp AND 0x3F)) :: byte"
    and ?d = "ucast (0x80 OR (cp AND 0x3F)) :: byte"
  have "ucast (?l AND 0x0F) = drop_bit 12 cp" and "?l AND 0xE0 \<noteq> 0xC0" and "?l AND 0xF0 = 0xE0"
    using assms(2) by (auto simp: bitblast)
  then have "utf8_lead ?l = Some (3, drop_bit 12 cp)" by (simp add: utf8_lead_def)
  moreover have "?c AND 0xC0 = 0x80" and "?d AND 0xC0 = 0x80"
    and "push_bit 6 (push_bit 6 (drop_bit 12 cp) OR ucast (?c AND 0x3F)) OR ucast (?d AND 0x3F) = cp"
    by (simp_all add: bitblast)
  moreover have "utf8_cp_ok 3 cp"
    using assms(1,3) by (auto simp: utf8_cp_ok_def scalar_value_def word_le_nat_alt word_less_nat_alt)
  moreover have "\<not> ?l < 0x80" by (simp add: bitblast)
  moreover have "\<not> cp \<le> 0x7F" "\<not> cp \<le> 0x7FF" using assms(1) by (simp_all add: word_le_nat_alt word_less_nat_alt)
  ultimately show ?thesis using assms(2) by (simp add: appendUtf8_def numeral_3_eq_3)
qed

lemma utf8_accepts_4:
  assumes "0xFFFF < cp" and "scalar_value cp"
  shows "isValidUtf8 (appendUtf8 cp @ r) = isValidUtf8 r"
proof -
  let ?l = "ucast (0xF0 OR drop_bit 18 cp) :: byte"
    and ?c = "ucast (0x80 OR (drop_bit 12 cp AND 0x3F)) :: byte"
    and ?d = "ucast (0x80 OR (drop_bit 6 cp AND 0x3F)) :: byte"
    and ?e = "ucast (0x80 OR (cp AND 0x3F)) :: byte"
  have le: "unat cp < 2 ^ 21" using assms(2) by (simp add: scalar_value_def word_le_nat_alt)
  have "\<not> drop_bit 18 cp > 4"
    using assms(2)
    by (auto simp: scalar_value_def word_less_nat_alt word_le_nat_alt unat_drop_bit_u32)
  moreover have "ucast (?l AND 0x07) = drop_bit 18 cp" and "?l AND 0xE0 \<noteq> 0xC0"
    and "?l AND 0xF0 \<noteq> 0xE0" and "?l AND 0xF8 = 0xF0"
    using le take_bit_self_iff [of 21 cp] by (auto simp: bitblast)
  ultimately have "utf8_lead ?l = Some (4, drop_bit 18 cp)" by (simp add: utf8_lead_def)
  moreover have "?c AND 0xC0 = 0x80" and "?d AND 0xC0 = 0x80" and "?e AND 0xC0 = 0x80"
    and "push_bit 6 (push_bit 6 (push_bit 6 (drop_bit 18 cp) OR ucast (?c AND 0x3F))
          OR ucast (?d AND 0x3F)) OR ucast (?e AND 0x3F) = cp"
    by (simp_all add: bitblast)
  moreover have "utf8_cp_ok 4 cp"
    using assms by (auto simp: utf8_cp_ok_def scalar_value_def word_le_nat_alt word_less_nat_alt)
  moreover have "\<not> ?l < 0x80" by (simp add: bitblast)
  moreover have "\<not> cp \<le> 0x7F" "\<not> cp \<le> 0x7FF" "\<not> cp \<le> 0xFFFF"
    using assms(1) by (simp_all add: word_le_nat_alt word_less_nat_alt)
  ultimately show ?thesis by (simp add: appendUtf8_def numeral_eq_Suc)
qed

lemma utf8_accepts:
  assumes "scalar_value cp"
  shows "isValidUtf8 (appendUtf8 cp @ r) = isValidUtf8 r"
proof -
  consider "cp \<le> 0x7F" | "0x7F < cp" "cp \<le> 0x7FF" | "0x7FF < cp" "cp \<le> 0xFFFF" | "0xFFFF < cp"
    by fastforce
  then show ?thesis
  proof cases
    case 1
    then have "(ucast cp :: byte) < 0x80" by (simp add: bitblast)
    with 1 show ?thesis by (simp add: appendUtf8_def)
  qed (use assms utf8_accepts_2 utf8_accepts_3 utf8_accepts_4 in auto)
qed

subsection \<open>Accepted sequences are encoded code points\<close>

lemma utf8_multi:
  assumes "utf8_lead lead = Some (len, cp0)" and "utf8_cont cp0 cs = Some cp"
    and "length cs = len - 1" and "utf8_cp_ok len cp"
  shows "scalar_value cp \<and> appendUtf8 cp = lead # cs"
proof -
  have sc: "scalar_value cp" using assms(4) by (auto simp: utf8_cp_ok_def scalar_value_def)
  consider (two) "lead AND 0xE0 = 0xC0" "cp0 = ucast (lead AND 0x1F)" "\<not> cp0 < 2" "len = 2"
    | (three) "lead AND 0xF0 = 0xE0" "cp0 = ucast (lead AND 0x0F)" "len = 3"
    | (four) "lead AND 0xF8 = 0xF0" "cp0 = ucast (lead AND 0x07)" "len = 4"
    using assms(1) by (auto simp: utf8_lead_def Let_def split: if_splits)
  then show ?thesis
  proof cases
    case two
    then obtain c where c: "cs = [c]" using assms(3) by (auto simp: length_Suc_conv)
    with assms(2) have m: "c AND 0xC0 = 0x80"
      and cp: "cp = push_bit 6 (ucast (lead AND 0x1F)) OR ucast (c AND 0x3F)"
      by (auto simp: two split: if_splits)
    have "cp \<le> 0x7FF" "\<not> cp \<le> 0x7F"
      using two(3) unfolding cp two(2) by (auto simp: bitblast odd_ucast_byte)
    moreover have "ucast (0xC0 OR drop_bit 6 cp) = lead" "ucast (0x80 OR (cp AND 0x3F)) = c"
      using two(1) m unfolding cp by (auto simp: bitblast)
    ultimately show ?thesis using sc c by (simp add: appendUtf8_def)
  next
    case three
    then obtain c d where c: "cs = [c, d]" using assms(3) by (auto simp: length_Suc_conv numeral_eq_Suc)
    with assms(2) have m: "c AND 0xC0 = 0x80" "d AND 0xC0 = 0x80"
      and cp: "cp = push_bit 6 (push_bit 6 (ucast (lead AND 0x0F)) OR ucast (c AND 0x3F))
                 OR ucast (d AND 0x3F)"
      by (auto simp: three split: if_splits)
    have "cp \<le> 0xFFFF" unfolding cp by (simp add: bitblast)
    moreover have "\<not> cp \<le> 0x7FF" "\<not> cp \<le> 0x7F"
      using assms(4) by (auto simp: utf8_cp_ok_def three word_le_nat_alt word_less_nat_alt)
    moreover have "ucast (0xE0 OR drop_bit 12 cp) = lead"
      "ucast (0x80 OR (drop_bit 6 cp AND 0x3F)) = c" "ucast (0x80 OR (cp AND 0x3F)) = d"
      using three(1) m unfolding cp by (auto simp: bitblast)
    ultimately show ?thesis using sc c by (simp add: appendUtf8_def)
  next
    case four
    then obtain c d e where c: "cs = [c, d, e]"
      using assms(3) by (auto simp: length_Suc_conv numeral_eq_Suc)
    with assms(2) have m: "c AND 0xC0 = 0x80" "d AND 0xC0 = 0x80" "e AND 0xC0 = 0x80"
      and cp: "cp = push_bit 6 (push_bit 6 (push_bit 6 (ucast (lead AND 0x07)) OR ucast (c AND 0x3F))
                 OR ucast (d AND 0x3F)) OR ucast (e AND 0x3F)"
      by (auto simp: four split: if_splits)
    have "\<not> cp \<le> 0xFFFF" "\<not> cp \<le> 0x7FF" "\<not> cp \<le> 0x7F"
      using assms(4) by (auto simp: utf8_cp_ok_def four word_le_nat_alt word_less_nat_alt)
    moreover have "ucast (0xF0 OR drop_bit 18 cp) = lead"
      "ucast (0x80 OR (drop_bit 12 cp AND 0x3F)) = c"
      "ucast (0x80 OR (drop_bit 6 cp AND 0x3F)) = d" "ucast (0x80 OR (cp AND 0x3F)) = e"
      using four(1) m unfolding cp by (auto simp: bitblast)
    ultimately show ?thesis using sc c by (simp add: appendUtf8_def)
  qed
qed

lemma appendUtf8_ascii:
  assumes "lead < 0x80"
  shows "scalar_value (ucast lead)" and "appendUtf8 (ucast lead) = [lead]"
proof -
  have "(ucast lead :: u32) \<le> 0x7F"
    using assms by (auto simp: bitblast dest: bit_byte_bound)
  moreover have "ucast (ucast lead :: u32) = lead" by (simp add: byte_eq_bits bit_simps)
  ultimately show "scalar_value (ucast lead)" and "appendUtf8 (ucast lead) = [lead]"
    by (auto simp: scalar_value_def appendUtf8_def word_le_nat_alt)
qed

lemma utf8_decodes:
  "isValidUtf8 text \<Longrightarrow> \<exists>cps. list_all scalar_value cps \<and> text = concat (map appendUtf8 cps)"
proof (induction "text" rule: isValidUtf8.induct)
  case 1
  show ?case by (rule exI [of _ "[]"]) simp
next
  case (2 lead rest)
  show ?case
  proof (cases "lead < 0x80")
    case True
    with 2 obtain cps where cps: "list_all scalar_value cps" "rest = concat (map appendUtf8 cps)"
      by auto
    with appendUtf8_ascii [OF True] show ?thesis by (intro exI [of _ "ucast lead # cps"]) simp
  next
    case False
    with 2(3) obtain len cp0 cp where l: "utf8_lead lead = Some (len, cp0)"
      and n: "\<not> Suc (length rest) < len" and c: "utf8_cont cp0 (take (len - 1) rest) = Some cp"
      and ok: "utf8_cp_ok len cp" and v: "isValidUtf8 (drop (len - 1) rest)"
      by (auto split: option.splits prod.splits if_splits)
    have "length (take (len - 1) rest) = len - 1" using n by simp
    from utf8_multi [OF l c this ok] have cp: "scalar_value cp" "appendUtf8 cp = lead # take (len - 1) rest"
      by auto
    from 2(2) [OF False l _ n c] ok v obtain cps where
      "list_all scalar_value cps" "drop (len - 1) rest = concat (map appendUtf8 cps)" by auto
    with cp show ?thesis
      by (intro exI [of _ "cp # cps"]) (simp, metis append_take_drop_id)
  qed
qed

lemma utf8_concat: "list_all scalar_value cps \<Longrightarrow> isValidUtf8 (concat (map appendUtf8 cps) @ r) = isValidUtf8 r"
  by (induction cps) (simp_all add: utf8_accepts)

lemma isValidUtf8_append: "isValidUtf8 s \<Longrightarrow> isValidUtf8 (s @ t) = isValidUtf8 t"
  using utf8_decodes utf8_concat by blast

subsection \<open>Property\<close>

text \<open>C23: the validator accepts exactly UTF-8. A byte string passes if and only if it is the
  concatenation of the encodings, by the parser's own encoder, of Unicode scalar values. So
  overlong forms, surrogates, values beyond U+10FFFF, stray continuation bytes and truncated
  sequences are refused, and nothing well-formed is.\<close>

theorem isValidUtf8_iff:
  "isValidUtf8 text \<longleftrightarrow> (\<exists>cps. list_all scalar_value cps \<and> text = concat (map appendUtf8 cps))"
  using utf8_decodes utf8_concat [of _ "[]"] by fastforce

end
