(* ===== verification/Json_Writer.thy ===== *)
theory Json_Writer
  imports Json_Value Json_Utf8 Charconv
begin

section \<open>Writing JSON\<close>

text \<open>
  \<open>rpc/src/json_writer.cpp\<close>. The C++ functions append to \<open>*out\<close>; the definitions return what
  was appended, or \<^const>\<open>None\<close> where the code returns \<open>false\<close> (the caller then drops the local
  buffer). The loops over arrays and objects carry the test \<open>i != 0\<close> as a flag. A value can be
  written exactly when it is \<open>representable\<close>.
\<close>

definition kDefaultMaxDepth :: nat where "kDefaultMaxDepth = 64"

definition kHex :: bytes where "kHex = ascii ''0123456789abcdef''"

text \<open>The switch on one character: quote, backslash, backspace, form feed, line feed, carriage
  return and tab have two-character escapes; other control characters become \<open>\u00xx\<close>.\<close>

definition writeChar :: "byte \<Rightarrow> bytes" where
  "writeChar c =
     (if c = 0x22 then [0x5C, 0x22]
      else if c = 0x5C then [0x5C, 0x5C]
      else if c = 0x08 then [0x5C, 0x62]
      else if c = 0x0C then [0x5C, 0x66]
      else if c = 0x0A then [0x5C, 0x6E]
      else if c = 0x0D then [0x5C, 0x72]
      else if c = 0x09 then [0x5C, 0x74]
      else if c < 0x20 then
        [0x5C, 0x75, 0x30, 0x30] @ [kHex ! unat (drop_bit 4 c), kHex ! unat (c AND 0x0F)]
      else [c])"

definition writeString :: "bytes \<Rightarrow> bytes option" where
  "writeString text =
     (if \<not> isValidUtf8 text then None
      else Some ([0x22] @ concat (map writeChar text) @ [0x22]))"

text \<open>\<open>buffer[64]\<close>: a longer text is the error \<open>value_too_large\<close>.\<close>

definition writeInteger :: "i64 \<Rightarrow> bytes option" where
  "writeInteger w = (if length (to_chars_int w) \<le> 64 then Some (to_chars_int w) else None)"

definition writeDouble :: "'d double_ops \<Rightarrow> 'd \<Rightarrow> bytes option" where
  "writeDouble D x =
     (if \<not> d_isfinite D x then None
      else (case d_to_chars D x of
              None \<Rightarrow> None
            | Some t \<Rightarrow> if has_point_or_exp t then Some t else Some (t @ [0x2E, 0x30])))"

fun writeValue :: "'d double_ops \<Rightarrow> 'd JsonValue \<Rightarrow> nat \<Rightarrow> nat \<Rightarrow> bytes option"
  and writeElements :: "'d double_ops \<Rightarrow> bool \<Rightarrow> 'd JsonValue list \<Rightarrow> nat \<Rightarrow> nat \<Rightarrow> bytes option"
  and writeFields :: "'d double_ops \<Rightarrow> bool \<Rightarrow> 'd JsonObject \<Rightarrow> nat \<Rightarrow> nat \<Rightarrow> bytes option" where
  "writeValue D kNull depth maxDepth = Some (ascii ''null'')"
| "writeValue D (kBool b) depth maxDepth = Some (if b then ascii ''true'' else ascii ''false'')"
| "writeValue D (kInteger w) depth maxDepth = writeInteger w"
| "writeValue D (kNumber x) depth maxDepth = writeDouble D x"
| "writeValue D (kString s) depth maxDepth = writeString s"
| "writeValue D (kArray vs) depth maxDepth =
     (if depth \<ge> maxDepth then None
      else (case writeElements D False vs depth maxDepth of
              None \<Rightarrow> None
            | Some w \<Rightarrow> Some ([0x5B] @ w @ [0x5D])))"
| "writeValue D (kObject fs) depth maxDepth =
     (if depth \<ge> maxDepth then None
      else (case writeFields D False fs depth maxDepth of
              None \<Rightarrow> None
            | Some w \<Rightarrow> Some ([0x7B] @ w @ [0x7D])))"
| "writeElements D sep [] depth maxDepth = Some []"
| "writeElements D sep (v # vs) depth maxDepth =
     (case writeValue D v (depth + 1) maxDepth of
        None \<Rightarrow> None
      | Some w \<Rightarrow>
          (case writeElements D True vs depth maxDepth of
             None \<Rightarrow> None
           | Some ws \<Rightarrow> Some ((if sep then [0x2C] else []) @ w @ ws)))"
| "writeFields D sep [] depth maxDepth = Some []"
| "writeFields D sep (f # fs) depth maxDepth =
     (case writeString (fst f) of
        None \<Rightarrow> None
      | Some k \<Rightarrow>
          (case writeValue D (snd f) (depth + 1) maxDepth of
             None \<Rightarrow> None
           | Some w \<Rightarrow>
               (case writeFields D True fs depth maxDepth of
                  None \<Rightarrow> None
                | Some ws \<Rightarrow> Some ((if sep then [0x2C] else []) @ k @ [0x3A] @ w @ ws))))"

definition json_write :: "'d double_ops \<Rightarrow> nat \<Rightarrow> 'd JsonValue \<Rightarrow> bytes option" where
  "json_write D maxDepth v = writeValue D v 0 maxDepth"

text \<open>The overload that returns the text, empty on failure.\<close>

definition json_write_text :: "'d double_ops \<Rightarrow> nat \<Rightarrow> 'd JsonValue \<Rightarrow> bytes" where
  "json_write_text D maxDepth v = (case json_write D maxDepth v of None \<Rightarrow> [] | Some w \<Rightarrow> w)"

subsection \<open>What can be written\<close>

text \<open>Strings are UTF-8, numbers are finite, and containers nest no deeper than the limit.\<close>

fun representable :: "'d double_ops \<Rightarrow> nat \<Rightarrow> 'd JsonValue \<Rightarrow> bool" where
  "representable D room (kNumber x) \<longleftrightarrow> d_isfinite D x"
| "representable D room (kString s) \<longleftrightarrow> isValidUtf8 s"
| "representable D room (kArray vs) \<longleftrightarrow> 0 < room \<and> list_all (representable D (room - 1)) vs"
| "representable D room (kObject fs) \<longleftrightarrow>
     0 < room \<and> list_all (\<lambda>f. isValidUtf8 (fst f) \<and> representable D (room - 1) (snd f)) fs"
| "representable D room _ \<longleftrightarrow> True"

lemma writeInteger_eq [simp]: "writeInteger w = Some (to_chars_int w)"
  using length_to_chars_int [of w] by (simp add: writeInteger_def)

lemma writeDouble_defined:
  "to_chars_decimal D \<Longrightarrow> writeDouble D x \<noteq> None \<longleftrightarrow> d_isfinite D x"
  by (cases "d_isfinite D x") (auto simp: to_chars_decimal_def writeDouble_def split: option.splits
      dest!: spec [of _ x])

lemma writeString_defined: "writeString s \<noteq> None \<longleftrightarrow> isValidUtf8 s"
  by (simp add: writeString_def)

lemma write_defined:
  assumes "to_chars_decimal D"
  shows "depth \<le> maxDepth \<Longrightarrow> writeValue D v depth maxDepth \<noteq> None \<longleftrightarrow> representable D (maxDepth - depth) v"
    and "depth < maxDepth \<Longrightarrow> writeElements D sep vs depth maxDepth \<noteq> None \<longleftrightarrow>
           list_all (representable D (maxDepth - depth - 1)) vs"
    and "depth < maxDepth \<Longrightarrow> writeFields D sep fs depth maxDepth \<noteq> None \<longleftrightarrow>
           list_all (\<lambda>f. isValidUtf8 (fst f) \<and> representable D (maxDepth - depth - 1) (snd f)) fs"
  using assms
proof (induction D v depth maxDepth and D sep vs depth maxDepth and D sep fs depth maxDepth
    rule: writeValue_writeElements_writeFields.induct)
  case (4 D x depth maxDepth)
  then show ?case using writeDouble_defined [of D x] by simp
qed (auto simp: writeString_def split: option.splits if_splits, blast)

end
