(* ===== verification/Json_Parser.thy ===== *)
theory Json_Parser
  imports Json_Writer "HOL-Library.Monad_Syntax"
begin

section \<open>Parsing JSON\<close>

text \<open>
  \<open>rpc/src/json_parser.cpp\<close>. The class \<open>Reader\<close> is a cursor \<open>pos_\<close> into \<open>in_\<close>; here it is the
  suffix that is still to be read, and a method returns its result with the suffix it leaves, or
  \<^const>\<open>None\<close> where the code returns \<open>false\<close>. Comparisons of characters with ASCII bounds are
  the same for signed and unsigned \<open>char\<close>, so characters are bytes throughout. The two
  \<open>while (true)\<close> loops are \<open>arrayLoop\<close> and \<open>objectLoop\<close>.
\<close>

definition hexDigit :: "byte \<Rightarrow> int" where
  "hexDigit c =
     (if 0x30 \<le> c \<and> c \<le> 0x39 then uint c - 0x30
      else if 0x61 \<le> c \<and> c \<le> 0x66 then uint c - 0x61 + 10
      else if 0x41 \<le> c \<and> c \<le> 0x46 then uint c - 0x41 + 10
      else - 1)"

definition isWhitespace :: "byte \<Rightarrow> bool" where
  "isWhitespace c \<longleftrightarrow> c \<in> {0x20, 0x09, 0x0A, 0x0D}"

definition skipWhitespace :: "bytes \<Rightarrow> bytes" where
  "skipWhitespace s = dropWhile isWhitespace s"

definition consume :: "bytes \<Rightarrow> bytes \<Rightarrow> bytes option" where
  "consume literal s =
     (if take (length literal) s \<noteq> literal then None else Some (drop (length literal) s))"

subsection \<open>Numbers\<close>

definition scanSign :: "bytes \<Rightarrow> bytes" where
  "scanSign s = (case s of [] \<Rightarrow> s | c # r \<Rightarrow> if c = 0x2D then r else s)"

definition scanInt :: "bytes \<Rightarrow> bytes option" where
  "scanInt s =
     (case s of
        [] \<Rightarrow> None
      | c # r \<Rightarrow>
          if c = 0x30 then
            (case r of [] \<Rightarrow> Some r | d # _ \<Rightarrow> if isDigit d then None else Some r)
          else if 0x31 \<le> c \<and> c \<le> 0x39 then Some (dropWhile isDigit s)
          else None)"

text \<open>At least one digit, then all that follow.\<close>

definition scanDigits :: "bytes \<Rightarrow> bytes option" where
  "scanDigits s =
     (case s of [] \<Rightarrow> None | d # _ \<Rightarrow> if isDigit d then Some (dropWhile isDigit s) else None)"

definition scanFrac :: "bytes \<Rightarrow> (bool \<times> bytes) option" where
  "scanFrac s =
     (case s of
        [] \<Rightarrow> Some (False, s)
      | c # r \<Rightarrow> if c = 0x2E then do { r' \<leftarrow> scanDigits r; Some (True, r') } else Some (False, s))"

definition scanExp :: "bytes \<Rightarrow> (bool \<times> bytes) option" where
  "scanExp s =
     (case s of
        [] \<Rightarrow> Some (False, s)
      | c # r \<Rightarrow>
          if c = 0x65 \<or> c = 0x45 then
            do { r' \<leftarrow> scanDigits (case r of [] \<Rightarrow> r | d # q \<Rightarrow> if d = 0x2B \<or> d = 0x2D then q else r);
                 Some (True, r') }
          else Some (False, s))"

text \<open>The scan up to \<open>last\<close>: the flag \<open>isFloating\<close> and what follows the number.\<close>

definition scanNumber :: "bytes \<Rightarrow> (bool \<times> bytes) option" where
  "scanNumber s =
     do { s1 \<leftarrow> scanInt (scanSign s);
          (f, s2) \<leftarrow> scanFrac s1;
          (e, s3) \<leftarrow> scanExp s2;
          Some (f \<or> e, s3) }"

definition parseInteger :: "bytes \<Rightarrow> i64 option" where
  "parseInteger t = do { (i, n) \<leftarrow> from_chars_int t; if n = length t then Some i else None }"

definition parseDouble :: "'d double_ops \<Rightarrow> bytes \<Rightarrow> 'd option" where
  "parseDouble D t =
     do { (x, n) \<leftarrow> d_from_chars D t;
          if n \<noteq> length t \<or> \<not> d_isfinite D x then None else Some x }"

definition parseNumber :: "'d double_ops \<Rightarrow> bytes \<Rightarrow> ('d JsonValue \<times> bytes) option" where
  "parseNumber D s =
     do { (isFloating, rest) \<leftarrow> scanNumber s;
          let t = take (length s - length rest) s;
          case (if isFloating then None else parseInteger t) of
            Some i \<Rightarrow> Some (kInteger i, rest)
          | None \<Rightarrow> do { x \<leftarrow> parseDouble D t; Some (kNumber x, rest) } }"

subsection \<open>Strings\<close>

fun hexLoop :: "u32 \<Rightarrow> bytes \<Rightarrow> u32 option" where
  "hexLoop value [] = Some value"
| "hexLoop value (c # cs) =
     (if hexDigit c < 0 then None else hexLoop (push_bit 4 value OR word_of_int (hexDigit c)) cs)"

definition readHex4 :: "bytes \<Rightarrow> (u32 \<times> bytes) option" where
  "readHex4 s =
     (if length s < 4 then None else do { v \<leftarrow> hexLoop 0 (take 4 s); Some (v, drop 4 s) })"

definition parseUnicodeEscape :: "bytes \<Rightarrow> (bytes \<times> bytes) option" where
  "parseUnicodeEscape s =
     do { (codePoint, s1) \<leftarrow> readHex4 s;
          if codePoint \<ge> 0xD800 \<and> codePoint \<le> 0xDBFF then
            (if take 2 s1 \<noteq> [0x5C, 0x75] then None
             else do { (low, s2) \<leftarrow> readHex4 (drop 2 s1);
                       if low < 0xDC00 \<or> low > 0xDFFF then None
                       else Some (appendUtf8 (0x10000 + push_bit 10 (codePoint - 0xD800) + (low - 0xDC00)), s2) })
          else if codePoint \<ge> 0xDC00 \<and> codePoint \<le> 0xDFFF then None
          else Some (appendUtf8 codePoint, s1) }"

definition parseEscape :: "bytes \<Rightarrow> (bytes \<times> bytes) option" where
  "parseEscape s =
     (case s of
        [] \<Rightarrow> None
      | c # r \<Rightarrow>
          if c = 0x22 then Some ([0x22], r)
          else if c = 0x5C then Some ([0x5C], r)
          else if c = 0x2F then Some ([0x2F], r)
          else if c = 0x62 then Some ([0x08], r)
          else if c = 0x66 then Some ([0x0C], r)
          else if c = 0x6E then Some ([0x0A], r)
          else if c = 0x72 then Some ([0x0D], r)
          else if c = 0x74 then Some ([0x09], r)
          else if c = 0x75 then parseUnicodeEscape r
          else None)"

lemma readHex4_length: "readHex4 s = Some (v, r) \<Longrightarrow> length r < length s"
  by (auto simp: readHex4_def Option.bind_eq_Some_conv split: if_splits)

lemma parseUnicodeEscape_length: "parseUnicodeEscape s = Some (e, r) \<Longrightarrow> length r < length s"
  by (fastforce simp: parseUnicodeEscape_def Option.bind_eq_Some_conv split: if_splits
      dest!: readHex4_length)

lemma parseEscape_length: "parseEscape s = Some (e, r) \<Longrightarrow> length r < length s"
  by (auto simp: parseEscape_def split: list.splits if_splits dest: parseUnicodeEscape_length)

text \<open>The loop of \<open>parseString\<close>, with the text read so far.\<close>

function stringLoop :: "bytes \<Rightarrow> bytes \<Rightarrow> (bytes \<times> bytes) option" where
  "stringLoop t [] = None"
| "stringLoop t (c # rest) =
     (if c = 0x22 then (if \<not> isValidUtf8 t then None else Some (t, rest))
      else if c = 0x5C then do { (e, rest') \<leftarrow> parseEscape rest; stringLoop (t @ e) rest' }
      else if c < 0x20 then None
      else stringLoop (t @ [c]) rest)"
  by pat_completeness auto
termination
  by (relation "measure (length \<circ> snd)") (auto dest: parseEscape_length)

definition parseString :: "bytes \<Rightarrow> (bytes \<times> bytes) option" where
  "parseString s =
     (case s of [] \<Rightarrow> None | c # r \<Rightarrow> if c \<noteq> 0x22 then None else stringLoop [] r)"

lemma skipWhitespace_length: "length (skipWhitespace s) \<le> length s"
  by (simp add: skipWhitespace_def length_dropWhile_le)

lemma stringLoop_length: "stringLoop t s = Some (u, r) \<Longrightarrow> length r < length s"
  by (induction t s rule: stringLoop.induct)
    (fastforce simp: Option.bind_eq_Some_conv split: if_splits dest: parseEscape_length)+

lemma parseString_length: "parseString s = Some (u, r) \<Longrightarrow> length r < length s"
  by (auto simp: parseString_def split: list.splits if_splits dest: stringLoop_length)

lemma scanDigits_length: "scanDigits s = Some r \<Longrightarrow> length r \<le> length s"
  by (auto simp: scanDigits_def split: list.splits if_splits intro: le_SucI length_dropWhile_le)

lemma scanInt_length: "scanInt s = Some r \<Longrightarrow> length r \<le> length s"
  by (auto simp: scanInt_def split: list.splits if_splits intro: le_SucI length_dropWhile_le)

lemma scanNumber_length: "scanNumber s = Some (f, r) \<Longrightarrow> length r \<le> length s"
proof -
  assume "scanNumber s = Some (f, r)"
  then obtain s1 f' s2 e where 1: "scanInt (scanSign s) = Some s1" and 2: "scanFrac s1 = Some (f', s2)"
    and 3: "scanExp s2 = Some (e, r)"
    by (auto simp: scanNumber_def Option.bind_eq_Some_conv)
  have "length s1 \<le> length (scanSign s)" using 1 by (rule scanInt_length)
  moreover have "length (scanSign s) \<le> length s" by (auto simp: scanSign_def split: list.splits)
  moreover have "length s2 \<le> length s1" using 2
    by (fastforce simp: scanFrac_def Option.bind_eq_Some_conv split: list.splits if_splits
        dest: scanDigits_length)
  moreover have "length r \<le> length s2" using 3
    by (fastforce simp: scanExp_def Option.bind_eq_Some_conv split: list.splits if_splits
        dest: scanDigits_length)
  ultimately show ?thesis by linarith
qed

lemma parseNumber_length: "parseNumber D s = Some (v, r) \<Longrightarrow> length r \<le> length s"
  by (auto simp: parseNumber_def Option.bind_eq_Some_conv Let_def split: option.splits if_splits
      dest: scanNumber_length)

lemma consume_length: "consume l s = Some r \<Longrightarrow> length r \<le> length s"
  by (auto simp: consume_def split: if_splits)

subsection \<open>Values\<close>

text \<open>\<open>parseArray\<close> and \<open>parseObject\<close> are called at their opening bracket.\<close>

function (sequential)
  parseValue :: "'d double_ops \<Rightarrow> nat \<Rightarrow> nat \<Rightarrow> bytes \<Rightarrow> ('d JsonValue \<times> bytes) option"
  and parseArray :: "'d double_ops \<Rightarrow> nat \<Rightarrow> nat \<Rightarrow> bytes \<Rightarrow> ('d JsonValue \<times> bytes) option"
  and arrayLoop :: "'d double_ops \<Rightarrow> nat \<Rightarrow> nat \<Rightarrow> 'd JsonValue list \<Rightarrow> bytes \<Rightarrow> ('d JsonValue \<times> bytes) option"
  and parseObject :: "'d double_ops \<Rightarrow> nat \<Rightarrow> nat \<Rightarrow> bytes \<Rightarrow> ('d JsonValue \<times> bytes) option"
  and objectLoop :: "'d double_ops \<Rightarrow> nat \<Rightarrow> nat \<Rightarrow> 'd JsonObject \<Rightarrow> bytes \<Rightarrow> ('d JsonValue \<times> bytes) option"
where
  "parseValue D maxDepth depth s =
     (case s of
        [] \<Rightarrow> None
      | c # _ \<Rightarrow>
          if c = 0x6E then do { r \<leftarrow> consume (ascii ''null'') s; Some (kNull, r) }
          else if c = 0x74 then do { r \<leftarrow> consume (ascii ''true'') s; Some (kBool True, r) }
          else if c = 0x66 then do { r \<leftarrow> consume (ascii ''false'') s; Some (kBool False, r) }
          else if c = 0x22 then do { (t, r) \<leftarrow> parseString s; Some (kString t, r) }
          else if c = 0x5B then parseArray D maxDepth depth s
          else if c = 0x7B then parseObject D maxDepth depth s
          else parseNumber D s)"
| "parseArray D maxDepth depth s =
     (if depth \<ge> maxDepth then None
      else (case s of
              [] \<Rightarrow> None
            | _ # s1 \<Rightarrow>
                (case skipWhitespace s1 of
                   [] \<Rightarrow> arrayLoop D maxDepth depth [] []
                 | c # r \<Rightarrow>
                     if c = 0x5D then Some (kArray [], r)
                     else arrayLoop D maxDepth depth [] (c # r))))"
| "arrayLoop D maxDepth depth acc s =
     do { (element, s1) \<leftarrow> parseValue D maxDepth (depth + 1) (skipWhitespace s);
          case skipWhitespace s1 of
            [] \<Rightarrow> None
          | c # r \<Rightarrow>
              if c = 0x2C then arrayLoop D maxDepth depth (acc @ [element]) r
              else if c = 0x5D then Some (kArray (acc @ [element]), r)
              else None }"
| "parseObject D maxDepth depth s =
     (if depth \<ge> maxDepth then None
      else (case s of
              [] \<Rightarrow> None
            | _ # s1 \<Rightarrow>
                (case skipWhitespace s1 of
                   [] \<Rightarrow> objectLoop D maxDepth depth [] []
                 | c # r \<Rightarrow>
                     if c = 0x7D then Some (kObject [], r)
                     else objectLoop D maxDepth depth [] (c # r))))"
| "objectLoop D maxDepth depth acc s =
     do { (key, s1) \<leftarrow> parseString (skipWhitespace s);
          case skipWhitespace s1 of
            [] \<Rightarrow> None
          | c # s2 \<Rightarrow>
              if c \<noteq> 0x3A then None
              else do {
                (val, s3) \<leftarrow> parseValue D maxDepth (depth + 1) (skipWhitespace s2);
                case skipWhitespace s3 of
                  [] \<Rightarrow> None
                | c # r \<Rightarrow>
                    if c = 0x2C then objectLoop D maxDepth depth (acc @ [(key, val)]) r
                    else if c = 0x7D then Some (kObject (acc @ [(key, val)]), r)
                    else None } }"
  by pat_completeness auto

abbreviation parse_dom where
  "parse_dom \<equiv> parseValue_parseArray_arrayLoop_parseObject_objectLoop_dom"

text \<open>The cursor only moves forward, which bounds the loops.\<close>

lemma skipWhitespace_Cons: "skipWhitespace s = c # r \<Longrightarrow> length r < length s"
  using skipWhitespace_length [of s] by simp

lemma parse_dom_length:
  shows "parse_dom (Inl (Inl (D, m, d, s))) \<Longrightarrow> \<forall>v r. parseValue D m d s = Some (v, r) \<longrightarrow> length r \<le> length s"
    and "parse_dom (Inl (Inr (D, m, d, s))) \<Longrightarrow> \<forall>v r. parseArray D m d s = Some (v, r) \<longrightarrow> length r \<le> length s"
    and "parse_dom (Inr (Inl (D, m, d, acc, s))) \<Longrightarrow> \<forall>v r. arrayLoop D m d acc s = Some (v, r) \<longrightarrow> length r \<le> length s"
    and "parse_dom (Inr (Inr (Inl (D, m, d, s)))) \<Longrightarrow> \<forall>v r. parseObject D m d s = Some (v, r) \<longrightarrow> length r \<le> length s"
    and "parse_dom (Inr (Inr (Inr (D, m, d, acc', s)))) \<Longrightarrow> \<forall>v r. objectLoop D m d acc' s = Some (v, r) \<longrightarrow> length r \<le> length s"
proof (induction D m d s and D m d s and D m d acc s and D m d s and D m d acc' s
    rule: parseValue_parseArray_arrayLoop_parseObject_objectLoop.pinduct)
  case (1 D maxDepth depth s)
  then show ?case
    by (auto simp: parseValue.psimps Option.bind_eq_Some_conv split: list.splits if_splits
        dest: consume_length parseNumber_length parseString_length less_imp_le_nat)
next
  case (2 D maxDepth depth s)
  then show ?case
    by (fastforce simp: parseArray.psimps split: list.splits if_splits dest: skipWhitespace_Cons)
next
  case (3 D maxDepth depth acc s)
  show ?case
  proof (intro allI impI)
    fix v r
    assume "arrayLoop D maxDepth depth acc s = Some (v, r)"
    with 3(1) obtain e s1 c r0 where 1: "parseValue D maxDepth (depth + 1) (skipWhitespace s) = Some (e, s1)"
      and 2: "skipWhitespace s1 = c # r0"
      and r: "c = 0x2C \<and> arrayLoop D maxDepth depth (acc @ [e]) r0 = Some (v, r) \<or> c \<noteq> 0x2C \<and> r = r0"
      by (auto simp: arrayLoop.psimps Option.bind_eq_Some_conv case_list_Some split: if_splits)
    have "length r \<le> length r0" using r 3(3) [OF 1 refl 2] by blast
    with 3(2) 1 skipWhitespace_Cons [OF 2] skipWhitespace_length [of s] show "length r \<le> length s"
      by fastforce
  qed
next
  case (4 D maxDepth depth s)
  then show ?case
    by (fastforce simp: parseObject.psimps split: list.splits if_splits dest: skipWhitespace_Cons)
next
  case (5 D maxDepth depth acc s)
  show ?case
  proof (intro allI impI)
    fix v r
    assume o: "objectLoop D maxDepth depth acc s = Some (v, r)"
    with 5(1) obtain k s1 s2 x s3 c r0 where 1: "parseString (skipWhitespace s) = Some (k, s1)"
      and 2: "skipWhitespace s1 = 0x3A # s2"
      and 3: "parseValue D maxDepth (depth + 1) (skipWhitespace s2) = Some (x, s3)"
      and 4: "skipWhitespace s3 = c # r0"
      and r: "c = 0x2C \<and> objectLoop D maxDepth depth (acc @ [(k, x)]) r0 = Some (v, r) \<or> c \<noteq> 0x2C \<and> r = r0"
      by (auto simp: objectLoop.psimps Option.bind_eq_Some_conv case_list_Some split: if_splits)
    have "length r \<le> length r0" using r 5(3) [OF 1 refl 2 _ 3 refl 4] by auto
    moreover have "length s3 \<le> length (skipWhitespace s2)" using 5(2) [OF 1 refl 2] 3 by simp
    ultimately show "length r \<le> length s"
      using parseString_length [OF 1] skipWhitespace_Cons [OF 2] skipWhitespace_Cons [OF 4]
        skipWhitespace_length [of s] skipWhitespace_length [of s2] by linarith
  qed
qed

lemma element_step:
  assumes "parse_dom (Inl (Inl (D, m, d, skipWhitespace s)))"
    and "parseValue D m d (skipWhitespace s) = Some (v, r)" and "skipWhitespace r = c # r'"
  shows "length r' < length s"
  using parse_dom_length(1) [OF assms(1)] assms(2) skipWhitespace_Cons [OF assms(3)]
    skipWhitespace_length [of s] by (meson le_less_trans le_trans not_le)

lemma key_step:
  assumes "parseString (skipWhitespace s) = Some (k, r)" and "skipWhitespace r = c # r'"
  shows "length r' < length s"
  using parseString_length [OF assms(1)] skipWhitespace_Cons [OF assms(2)]
    skipWhitespace_length [of s] by linarith

termination parseValue
proof (relation "measure (case_sum
      (case_sum (\<lambda>(D, m, d, s). 3 * length s + 1) (\<lambda>(D, m, d, s). 3 * length s))
      (case_sum (\<lambda>(D, m, d, acc, s). 3 * length s + 2)
        (case_sum (\<lambda>(D, m, d, s). 3 * length s) (\<lambda>(D, m, d, acc, s). 3 * length s + 2))))",
    goal_cases)
  case (6 D maxDepth depth acc s)
  then show ?case using skipWhitespace_length [of s] by simp
next
  case (7 D maxDepth depth acc s a e s1)
  then show ?case using element_step by auto
next
  case (10 D maxDepth depth acc s a k s1 c s2)
  then show ?case using key_step [of s k s1 c s2] skipWhitespace_length [of s2] by auto
next
  case (11 D maxDepth depth acc s a k s1 c s2 b x s3 c' r)
  then show ?case
    using key_step [of s k s1 c s2] element_step [of D maxDepth "Suc depth" s2 x s3 c' r] by auto
qed (auto dest: skipWhitespace_Cons)

declare parseValue.simps [simp del] parseArray.simps [simp del] arrayLoop.simps [simp del]
  parseObject.simps [simp del] objectLoop.simps [simp del]

text \<open>\<open>Reader::parse\<close> and \<open>JsonParser::parse\<close>.\<close>

definition json_parse :: "'d double_ops \<Rightarrow> nat \<Rightarrow> bytes \<Rightarrow> 'd JsonValue option" where
  "json_parse D maxDepth s =
     do { (v, r) \<leftarrow> parseValue D maxDepth 0 (skipWhitespace s);
          if skipWhitespace r \<noteq> [] then None else Some v }"

end
