(* ===== verification/Json_Roundtrip.thy ===== *)
theory Json_Roundtrip
  imports Json_Parser
begin

section \<open>The parser inverts the writer\<close>

text \<open>
  Every text the writer produces is parsed back to the value it was written from, and whatever
  the parser accepts can be written again. The lemmas follow the writer: characters of a
  string, numbers, then values by induction on the writer's recursion, each with arbitrary
  text behind it.
\<close>

subsection \<open>Strings\<close>

lemma hexDigit_kHex:
  assumes "n < 16"
  shows "hexDigit (kHex ! n) = int n"
proof -
  from assms have "n \<in> {0, 1, 2, 3, 4, 5, 6, 7, 8, 9, 10, 11, 12, 13, 14, 15}" by simp arith
  then show ?thesis by (auto simp: hexDigit_def kHex_def ascii_def)
qed

lemma control_escape:
  assumes "c < 0x20"
  shows "parseUnicodeEscape ([0x30, 0x30, kHex ! unat (drop_bit 4 c), kHex ! unat (c AND 0x0F)] @ r)
    = Some ([c], r)"
proof -
  have hi: "unat (drop_bit 4 c) < 16"
    using assms by (simp add: unat_drop_bit_eq drop_bit_eq_div [where 'a = nat] word_less_nat_alt)
  have lo: "unat (c AND 0x0F) < 16"
    using word_and_le1 [of c "0x0F"] by (simp add: word_less_nat_alt word_le_nat_alt)
  have z: "hexDigit 0x30 = 0" by (simp add: hexDigit_def)
  have "hexLoop 0 [0x30, 0x30, kHex ! unat (drop_bit 4 c), kHex ! unat (c AND 0x0F)] = Some (ucast c)"
    using hexDigit_kHex [OF hi] hexDigit_kHex [OF lo] by (simp add: z) (simp add: bitblast)
  moreover have "c < 0x80" and "(ucast c :: u32) < 0x20"
    using assms unsigned_less [where 'a = nat, of c]
    by (simp_all add: word_less_nat_alt unsigned_ucast_eq take_bit_nat_eq_self)
  ultimately show ?thesis
    using appendUtf8_ascii by (simp add: parseUnicodeEscape_def readHex4_def word_less_nat_alt word_le_nat_alt)
qed
lemma stringLoop_writeChar: "stringLoop t (writeChar c @ r) = stringLoop (t @ [c]) r"
  using control_escape [of c r] by (auto simp: writeChar_def parseEscape_def)

lemma stringLoop_written:
  "stringLoop t (concat (map writeChar s) @ 0x22 # r) =
     (if isValidUtf8 (t @ s) then Some (t @ s, r) else None)"
  by (induction s arbitrary: t) (simp_all add: stringLoop_writeChar)

lemma parseString_written: "writeString s = Some w \<Longrightarrow> parseString (w @ r) = Some (s, r)"
  by (auto simp: writeString_def parseString_def stringLoop_written split: if_splits)

subsection \<open>Numbers\<close>

text \<open>What may follow a number without continuing it.\<close>

definition number_end :: "bytes \<Rightarrow> bool" where
  "number_end r \<longleftrightarrow> (case r of [] \<Rightarrow> True | c # _ \<Rightarrow> \<not> isDigit c \<and> c \<notin> {0x2E, 0x65, 0x45})"

lemma dropWhile_digits:
  "list_all isDigit ds \<Longrightarrow> (case r of [] \<Rightarrow> True | c # _ \<Rightarrow> \<not> isDigit c) \<Longrightarrow> dropWhile isDigit (ds @ r) = r"
  by (induction ds) (auto split: list.splits)

lemma number_end_digit: "number_end r \<Longrightarrow> (case r of [] \<Rightarrow> True | c # _ \<Rightarrow> \<not> isDigit c)"
  by (auto simp: number_end_def split: list.splits)

lemma scanDigits_written:
  "ds \<noteq> [] \<Longrightarrow> list_all isDigit ds \<Longrightarrow> number_end r \<Longrightarrow> scanDigits (ds @ r) = Some r"
  by (cases ds) (auto simp: scanDigits_def dropWhile_digits number_end_digit)

lemma exp_part_end: "exp_part ep \<Longrightarrow> number_end r \<Longrightarrow>
    (case ep @ r of [] \<Rightarrow> True | c # _ \<Rightarrow> \<not> isDigit c \<and> c \<noteq> 0x2E)"
  by (auto simp: exp_part_def number_end_def split: list.splits)

lemma scanExp_written:
  assumes "exp_part ep" and "number_end r"
  shows "scanExp (ep @ r) = Some (ep \<noteq> [], r)"
  using assms(1) unfolding exp_part_def
proof (elim disjE exE conjE)
  assume "ep = []"
  with assms(2) show ?thesis by (auto simp: scanExp_def number_end_def split: list.splits)
next
  fix e sg ds
  assume ep: "ep = e # sg @ ds" "e \<in> {0x65, 0x45}" "sg \<in> {[], [0x2B], [0x2D]}" "ds \<noteq> []" "list_all isDigit ds"
  from ep(4,5) obtain d q where ds: "ds = d # q" "isDigit d" by (cases ds) auto
  then have "d \<noteq> 0x2B" "d \<noteq> 0x2D" by auto
  with ep ds show ?thesis
    using scanDigits_written [OF ep(4,5) assms(2)] by (auto simp: scanExp_def)
qed

lemma scanFrac_written:
  assumes "frac_part fp" and "exp_part ep" and "number_end r"
  shows "scanFrac (fp @ ep @ r) = Some (fp \<noteq> [], ep @ r)"
  using assms(1) unfolding frac_part_def
proof (elim disjE exE conjE)
  assume "fp = []"
  with exp_part_end [OF assms(2,3)] show ?thesis by (auto simp: scanFrac_def split: list.splits)
next
  fix ds
  assume fp: "fp = 0x2E # ds" "ds \<noteq> []" "list_all isDigit ds"
  have "dropWhile isDigit (ds @ ep @ r) = ep @ r"
    using exp_part_end [OF assms(2,3)] by (intro dropWhile_digits fp) (auto split: list.splits)
  with fp show ?thesis by (cases ds) (auto simp: scanFrac_def scanDigits_def)
qed

lemma scanInt_written:
  assumes "int_part ip" and "case s of [] \<Rightarrow> True | c # _ \<Rightarrow> \<not> isDigit c"
  shows "scanInt (ip @ s) = Some s"
proof (cases "ip = [0x30]")
  case True
  with assms(2) show ?thesis by (auto simp: scanInt_def split: list.splits)
next
  case False
  with assms(1) obtain c cs where ip: "ip = c # cs" "c \<noteq> 0x30" "isDigit c" "list_all isDigit ip"
    by (cases ip) (auto simp: int_part_def)
  have "0x31 \<le> c" "c \<le> 0x39"
    using ip(2,3) unfolding isDigit_def word_le_nat_alt word_unat_eq_iff by simp_all
  with ip dropWhile_digits [OF ip(4) assms(2)] show ?thesis by (simp add: scanInt_def)
qed

lemma scanNumber_written:
  assumes "decimal_literal t fl" and "number_end r"
  shows "scanNumber (t @ r) = Some (fl, r)"
proof -
  from assms(1) obtain sg ip fp ep where t: "t = sg @ ip @ fp @ ep" "sg \<in> {[], [0x2D]}" "int_part ip"
    "frac_part fp" "exp_part ep" "fl = (fp @ ep \<noteq> [])"
    unfolding decimal_literal_def by blast
  have "case fp @ ep @ r of [] \<Rightarrow> True | c # _ \<Rightarrow> \<not> isDigit c"
    using t(4) exp_part_end [OF t(5) assms(2)] by (auto simp: frac_part_def split: list.splits)
  then have "scanInt (ip @ fp @ ep @ r) = Some (fp @ ep @ r)" by (rule scanInt_written [OF t(3)])
  moreover have "scanSign (t @ r) = ip @ fp @ ep @ r"
    using t(1,2) int_part_digits [OF t(3)] by (cases ip) (auto simp: scanSign_def)
  ultimately show ?thesis
    using scanFrac_written [OF t(4,5) assms(2)] scanExp_written [OF t(5) assms(2)] t(6)
    by (simp add: scanNumber_def)
qed

lemma parseNumber_written:
  assumes "decimal_literal t fl" and "number_end r"
  shows "parseNumber D (t @ r) =
    (case (if fl then None else parseInteger t) of
       Some i \<Rightarrow> Some (kInteger i, r)
     | None \<Rightarrow> map_option (\<lambda>x. (kNumber x, r)) (parseDouble D t))"
  by (cases "parseDouble D t") (simp_all add: parseNumber_def scanNumber_written [OF assms] split: option.splits)

lemma parseNumber_integer:
  assumes "number_end r"
  shows "parseNumber D (to_chars_int w @ r) = Some (kInteger w, r)"
  by (simp add: parseNumber_written [OF to_chars_int_literal assms] parseInteger_def
      from_chars_to_chars_int)

lemma writeDouble_literal:
  assumes "double_io D" and "writeDouble D x = Some w"
  shows "decimal_literal w True \<and> d_from_chars D w = Some (x, length w) \<and> d_isfinite D x"
proof -
  from assms(2) obtain t where t: "d_to_chars D x = Some t" and fin: "d_isfinite D x"
    and w: "w = (if has_point_or_exp t then t else t @ [0x2E, 0x30])"
    by (auto simp: writeDouble_def split: if_splits option.splits)
  from assms(1) have D: "to_chars_decimal D" "from_chars_recovers D" "from_chars_zero_fraction D"
    by (simp_all add: double_io_def)
  from D(1) fin t obtain fl where lit: "decimal_literal t fl" by (auto simp: to_chars_decimal_def)
  from D(2) fin t have rec: "d_from_chars D t = Some (x, length t)" by (simp add: from_chars_recovers_def)
  show ?thesis
  proof (cases fl)
    case True
    with lit w rec fin show ?thesis by (simp add: has_point_or_exp_literal)
  next
    case False
    with lit w rec fin D(3) show ?thesis
      by (auto simp: has_point_or_exp_literal decimal_literal_zero_fraction from_chars_zero_fraction_def)
  qed
qed

lemma parseNumber_double:
  assumes "double_io D" and "writeDouble D x = Some w" and "number_end r"
  shows "parseNumber D (w @ r) = Some (kNumber x, r)"
  using writeDouble_literal [OF assms(1,2)]
  by (simp add: parseNumber_written [OF _ assms(3), of w True] parseDouble_def)

subsection \<open>Values\<close>

text \<open>The first character of a written value selects the right branch of \<open>parseValue\<close>; it is not
  white space and not a closing bracket.\<close>

definition value_start :: "byte \<Rightarrow> bool" where
  "value_start c \<longleftrightarrow> isDigit c \<or> c \<in> {0x2D, 0x22, 0x5B, 0x7B, 0x6E, 0x74, 0x66}"

lemma literal_start:
  "decimal_literal t fl \<Longrightarrow> \<exists>c t'. t = c # t' \<and> (isDigit c \<or> c = 0x2D)"
  unfolding decimal_literal_def by (auto dest!: int_part_digits simp: neq_Nil_conv)

lemma written_start:
  assumes "double_io D" and "writeValue D v d m = Some w"
  shows "\<exists>c w'. w = c # w' \<and> value_start c"
proof (cases v)
  case (kInteger i)
  then show ?thesis using assms(2) literal_start [OF to_chars_int_literal, of i]
    by (auto simp: value_start_def)
next
  case (kNumber x)
  with assms show ?thesis using literal_start writeDouble_literal [of D x w]
    by (fastforce simp: value_start_def)
qed (use assms(2) in \<open>auto simp: value_start_def ascii_def writeString_def split: if_splits option.splits\<close>)

lemma skip_start: "value_start c \<Longrightarrow> skipWhitespace (c # s) = c # s"
  by (auto simp: skipWhitespace_def value_start_def isWhitespace_def isDigit_def)

lemma skip_punct [simp]: "c \<in> {0x2C, 0x5D, 0x7D, 0x3A, 0x22} \<Longrightarrow> skipWhitespace (c # s) = c # s"
  by (auto simp: skipWhitespace_def isWhitespace_def)

lemma parseValue_number:
  "isDigit c \<or> c = 0x2D \<Longrightarrow> parseValue D m d (c # s) = parseNumber D (c # s)"
  by (auto simp: parseValue.simps isDigit_def)

lemma elements_head:
  "writeElements D True vs d m = Some w \<Longrightarrow> w = [] \<and> vs = [] \<or> (\<exists>w'. w = 0x2C # w' \<and> vs \<noteq> [])"
  by (cases vs) (auto split: option.splits)

lemma fields_head:
  "writeFields D True fs d m = Some w \<Longrightarrow> w = [] \<and> fs = [] \<or> (\<exists>w'. w = 0x2C # w' \<and> fs \<noteq> [])"
  by (cases fs) (auto split: option.splits)

lemma number_end_punct [simp]:
  "number_end []" "number_end (0x2C # s)" "number_end (0x5D # s)" "number_end (0x7D # s)"
  by (simp_all add: number_end_def)

lemma parse_scalar:
  assumes "double_io D" and "number_end r"
  shows "parseValue D m d (ascii ''null'' @ r) = Some (kNull, r)"
    and "parseValue D m d ((if b then ascii ''true'' else ascii ''false'') @ r) = Some (kBool b, r)"
    and "parseValue D m d (to_chars_int i @ r) = Some (kInteger i, r)"
    and "writeDouble D x = Some w \<Longrightarrow> parseValue D m d (w @ r) = Some (kNumber x, r)"
    and "writeString s = Some w \<Longrightarrow> parseValue D m d (w @ r) = Some (kString s, r)"
proof -
  show "parseValue D m d (to_chars_int i @ r) = Some (kInteger i, r)"
    using parseNumber_integer [OF assms(2), of D i] literal_start [OF to_chars_int_literal, of i]
    by (auto simp: parseValue_number)
  show "parseValue D m d (w @ r) = Some (kNumber x, r)" if "writeDouble D x = Some w"
    using parseNumber_double [OF assms(1) that assms(2)] writeDouble_literal [OF assms(1) that]
      literal_start [of w True] by (auto simp: parseValue_number)
  show "parseValue D m d (w @ r) = Some (kString s, r)" if "writeString s = Some w"
    using that parseString_written [OF that, of r]
    by (auto simp: parseValue.simps writeString_def split: if_splits)
qed (auto simp: parseValue.simps ascii_def consume_def)

text \<open>One round of each loop on written text.\<close>

lemma arrayLoop_step:
  assumes "value_start c" and "parseValue D m (d + 1) (c # s) = Some (v, x # s')" and "x \<in> {0x2C, 0x5D}"
  shows "arrayLoop D m d acc (c # s) =
    (if x = 0x2C then arrayLoop D m d (acc @ [v]) s' else Some (kArray (acc @ [v]), s'))"
  using assms by (subst arrayLoop.simps) (auto simp: skip_start)

lemma objectLoop_step:
  assumes "writeString k = Some wk" and "value_start c"
    and "parseValue D m (d + 1) (c # s) = Some (v, x # s')" and "x \<in> {0x2C, 0x7D}"
  shows "objectLoop D m d acc (wk @ 0x3A # c # s) =
    (if x = 0x2C then objectLoop D m d (acc @ [(k, v)]) s' else Some (kObject (acc @ [(k, v)]), s'))"
proof -
  obtain k' where "wk = 0x22 # k'" using assms(1) by (auto simp: writeString_def split: if_splits)
  with assms(2-) parseString_written [OF assms(1)] show ?thesis
    by (subst objectLoop.simps) (auto simp: skip_start)
qed

lemma parseValue_array:
  assumes "d < m" and "value_start c"
  shows "parseValue D m d (0x5B # c # s) = arrayLoop D m d [] (c # s)"
  using assms by (auto simp: parseValue.simps parseArray.simps skip_start value_start_def)

lemma parseValue_object:
  assumes "d < m"
  shows "parseValue D m d (0x7B # 0x22 # s) = objectLoop D m d [] (0x22 # s)"
  using assms by (auto simp: parseValue.simps parseObject.simps)

lemma parse_written:
  assumes "double_io D"
  shows "writeValue D v d m = Some w \<Longrightarrow> number_end r \<Longrightarrow> parseValue D m d (w @ r) = Some (v, r)"
    and "writeElements D sep vs d m = Some w \<Longrightarrow> vs \<noteq> [] \<Longrightarrow>
      arrayLoop D m d acc ((if sep then tl w else w) @ 0x5D # r) = Some (kArray (acc @ vs), r)"
    and "writeFields D sep fs d m = Some w \<Longrightarrow> fs \<noteq> [] \<Longrightarrow>
      objectLoop D m d acc' ((if sep then tl w else w) @ 0x7D # r) = Some (kObject (acc' @ fs), r)"
  using assms
proof (induction D v d m and D sep vs d m and D sep fs d m arbitrary: w r and w r acc and w r acc'
    rule: writeValue_writeElements_writeFields.induct)
  case (6 D vs depth maxDepth)
  from 6(2) obtain ws where d: "depth < maxDepth" and w: "w = [0x5B] @ ws @ [0x5D]"
    and ws: "writeElements D False vs depth maxDepth = Some ws" by (auto split: if_splits option.splits)
  show ?case
  proof (cases vs)
    case (Cons v vs')
    then obtain c ws' where "ws = c # ws'" "value_start c"
      using ws written_start [OF 6(4)] by (auto split: option.splits) force
    with w 6(1) [OF _ ws _ 6(4), of "[]" r] Cons d show ?thesis by (simp add: parseValue_array)
  qed (use ws w d in \<open>simp add: parseValue.simps parseArray.simps\<close>)
next
  case (7 D fs depth maxDepth)
  from 7(2) obtain ws where d: "depth < maxDepth" and w: "w = [0x7B] @ ws @ [0x7D]"
    and ws: "writeFields D False fs depth maxDepth = Some ws" by (auto split: if_splits option.splits)
  show ?case
  proof (cases fs)
    case (Cons f fs')
    then obtain ws' where "ws = 0x22 # ws'"
      using ws by (auto simp: writeString_def split: option.splits if_splits)
    with w 7(1) [OF _ ws _ 7(4), of "[]" r] Cons d show ?thesis by (simp add: parseValue_object)
  qed (use ws w d in \<open>simp add: parseValue.simps parseObject.simps\<close>)
next
  case (9 D sep v vs depth maxDepth)
  from 9(3) obtain wv ws where wv: "writeValue D v (depth + 1) maxDepth = Some wv"
    and ws: "writeElements D True vs depth maxDepth = Some ws"
    and w: "w = (if sep then [0x2C] else []) @ wv @ ws" by (auto split: option.splits)
  from written_start [OF 9(5) wv] obtain c w' where c: "wv = c # w'" "value_start c" by blast
  have "number_end (ws @ 0x5D # r)" using elements_head [OF ws] by auto
  from arrayLoop_step [OF c(2), of D maxDepth depth "w' @ ws @ 0x5D # r" v] 9(1) [OF wv this 9(5)]
  show ?case using elements_head [OF ws] c w 9(2) [OF wv ws _ 9(5), of "acc @ [v]" r] by auto
next
  case (11 D sep f fs depth maxDepth)
  from 11(3) obtain wk wv ws where wk: "writeString (fst f) = Some wk"
    and wv: "writeValue D (snd f) (depth + 1) maxDepth = Some wv"
    and ws: "writeFields D True fs depth maxDepth = Some ws"
    and w: "w = (if sep then [0x2C] else []) @ wk @ [0x3A] @ wv @ ws" by (auto split: option.splits)
  from written_start [OF 11(5) wv] obtain c w' where c: "wv = c # w'" "value_start c" by blast
  have "number_end (ws @ 0x7D # r)" using fields_head [OF ws] by auto
  from objectLoop_step [OF wk c(2), of D maxDepth depth "w' @ ws @ 0x7D # r" "snd f"]
    11(1) [OF wk wv this 11(5)]
  show ?case using fields_head [OF ws] c w 11(2) [OF wk wv ws _ 11(5), of "acc' @ [f]" r] by auto
qed (auto simp: parse_scalar parse_scalar(1) [simplified])

subsection \<open>What the parser accepts\<close>

lemma stringLoop_valid: "stringLoop t s = Some (u, r) \<Longrightarrow> isValidUtf8 u"
  by (induction t s rule: stringLoop.induct) (auto simp: Option.bind_eq_Some_conv split: if_splits)

lemma parseString_valid: "parseString s = Some (u, r) \<Longrightarrow> isValidUtf8 u"
  by (auto simp: parseString_def case_list_Some split: if_splits dest: stringLoop_valid)

lemma parseNumber_representable: "parseNumber D s = Some (v, r) \<Longrightarrow> representable D n v"
  by (auto simp: parseNumber_def parseDouble_def Option.bind_eq_Some_conv Let_def
      split: option.splits if_splits)

lemma parse_representable:
  shows "parseValue D m d s = Some (v, r) \<Longrightarrow> d \<le> m \<Longrightarrow> representable D (m - d) v"
    and "parseArray D m d s = Some (v, r) \<Longrightarrow> d \<le> m \<Longrightarrow> representable D (m - d) v"
    and "arrayLoop D m d acc s = Some (v, r) \<Longrightarrow> d < m \<Longrightarrow>
      list_all (representable D (m - d - 1)) acc \<Longrightarrow> representable D (m - d) v"
    and "parseObject D m d s = Some (v, r) \<Longrightarrow> d \<le> m \<Longrightarrow> representable D (m - d) v"
    and "objectLoop D m d acc' s = Some (v, r) \<Longrightarrow> d < m \<Longrightarrow>
      list_all (\<lambda>f. isValidUtf8 (fst f) \<and> representable D (m - d - 1) (snd f)) acc' \<Longrightarrow> representable D (m - d) v"
proof (induction D m d s and D m d s and D m d acc s and D m d s and D m d acc' s
    arbitrary: v r and v r and v r and v r and v r
    rule: parseValue_parseArray_arrayLoop_parseObject_objectLoop.induct)
  case (1 D maxDepth depth s)
  then show ?case
    by (auto simp: parseValue.simps Option.bind_eq_Some_conv case_list_Some split: if_splits
        dest: parseString_valid parseNumber_representable)
next
  case (2 D maxDepth depth s)
  then obtain c s1 where "s = c # s1" "depth < maxDepth"
    by (auto simp: parseArray.simps case_list_Some split: if_splits)
  with 2 show ?case by (cases "skipWhitespace s1") (auto simp: parseArray.simps split: if_splits)
next
  case (3 D maxDepth depth acc s)
  then show ?case
    by (auto simp: arrayLoop.simps [of D maxDepth depth acc s] Option.bind_eq_Some_conv case_list_Some split: if_splits)
next
  case (4 D maxDepth depth s)
  then obtain c s1 where "s = c # s1" "depth < maxDepth"
    by (auto simp: parseObject.simps case_list_Some split: if_splits)
  with 4 show ?case by (cases "skipWhitespace s1") (auto simp: parseObject.simps split: if_splits)
next
  case (5 D maxDepth depth acc s)
  then show ?case
    by (auto simp: objectLoop.simps [of D maxDepth depth acc s] Option.bind_eq_Some_conv case_list_Some split: if_splits
        dest: parseString_valid)
qed

subsection \<open>A concrete number type\<close>

text \<open>Integral numbers as an instance of \<open>double_ops\<close>: \<open>from_chars\<close> reads a numeral and a zero
  fraction behind it.\<close>

definition integral_doubles :: "i64 double_ops" where
  "integral_doubles =
     \<lparr>d_isfinite = (\<lambda>_. True),
      d_to_chars = (\<lambda>w. Some (to_chars_int w)),
      d_from_chars = (\<lambda>t. case from_chars_int t of
         None \<Rightarrow> None
       | Some (w, n) \<Rightarrow> Some (w, if drop n t = [0x2E, 0x30] then n + 2 else n))\<rparr>"

lemma from_chars_int_suffix:
  assumes "decimal_literal t False"
  shows "from_chars_int (t @ [0x2E, 0x30]) = from_chars_int t"
    and "from_chars_int t = Some (w, n) \<Longrightarrow> n = length t"
proof -
  from assms obtain sg ip where t: "t = sg @ ip" "sg \<in> {[], [0x2D]}" "int_part ip"
    unfolding decimal_literal_def by auto
  then obtain c cs where ip: "ip = c # cs" "isDigit c" "list_all isDigit ip"
    using int_part_digits [OF t(3)] by (cases ip) auto
  then have c: "c \<noteq> 0x2D" by auto
  have tw: "takeWhile isDigit (cs @ [0x2E, 0x30]) = cs" "takeWhile isDigit cs = cs"
    using ip(1,3) by (simp_all add: takeWhile_isDigit takeWhile_append2 list_all_iff)
  show "from_chars_int (t @ [0x2E, 0x30]) = from_chars_int t"
    and "from_chars_int t = Some (w, n) \<Longrightarrow> n = length t"
    using t(1,2) ip(1,2) c by (auto simp: from_chars_int_def Let_def tw split: if_splits)
qed

lemma integral_doubles_io: "double_io integral_doubles"
  unfolding double_io_def
proof (intro conjI)
  show "to_chars_decimal integral_doubles"
    using to_chars_int_literal by (auto simp: to_chars_decimal_def integral_doubles_def)
  show "from_chars_recovers integral_doubles"
    by (auto simp: from_chars_recovers_def integral_doubles_def from_chars_to_chars_int)
  show "from_chars_zero_fraction integral_doubles"
    by (auto simp: from_chars_zero_fraction_def integral_doubles_def from_chars_int_suffix(1)
        dest: from_chars_int_suffix(2) split: option.splits)
qed

subsection \<open>Properties\<close>

lemma skip_around:
  "list_all isWhitespace p \<Longrightarrow> skipWhitespace (p @ s) = skipWhitespace s"
  "list_all isWhitespace p \<Longrightarrow> skipWhitespace p = []"
  by (induction p) (simp_all add: skipWhitespace_def)

lemma number_end_space: "list_all isWhitespace p \<Longrightarrow> number_end p"
  by (cases p) (auto simp: number_end_def isWhitespace_def isDigit_def)

text \<open>C3: what the JSON writer writes, the JSON parser with the same depth limit reads back as the
  same value, with any white space around it. It holds for every value, nested to any depth the
  limit allows, with any UTF-8 in its strings and keys, and for numbers of both kinds; of the
  floating-point conversions it needs only what the C++ standard promises of them.\<close>

theorem json_roundtrip:
  assumes "double_io D" and "json_write D maxDepth v = Some w"
    and "list_all isWhitespace before" and "list_all isWhitespace after"
  shows "json_parse D maxDepth (before @ w @ after) = Some v"
proof -
  obtain c w' where "w = c # w'" "value_start c"
    using written_start [OF assms(1)] assms(2) unfolding json_write_def by blast
  then have "skipWhitespace (before @ w @ after) = w @ after"
    using assms(3) by (simp add: skip_around skip_start)
  moreover have "parseValue D maxDepth 0 (w @ after) = Some (v, after)"
    using assms(1,2,4) by (intro parse_written(1)) (simp_all add: json_write_def number_end_space)
  ultimately show ?thesis using assms(4) by (simp add: json_parse_def skip_around)
qed

theorem json_roundtrip_witness:
  "json_write integral_doubles 64 (kArray [kInteger 7, kNumber 5, kNull, kArray [kBool True]])
     = Some (ascii ''[7,5.0,null,[true]]'')
   \<and> json_parse integral_doubles 64 ([0x20, 0x0A] @ ascii ''[7,5.0,null,[true]]'' @ [0x09])
     = Some (kArray [kInteger 7, kNumber 5, kNull, kArray [kBool True]])"
proof -
  have w: "json_write integral_doubles 64 (kArray [kInteger 7, kNumber 5, kNull, kArray [kBool True]])
     = Some (ascii ''[7,5.0,null,[true]]'')"
    by code_simp
  show ?thesis using w json_roundtrip [OF integral_doubles_io w, of "[0x20, 0x0A]" "[0x09]"]
    by (simp add: isWhitespace_def)
qed

text \<open>The writer fails for exactly the values JSON cannot carry: a string or key that is not
  UTF-8, a number that is not finite, or containers nested deeper than the limit. Everything
  else is written.\<close>

theorem json_write_iff:
  assumes "to_chars_decimal D"
  shows "json_write D maxDepth v \<noteq> None \<longleftrightarrow> representable D maxDepth v"
  using write_defined(1) [OF assms, of 0 maxDepth v] by (simp add: json_write_def)

theorem json_write_iff_witness:
  "json_write integral_doubles 1 (kArray [kArray []]) = None
   \<and> json_write integral_doubles 2 (kArray [kArray []]) \<noteq> None"
  using json_write_iff [of integral_doubles 1 "kArray [kArray []]"]
    json_write_iff [of integral_doubles 2 "kArray [kArray []]"] integral_doubles_io
  by (simp add: double_io_def)

text \<open>C31: whatever bytes arrive, a value the parser returns is within its promises: every string and
  key is UTF-8 (also after escapes and surrogate pairs), every number is finite, and containers
  nest no deeper than the limit. Nothing is assumed of the floating-point conversion.\<close>

theorem json_parse_representable:
  assumes "json_parse D maxDepth s = Some v"
  shows "representable D maxDepth v"
  using assms parse_representable(1) [of D maxDepth 0]
  by (auto simp: json_parse_def Option.bind_eq_Some_conv split: if_splits)

theorem json_parse_representable_witness:
  "representable integral_doubles 2 (kArray [kArray []])"
proof -
  have "json_parse integral_doubles 2 (ascii ''[[]]'') = Some (kArray [kArray []])" by code_simp
  then show ?thesis by (rule json_parse_representable)
qed

text \<open>An accepted text can be normalised: the parsed value can be written, and the text written
  is accepted again with the same value.\<close>

theorem json_reparse:
  assumes "double_io D" and "json_parse D maxDepth s = Some v"
  shows "\<exists>w. json_write D maxDepth v = Some w \<and> json_parse D maxDepth w = Some v"
proof -
  have "representable D maxDepth v"
    using assms(2) parse_representable(1) [of D maxDepth 0]
    by (auto simp: json_parse_def Option.bind_eq_Some_conv split: if_splits)
  then obtain w where w: "writeValue D v 0 maxDepth = Some w"
    using write_defined(1) [of D 0 maxDepth v] assms(1) by (auto simp: double_io_def)
  obtain c w' where "w = c # w'" "value_start c" using written_start [OF assms(1) w] by blast
  moreover have "parseValue D maxDepth 0 w = Some (v, [])"
    using parse_written(1) [OF assms(1) w, of "[]"] by simp
  ultimately show ?thesis using w
    by (auto simp: json_write_def json_parse_def skip_start skip_around)
qed

theorem json_reparse_witness:
  "\<exists>w. json_write integral_doubles 9 (kArray [kInteger 1]) = Some w
     \<and> json_parse integral_doubles 9 w = Some (kArray [kInteger 1])"
proof -
  have "json_parse integral_doubles 9 (ascii ''[ 1 ]'') = Some (kArray [kInteger 1])" by code_simp
  then show ?thesis by (rule json_reparse [OF integral_doubles_io])
qed

end
