(* ===== verification/Protocol.thy ===== *)
theory Protocol
  imports Prelude
begin

unbundle bit_operations_syntax

section \<open>The frame header\<close>

text \<open>
  \<open>rpc/include/rpc/protocol.h\<close> and \<open>rpc/src/protocol.cpp\<close>: the 16-byte header of an RPC
  frame, written and read byte by byte in little-endian order.

  \<open>MessageType\<close> and \<open>StatusCode\<close> are C++ enumerations with underlying type
  \<open>uint8_t\<close>. The decoder casts any byte into them, so a decoded header can carry a
  value that no enumerator names; both are therefore bytes here, and the enumerators are
  constants. The null-pointer guards of the C++ functions have no counterpart: the sources
  only pass addresses of objects.
\<close>

subsection \<open>Constants\<close>

type_synonym MessageType = byte
type_synonym StatusCode = byte

definition kRequest :: MessageType where "kRequest = 1"
definition kResponse :: MessageType where "kResponse = 2"

definition kOk :: StatusCode where "kOk = 0x00"
definition kUnsupportedVersion :: StatusCode where "kUnsupportedVersion = 0x01"
definition kUnsupportedMsgType :: StatusCode where "kUnsupportedMsgType = 0x02"
definition kUnsupportedFlag :: StatusCode where "kUnsupportedFlag = 0x03"
definition kBadRequestId :: StatusCode where "kBadRequestId = 0x04"
definition kBodyTooLarge :: StatusCode where "kBodyTooLarge = 0x05"
definition kMalformedBody :: StatusCode where "kMalformedBody = 0x06"
definition kUnknownService :: StatusCode where "kUnknownService = 0x07"
definition kUnknownMethod :: StatusCode where "kUnknownMethod = 0x08"
definition kInternalError :: StatusCode where "kInternalError = 0x09"
definition kTimeout :: StatusCode where "kTimeout = 0x0A"
definition kConnectionClosed :: StatusCode where "kConnectionClosed = 0x0B"
definition kBadRequest :: StatusCode where "kBadRequest = 0x0C"
definition kUnsupportedSerializer :: StatusCode where "kUnsupportedSerializer = 0x0D"

lemmas status_defs =
  kOk_def kUnsupportedVersion_def kUnsupportedMsgType_def kUnsupportedFlag_def kBadRequestId_def
  kBodyTooLarge_def kMalformedBody_def kUnknownService_def kUnknownMethod_def kInternalError_def
  kTimeout_def kConnectionClosed_def kBadRequest_def kUnsupportedSerializer_def

definition statusToString :: "StatusCode \<Rightarrow> string" where
  "statusToString status =
     (if status = kOk then ''OK''
      else if status = kUnsupportedVersion then ''UNSUPPORTED_VERSION''
      else if status = kUnsupportedMsgType then ''UNSUPPORTED_MSG_TYPE''
      else if status = kUnsupportedFlag then ''UNSUPPORTED_FLAG''
      else if status = kBadRequestId then ''BAD_REQUEST_ID''
      else if status = kBodyTooLarge then ''BODY_TOO_LARGE''
      else if status = kMalformedBody then ''MALFORMED_BODY''
      else if status = kUnknownService then ''UNKNOWN_SERVICE''
      else if status = kUnknownMethod then ''UNKNOWN_METHOD''
      else if status = kInternalError then ''INTERNAL_ERROR''
      else if status = kTimeout then ''TIMEOUT''
      else if status = kConnectionClosed then ''CONNECTION_CLOSED''
      else if status = kBadRequest then ''BAD_REQUEST''
      else ''UNKNOWN_STATUS'')"

text \<open>The enumerators the switch has a case for.\<close>

definition namedStatuses :: "StatusCode list" where
  "namedStatuses = [kOk, kUnsupportedVersion, kUnsupportedMsgType, kUnsupportedFlag, kBadRequestId,
    kBodyTooLarge, kMalformedBody, kUnknownService, kUnknownMethod, kInternalError, kTimeout,
    kConnectionClosed, kBadRequest]"

definition kMagic :: u16 where "kMagic = 0x4E52"
definition kVersion :: byte where "kVersion = 0x01"
definition kHeaderSize :: nat where "kHeaderSize = 16"
definition kSerializerRaw :: byte where "kSerializerRaw = 0x00"
definition kSerializerJson :: byte where "kSerializerJson = 0x01"
definition kMaxBodyLen :: nat where "kMaxBodyLen = 16 * 1024 * 1024"

subsection \<open>The header and its encoding\<close>

record MessageHeader =
  mh_magic :: u16
  mh_version :: byte
  mh_type :: MessageType
  mh_flags :: byte
  mh_status :: StatusCode
  mh_serializerId :: byte
  mh_requestId :: u32
  mh_bodyLen :: u32

definition putU16 :: "u16 \<Rightarrow> bytes" where
  "putU16 v = [ucast (v AND 0xFF), ucast (drop_bit 8 v AND 0xFF)]"

definition putU32 :: "u32 \<Rightarrow> bytes" where
  "putU32 v = [ucast (v AND 0xFF), ucast (drop_bit 8 v AND 0xFF),
               ucast (drop_bit 16 v AND 0xFF), ucast (drop_bit 24 v AND 0xFF)]"

definition getU16 :: "bytes \<Rightarrow> u16" where
  "getU16 xs = ucast (xs ! 0) OR push_bit 8 (ucast (xs ! 1))"

definition getU32 :: "bytes \<Rightarrow> u32" where
  "getU32 xs = ucast (xs ! 0) OR push_bit 8 (ucast (xs ! 1))
     OR push_bit 16 (ucast (xs ! 2)) OR push_bit 24 (ucast (xs ! 3))"

definition encodeHeader :: "MessageHeader \<Rightarrow> bytes" where
  "encodeHeader h =
     putU16 (mh_magic h)
     @ [mh_version h, mh_type h, mh_flags h, mh_status h, mh_serializerId h, 0]
     @ putU32 (mh_requestId h) @ putU32 (mh_bodyLen h)"

text \<open>\<open>None\<close> is the returned \<open>false\<close>, which leaves \<open>*out\<close> untouched.\<close>

definition decodeHeader :: "bytes \<Rightarrow> MessageHeader option" where
  "decodeHeader xs =
     (if length xs < kHeaderSize then None
      else let magic = getU16 xs in
        if magic \<noteq> kMagic then None
        else Some \<lparr>mh_magic = magic, mh_version = xs ! 2, mh_type = xs ! 3, mh_flags = xs ! 4,
                   mh_status = xs ! 5, mh_serializerId = xs ! 6,
                   mh_requestId = getU32 (drop 8 xs), mh_bodyLen = getU32 (drop 12 xs)\<rparr>)"

subsection \<open>Integers on the wire\<close>

lemma length_put [simp]: "length (putU16 v) = 2" "length (putU32 w) = 4"
  by (simp_all add: putU16_def putU32_def)

lemma getU16_append: "2 \<le> length xs \<Longrightarrow> getU16 (xs @ ys) = getU16 xs"
  by (cases xs) (auto simp: getU16_def nth_append)

lemma getU32_append: "4 \<le> length xs \<Longrightarrow> getU32 (xs @ ys) = getU32 xs"
  by (cases xs) (auto simp: getU32_def nth_append)

lemma getU16_putU16 [simp]: "getU16 (putU16 v) = v"
  by (rule bit_word_eqI) (auto simp: getU16_def putU16_def and_0xFF bit_simps)

lemma getU32_putU32 [simp]: "getU32 (putU32 v) = v"
proof (rule bit_word_eqI)
  fix n
  assume "n < LENGTH(32)"
  then consider "n < 8" | "8 \<le> n" "n < 16" | "16 \<le> n" "n < 24" | "24 \<le> n" "n < 32"
    by fastforce
  then show "bit (getU32 (putU32 v)) n = bit v n"
    by cases (auto simp: getU32_def putU32_def and_0xFF bit_simps)
qed

lemma putU16_getU16: "putU16 (getU16 [a, b]) = [a, b]"
  by (auto simp: getU16_def putU16_def and_0xFF bit_simps bit_byte_high
      intro!: bit_word_eqI)

lemma putU32_getU32: "putU32 (getU32 [a, b, c, d]) = [a, b, c, d]"
  by (auto simp: getU32_def putU32_def and_0xFF bit_simps bit_byte_high
      intro!: bit_word_eqI)

lemma unat_getU16_less: "unat (getU16 xs) < 65536"
  using unsigned_less [where 'a = nat, of "getU16 xs"] by simp

subsection \<open>Encoding and decoding are inverse\<close>

lemma length_encodeHeader [simp]: "length (encodeHeader h) = kHeaderSize"
  by (simp add: encodeHeader_def kHeaderSize_def)

text \<open>A buffer that is long enough, byte by byte; the first sixteen decide.\<close>

lemma header_bytes:
  assumes "kHeaderSize \<le> length xs"
  obtains x0 x1 x2 x3 x4 x5 x6 x7 x8 x9 x10 x11 x12 x13 x14 x15 r where
    "xs = x0 # x1 # x2 # x3 # x4 # x5 # x6 # x7 # x8 # x9 # x10 # x11 # x12 # x13 # x14 # x15 # r"
  using assms by (auto simp: kHeaderSize_def numeral_eq_Suc Suc_le_length_iff)

lemma getU16_Cons: "getU16 (a # b # r) = getU16 [a, b]"
  by (simp add: getU16_def)

lemma getU32_Cons: "getU32 (a # b # c # d # r) = getU32 [a, b, c, d]"
  by (simp add: getU32_def)

lemma decodeHeader_Cons:
  "decodeHeader (x0 # x1 # x2 # x3 # x4 # x5 # x6 # x7 # x8 # x9 # x10 # x11 # x12 # x13 # x14 # x15 # r) =
     (if getU16 [x0, x1] \<noteq> kMagic then None
      else Some \<lparr>mh_magic = getU16 [x0, x1], mh_version = x2, mh_type = x3, mh_flags = x4,
                 mh_status = x5, mh_serializerId = x6, mh_requestId = getU32 [x8, x9, x10, x11],
                 mh_bodyLen = getU32 [x12, x13, x14, x15]\<rparr>)"
  by (simp add: decodeHeader_def kHeaderSize_def getU16_Cons [of x0 x1 "_ # _"]
      getU32_Cons [of x8 x9 x10 x11 "_ # _"] getU32_Cons [of x12 x13 x14 x15 r])

lemma decodeHeader_short: "length xs < kHeaderSize \<Longrightarrow> decodeHeader xs = None"
  by (simp add: decodeHeader_def)

lemma decodeHeader_append:
  "kHeaderSize \<le> length xs \<Longrightarrow> decodeHeader (xs @ ys) = decodeHeader xs"
  by (erule header_bytes) (simp add: decodeHeader_Cons)

lemma decodeHeader_Some_append: "decodeHeader xs = Some h \<Longrightarrow> decodeHeader (xs @ ys) = Some h"
  using decodeHeader_short [of xs] by (cases "kHeaderSize \<le> length xs") (simp_all add: decodeHeader_append)

lemma decodeHeader_encodeHeader:
  assumes "mh_magic h = kMagic"
  shows "decodeHeader (encodeHeader h) = Some h"
proof -
  obtain a b where m: "putU16 (mh_magic h) = [a, b]" by (simp add: putU16_def)
  obtain c d e f where i: "putU32 (mh_requestId h) = [c, d, e, f]" by (simp add: putU32_def)
  obtain p q r s where l: "putU32 (mh_bodyLen h) = [p, q, r, s]" by (simp add: putU32_def)
  have "getU16 [a, b] = mh_magic h" "getU32 [c, d, e, f] = mh_requestId h"
    "getU32 [p, q, r, s] = mh_bodyLen h"
    using m i l by (metis getU16_putU16 getU32_putU32)+
  with assms m i l show ?thesis
    by (cases h) (simp add: encodeHeader_def decodeHeader_Cons)
qed

lemma encodeHeader_decodeHeader:
  assumes "decodeHeader xs = Some h"
  shows "encodeHeader h = (take kHeaderSize xs)[7 := 0]"
proof -
  have "kHeaderSize \<le> length xs" using assms decodeHeader_short by (metis not_le option.distinct(1))
  then show ?thesis
  proof (rule header_bytes)
    fix x0 x1 x2 x3 x4 x5 x6 x7 x8 x9 x10 x11 x12 x13 x14 x15 r
    assume "xs = x0 # x1 # x2 # x3 # x4 # x5 # x6 # x7 # x8 # x9 # x10 # x11 # x12 # x13 # x14 # x15 # r"
    with assms putU16_getU16 [of x0 x1] show ?thesis
      by (auto simp: decodeHeader_Cons encodeHeader_def putU32_getU32 kHeaderSize_def
          numeral_eq_Suc split: if_splits)
  qed
qed

subsection \<open>Properties\<close>

text \<open>A header survives the wire. Whatever follows it in the buffer, decoding the sixteen
  encoded bytes gives back every field of the header, provided it carries the magic number;
  with any other magic number the decoder refuses.\<close>

theorem header_roundtrip:
  "decodeHeader (encodeHeader h @ rest) = (if mh_magic h = kMagic then Some h else None)"
proof (cases "mh_magic h = kMagic")
  case True
  then show ?thesis
    by (simp add: decodeHeader_append decodeHeader_encodeHeader)
next
  case False
  have "getU16 (encodeHeader h @ rest) = mh_magic h"
    by (simp add: encodeHeader_def getU16_append)
  with False show ?thesis
    by (simp add: decodeHeader_def)
qed

text \<open>The decoder accepts nothing but images of the encoder. A decoded header has the
  right magic number, and encoding it again gives the bytes it was read from, except that the
  reserved byte, whose value receivers must ignore, is zero.\<close>

theorem header_canonical:
  assumes "decodeHeader xs = Some h"
  shows "mh_magic h = kMagic \<and> kHeaderSize \<le> length xs
    \<and> encodeHeader h = (take kHeaderSize xs)[7 := 0]"
  using assms encodeHeader_decodeHeader [OF assms]
  by (auto simp: decodeHeader_def Let_def not_less split: if_splits)

theorem header_canonical_witness:
  "\<exists>h. decodeHeader [0x52, 0x4E, 1, 1, 0, 0, 0, 9, 5, 0, 0, 0, 3, 0, 0, 0, 42] = Some h
     \<and> mh_magic h = kMagic \<and> mh_requestId h = 5 \<and> mh_bodyLen h = 3
     \<and> encodeHeader h = [0x52, 0x4E, 1, 1, 0, 0, 0, 0, 5, 0, 0, 0, 3, 0, 0, 0]"
proof -
  obtain h where h: "decodeHeader [0x52, 0x4E, 1, 1, 0, 0, 0, 9, 5, 0, 0, 0, 3, 0, 0, 0, 42] = Some h"
    and "mh_requestId h = 5" "mh_bodyLen h = 3"
    by (simp add: decodeHeader_Cons getU16_def getU32_def kMagic_def)
  with header_canonical [OF h] show ?thesis
    by (simp add: kHeaderSize_def)
qed

text \<open>The diagnostic name of a status. Every code up to \<open>kBadRequest\<close> has a name of its
  own; every other one, \<open>kUnsupportedSerializer\<close> among them although it is an enumerator, is
  printed as \<open>UNKNOWN_STATUS\<close>.\<close>

theorem statusToString_names:
  "distinct (map statusToString namedStatuses)
   \<and> (statusToString s = ''UNKNOWN_STATUS'' \<longleftrightarrow> s \<notin> set namedStatuses)
   \<and> kUnsupportedSerializer \<notin> set namedStatuses"
  by (simp add: namedStatuses_def statusToString_def status_defs)

end
