(* ===== verification/Serializer.thy ===== *)
theory Serializer
  imports Json_Roundtrip Protocol
begin

section \<open>Payload serializers\<close>

text \<open>
  \<open>rpc/include/rpc/serializer.h\<close>, \<open>rpc/src/raw_serializer.cpp\<close> and
  \<open>rpc/src/json_serializer.cpp\<close>. The abstract class \<open>Serializer\<close> is the locale \<open>serializer\<close>:
  its identifier, its two conversions and the contract the header comment gives them. The raw
  and the JSON serializer are its two instances.
\<close>

subsection \<open>The contract\<close>

text \<open>\<open>conforming\<close> is what the format needs of its environment (for JSON, the floating-point
  conversions of the standard library).\<close>

locale serializer =
  fixes conforming :: bool
    and ident :: byte
    and ser_name :: string
    and encode :: "'v \<Rightarrow> bytes option"
    and decode :: "bytes \<Rightarrow> 'v option"
  assumes decode_encode: "conforming \<Longrightarrow> encode v = Some w \<Longrightarrow> decode w = Some v"
    and encode_decode: "conforming \<Longrightarrow> decode w = Some v \<Longrightarrow> length w \<le> kMaxBodyLen"
    and encode_bounded: "encode v = Some w \<Longrightarrow> length w \<le> kMaxBodyLen"
begin

lemma encode_inj: "conforming \<Longrightarrow> encode v = Some w \<Longrightarrow> encode v' = Some w \<Longrightarrow> v = v'"
  using decode_encode by (metis option.inject)

text \<open>A payload can be relayed: decoding what was encoded and encoding it again is lossless.\<close>

lemma relay: "conforming \<Longrightarrow> encode v = Some w \<Longrightarrow> Option.bind (decode w) encode = Some w"
  using decode_encode by simp

end

subsection \<open>Raw\<close>

definition raw_id :: byte where "raw_id = kSerializerRaw"

definition raw_name :: string where "raw_name = ''raw''"

definition raw_encode :: "'d JsonValue \<Rightarrow> bytes option" where
  "raw_encode v =
     (case asString v of
        None \<Rightarrow> None
      | Some s \<Rightarrow> if length s > kMaxBodyLen then None else Some s)"

definition raw_decode :: "bytes \<Rightarrow> 'd JsonValue option" where
  "raw_decode s = (if length s > kMaxBodyLen then None else Some (kString s))"

lemma asString_Some: "asString v = Some s \<longleftrightarrow> v = kString s"
  by (cases v) auto

interpretation rawser: serializer True raw_id raw_name raw_encode raw_decode
  by unfold_locales (auto simp: raw_encode_def raw_decode_def asString_Some split: option.splits if_splits)

subsection \<open>JSON\<close>

definition json_id :: byte where "json_id = kSerializerJson"

definition json_name :: string where "json_name = ''json''"

definition json_encode :: "'d double_ops \<Rightarrow> nat \<Rightarrow> 'd JsonValue \<Rightarrow> bytes option" where
  "json_encode D maxDepth v =
     (case json_write D maxDepth v of
        None \<Rightarrow> None
      | Some encoded \<Rightarrow> if length encoded > kMaxBodyLen then None else Some encoded)"

definition json_decode :: "'d double_ops \<Rightarrow> nat \<Rightarrow> bytes \<Rightarrow> 'd JsonValue option" where
  "json_decode D maxDepth s = (if length s > kMaxBodyLen then None else json_parse D maxDepth s)"

lemma json_decode_encode:
  assumes "double_io D" and "json_encode D m v = Some w"
  shows "json_decode D m w = Some v"
proof -
  from assms(2) have w: "writeValue D v 0 m = Some w" and "\<not> length w > kMaxBodyLen"
    by (auto simp: json_encode_def json_write_def split: option.splits if_splits)
  moreover from written_start [OF assms(1) w] obtain c w' where "w = c # w'" "value_start c" by blast
  moreover have "parseValue D m 0 w = Some (v, [])"
    using parse_written(1) [OF assms(1) w, of "[]"] by simp
  ultimately show ?thesis
    by (simp add: json_decode_def json_parse_def skip_start skip_around)
qed

interpretation jsonser: serializer "double_io D" json_id json_name "json_encode D m" "json_decode D m" for D m
proof unfold_locales
  show "json_decode D m w = Some v" if "double_io D" "json_encode D m v = Some w" for v w
    using that by (rule json_decode_encode)
qed (auto simp: json_encode_def json_decode_def split: option.splits if_splits)

subsection \<open>Property\<close>

text \<open>A JSON payload is canonical on the wire: two values the JSON serializer encodes to the same
  bytes are the same value, the bytes stay within the protocol's body ceiling, and an
  intermediary that decodes a payload and encodes it again reproduces it byte for byte.\<close>

theorem json_payload_canonical:
  assumes "double_io D" and "json_encode D maxDepth v = Some w"
  shows "length w \<le> kMaxBodyLen
    \<and> (json_encode D maxDepth v' = Some w \<longleftrightarrow> v' = v)
    \<and> Option.bind (json_decode D maxDepth w) (json_encode D maxDepth) = Some w"
proof (intro conjI iffI)
  show "length w \<le> kMaxBodyLen" using assms(2) by (rule jsonser.encode_bounded)
  show "Option.bind (json_decode D maxDepth w) (json_encode D maxDepth) = Some w"
    using assms by (rule jsonser.relay)
  show "v' = v" if "json_encode D maxDepth v' = Some w"
    using assms(1) that assms(2) by (rule jsonser.encode_inj)
qed (simp add: assms(2))

theorem json_payload_canonical_witness:
  "Option.bind (json_decode integral_doubles 8 (ascii ''[1.0,2]'')) (json_encode integral_doubles 8)
     = Some (ascii ''[1.0,2]'')"
proof -
  have "json_write integral_doubles 8 (kArray [kNumber 1, kInteger 2]) = Some (ascii ''[1.0,2]'')"
    by code_simp
  then have "json_encode integral_doubles 8 (kArray [kNumber 1, kInteger 2]) = Some (ascii ''[1.0,2]'')"
    by (simp add: json_encode_def kMaxBodyLen_def)
  from json_payload_canonical [OF integral_doubles_io this] show ?thesis by blast
qed

end
