(* ===== verification/Frame_Reader.thy ===== *)
theory Frame_Reader
  imports Buffer Protocol
begin

section \<open>Splitting the stream into frames\<close>

text \<open>
  \<open>rpc/include/rpc/frame_reader.h\<close> and \<open>rpc/src/frame_reader.cpp\<close>. \<open>parse\<close> looks at a
  connection's input buffer and consumes one frame, or nothing. \<open>parse_bytes\<close> is the same
  decision on the byte stream alone; the refinement lemma \<open>parse_refines\<close> reduces every
  statement about buffers to it. \<open>drain\<close> is the loop both message handlers run, and
  \<open>feed\<close> the life of a connection: chunks arrive in whatever sizes the network makes
  of them, and every chunk is followed by a drain.
\<close>

subsection \<open>State and operations\<close>

record FrameReader =
  fr_maxFrameSize :: nat

definition kDefaultMaxFrameSize :: nat where
  "kDefaultMaxFrameSize = 4 * 1024 * 1024"

definition setMaxFrameSize :: "nat \<Rightarrow> FrameReader \<Rightarrow> FrameReader" where
  "setMaxFrameSize n fr = fr\<lparr>fr_maxFrameSize := max n kHeaderSize\<rparr>"

definition newFrameReader :: "nat \<Rightarrow> FrameReader" where
  "newFrameReader n = setMaxFrameSize n \<lparr>fr_maxFrameSize = 0\<rparr>"

text \<open>\<open>kOk\<close> with the header and the body it stores, or one of the two refusals.\<close>

datatype ParseResult = ParseOk MessageHeader bytes | NeedMore | ProtocolError

definition parse :: "FrameReader \<Rightarrow> buffer \<Rightarrow> ParseResult \<times> buffer" where
  "parse fr buf =
     (let readable = readableBytes buf in
      if readable < kHeaderSize then (NeedMore, buf)
      else case decodeHeader (take readable (peek buf)) of
        None \<Rightarrow> (ProtocolError, buf)
      | Some candidate \<Rightarrow>
          (let maxBodyForFrame = fr_maxFrameSize fr - kHeaderSize;
               maxBody = min maxBodyForFrame kMaxBodyLen;
               bodyLen = unat (mh_bodyLen candidate)
           in if maxBody < bodyLen then (ProtocolError, buf)
              else let frameSize = kHeaderSize + bodyLen in
                if readable < frameSize then (NeedMore, buf)
                else (ParseOk candidate (take bodyLen (drop kHeaderSize (peek buf))),
                      retrieve frameSize buf)))"

subsection \<open>The same on the byte stream\<close>

definition maxBodyOf :: "FrameReader \<Rightarrow> nat" where
  "maxBodyOf fr = min (fr_maxFrameSize fr - kHeaderSize) kMaxBodyLen"

definition parse_bytes :: "FrameReader \<Rightarrow> bytes \<Rightarrow> ParseResult \<times> bytes" where
  "parse_bytes fr xs =
     (if length xs < kHeaderSize then (NeedMore, xs)
      else case decodeHeader xs of
        None \<Rightarrow> (ProtocolError, xs)
      | Some h \<Rightarrow>
          if maxBodyOf fr < unat (mh_bodyLen h) then (ProtocolError, xs)
          else if length xs < kHeaderSize + unat (mh_bodyLen h) then (NeedMore, xs)
          else (ParseOk h (take (unat (mh_bodyLen h)) (drop kHeaderSize xs)),
                drop (kHeaderSize + unat (mh_bodyLen h)) xs))"

lemma parse_refines:
  assumes "buffer_inv b"
  shows "fst (parse fr b) = fst (parse_bytes fr (contents b))"
    and "contents (snd (parse fr b)) = snd (parse_bytes fr (contents b))"
    and "buffer_inv (snd (parse fr b))"
proof -
  have body: "take n (drop kHeaderSize (peek b)) = take n (drop kHeaderSize (contents b))"
    if "kHeaderSize + n \<le> readableBytes b" for n
    using that by (simp add: contents_def take_drop)
  have dec: "decodeHeader (take (readableBytes b) (peek b)) = decodeHeader (contents b)"
    by (simp add: contents_def)
  show "fst (parse fr b) = fst (parse_bytes fr (contents b))"
    and "contents (snd (parse fr b)) = snd (parse_bytes fr (contents b))"
    and "buffer_inv (snd (parse fr b))"
    using assms body
    by (auto simp: parse_def parse_bytes_def maxBodyOf_def Let_def dec buffer_simps not_less
        split: option.splits)
qed

text \<open>Every decision is final: more bytes do not change it.\<close>

lemma parse_bytes_Ok_append:
  assumes "parse_bytes fr xs = (ParseOk h body, r)"
  shows "parse_bytes fr (xs @ ys) = (ParseOk h body, r @ ys)"
  using assms by (auto simp: parse_bytes_def decodeHeader_append split: if_splits option.splits)

lemma parse_bytes_Error_append:
  assumes "parse_bytes fr xs = (ProtocolError, r)"
  shows "r = xs \<and> parse_bytes fr (xs @ ys) = (ProtocolError, xs @ ys)"
  using assms by (auto simp: parse_bytes_def decodeHeader_append split: if_splits option.splits)

lemma parse_bytes_NeedMore: "parse_bytes fr xs = (NeedMore, r) \<Longrightarrow> r = xs"
  by (auto simp: parse_bytes_def split: if_splits option.splits)

lemma parse_bytes_Ok_shorter: "parse_bytes fr xs = (ParseOk h body, r) \<Longrightarrow> length r < length xs"
  by (auto simp: parse_bytes_def kHeaderSize_def split: if_splits option.splits)

subsection \<open>Frames\<close>

type_synonym frame = "MessageHeader \<times> bytes"

fun encodeFrame :: "frame \<Rightarrow> bytes" where
  "encodeFrame (h, body) = encodeHeader h @ body"

fun frame_ok :: "FrameReader \<Rightarrow> frame \<Rightarrow> bool" where
  "frame_ok fr (h, body) \<longleftrightarrow> mh_magic h = kMagic \<and> unat (mh_bodyLen h) = length body
     \<and> length body \<le> maxBodyOf fr"

lemma parse_bytes_encodeFrame:
  "frame_ok fr (h, body) \<Longrightarrow> parse_bytes fr (encodeFrame (h, body) @ rest) = (ParseOk h body, rest)"
  by (simp add: parse_bytes_def decodeHeader_append decodeHeader_encodeHeader)

text \<open>Consumed bytes are an encoded frame, up to the reserved byte.\<close>

lemma parse_bytes_Ok_frame:
  assumes "parse_bytes fr xs = (ParseOk h body, r)"
  shows "frame_ok fr (h, body) \<and> xs[7 := 0] = encodeFrame (h, body) @ r"
proof -
  let ?n = "unat (mh_bodyLen h)"
  have dec: "decodeHeader xs = Some h" and len: "kHeaderSize + ?n \<le> length xs"
    and n: "?n \<le> maxBodyOf fr"
    and eqs: "body = take ?n (drop kHeaderSize xs)" "r = drop (kHeaderSize + ?n) xs"
    using assms by (auto simp: parse_bytes_def split: if_splits option.splits)
  have magic: "mh_magic h = kMagic"
    using dec by (auto simp: decodeHeader_def Let_def split: if_splits)
  have "xs[7 := 0] = (take kHeaderSize xs)[7 := 0] @ drop kHeaderSize xs"
    using len by (subst append_take_drop_id [of kHeaderSize xs, symmetric], subst list_update_append)
      (simp add: kHeaderSize_def)
  also have "drop kHeaderSize xs = body @ r"
    using append_take_drop_id [of ?n "drop kHeaderSize xs"] eqs by (simp add: add.commute)
  finally show ?thesis
    using encodeHeader_decodeHeader [OF dec] magic n len eqs by simp
qed

subsection \<open>Draining a stream\<close>

function drain_bytes :: "FrameReader \<Rightarrow> bytes \<Rightarrow> frame list \<times> ParseResult \<times> bytes" where
  "drain_bytes fr xs =
     (case parse_bytes fr xs of
        (ParseOk h body, r) \<Rightarrow>
          (case drain_bytes fr r of (fs, e, r') \<Rightarrow> ((h, body) # fs, e, r'))
      | (e, r) \<Rightarrow> ([], e, r))"
  by pat_completeness auto
termination
  by (relation "measure (\<lambda>(fr, xs). length xs)") (auto dest!: sym [THEN parse_bytes_Ok_shorter])

declare drain_bytes.simps [simp del]

lemma drain_bytes_Ok:
  "parse_bytes fr xs = (ParseOk h body, r) \<Longrightarrow>
     drain_bytes fr xs = (case drain_bytes fr r of (fs, e, r') \<Rightarrow> ((h, body) # fs, e, r'))"
  by (subst drain_bytes.simps) simp

lemma drain_bytes_stop:
  "parse_bytes fr xs = (NeedMore, r) \<Longrightarrow> drain_bytes fr xs = ([], NeedMore, xs)"
  "parse_bytes fr xs = (ProtocolError, r) \<Longrightarrow> drain_bytes fr xs = ([], ProtocolError, xs)"
  using parse_bytes_NeedMore parse_bytes_Error_append
  by (subst drain_bytes.simps, fastforce)+

text \<open>The outcome is never a frame, and a drained stream stays drained.\<close>

lemma drain_bytes_outcome:
  assumes "drain_bytes fr xs = (fs, e, r)"
  shows "parse_bytes fr r = (e, r) \<and> (e = NeedMore \<or> e = ProtocolError)"
  using assms
proof (induction fr xs arbitrary: fs rule: drain_bytes.induct)
  case (1 fr xs)
  show ?case
  proof (cases "parse_bytes fr xs")
    case (Pair res r')
    show ?thesis
    proof (cases res)
      case (ParseOk h body)
      with Pair 1 show ?thesis by (auto simp: drain_bytes_Ok split: prod.splits)
    next
      case NeedMore
      with Pair 1(2) show ?thesis by (auto simp: drain_bytes_stop dest: parse_bytes_NeedMore)
    next
      case ProtocolError
      with Pair 1(2) show ?thesis by (auto simp: drain_bytes_stop dest: parse_bytes_Error_append)
    qed
  qed
qed

text \<open>The stream may be cut anywhere.\<close>

lemma drain_bytes_Nil_rest: "drain_bytes fr xs = ([], e, r) \<Longrightarrow> r = xs"
  by (cases "parse_bytes fr xs"; cases "fst (parse_bytes fr xs)")
    (auto simp: drain_bytes_Ok drain_bytes_stop split: prod.splits)

lemma drain_bytes_Cons:
  assumes "drain_bytes fr xs = ((h, body) # fs, e, r)"
  shows "\<exists>r1. parse_bytes fr xs = (ParseOk h body, r1) \<and> drain_bytes fr r1 = (fs, e, r)"
  using assms by (cases "parse_bytes fr xs"; cases "fst (parse_bytes fr xs)")
    (auto simp: drain_bytes_Ok drain_bytes_stop split: prod.splits)

lemma drain_bytes_append:
  assumes "drain_bytes fr xs = (fs, e, r)"
  shows "drain_bytes fr (xs @ ys) =
    (if e = ProtocolError then (fs, e, r @ ys)
     else case drain_bytes fr (r @ ys) of (gs, e', r') \<Rightarrow> (fs @ gs, e', r'))"
  using assms
proof (induction fr xs arbitrary: fs e r rule: drain_bytes.induct)
  case (1 fr xs)
  show ?case
  proof (cases "parse_bytes fr xs")
    case (Pair res r0)
    show ?thesis
    proof (cases res)
      case (ParseOk h body)
      with Pair have p: "parse_bytes fr xs = (ParseOk h body, r0)" by simp
      obtain fs0 where d: "drain_bytes fr r0 = (fs0, e, r)" and fs: "fs = (h, body) # fs0"
        using 1(2) by (auto simp: drain_bytes_Ok [OF p] split: prod.splits)
      show ?thesis
        using 1(1) [OF Pair [symmetric] ParseOk d] fs
        by (auto simp: drain_bytes_Ok [OF parse_bytes_Ok_append [OF p]] split: prod.splits)
    next
      case NeedMore
      with Pair 1(2) show ?thesis by (auto simp: drain_bytes_stop split: prod.splits)
    next
      case ProtocolError
      with Pair 1(2) parse_bytes_Error_append [of fr xs r0 ys] show ?thesis
        by (auto simp: drain_bytes_stop)
    qed
  qed
qed

lemma drain_bytes_frames:
  "list_all (frame_ok fr) fs \<Longrightarrow>
     drain_bytes fr (concat (map encodeFrame fs) @ rest) =
     (case drain_bytes fr rest of (gs, e, r) \<Rightarrow> (fs @ gs, e, r))"
proof (induction fs)
  case Nil
  then show ?case by (simp split: prod.splits)
next
  case (Cons f fs)
  obtain h body where f: "f = (h, body)" by (cases f)
  with Cons.prems have "parse_bytes fr (encodeFrame f @ concat (map encodeFrame fs) @ rest)
      = (ParseOk h body, concat (map encodeFrame fs) @ rest)"
    by (simp only: f, intro parse_bytes_encodeFrame) simp
  from drain_bytes_Ok [OF this] Cons f show ?case by (simp split: prod.splits)
qed

lemma drain_bytes_Nil: "drain_bytes fr [] = ([], NeedMore, [])"
  by (simp add: drain_bytes_stop parse_bytes_def kHeaderSize_def)

subsection \<open>Draining a buffer, chunk by chunk\<close>

lemma parse_Ok_shorter:
  "parse fr b = (ParseOk h body, b') \<Longrightarrow> readableBytes b' < readableBytes b"
  by (auto simp: parse_def Let_def readableBytes_def retrieve_def retrieveAll_def kHeaderSize_def
      split: if_splits option.splits)

function drain :: "FrameReader \<Rightarrow> buffer \<Rightarrow> frame list \<times> ParseResult \<times> buffer" where
  "drain fr b =
     (case parse fr b of
        (ParseOk h body, b') \<Rightarrow> (case drain fr b' of (fs, e, b'') \<Rightarrow> ((h, body) # fs, e, b''))
      | (e, b') \<Rightarrow> ([], e, b'))"
  by pat_completeness auto
termination
  by (relation "measure (\<lambda>(fr, b). readableBytes b)") (auto dest!: sym [THEN parse_Ok_shorter])

declare drain.simps [simp del]

lemma drain_refines:
  assumes "buffer_inv b" and "drain fr b = (fs, e, b')"
  shows "drain_bytes fr (contents b) = (fs, e, contents b') \<and> buffer_inv b'"
  using assms
proof (induction fr b arbitrary: fs e b' rule: drain.induct)
  case (1 fr b)
  obtain res b1 where p: "parse fr b = (res, b1)" by (cases "parse fr b")
  have q: "parse_bytes fr (contents b) = (res, contents b1)" and inv: "buffer_inv b1"
    using parse_refines [OF 1(2), of fr] p by (simp_all add: prod_eq_iff)
  show ?case
  proof (cases res)
    case (ParseOk h body)
    then obtain fs0 where d: "drain fr b1 = (fs0, e, b')" and fs: "fs = (h, body) # fs0"
      using 1(3) p by (subst (asm) drain.simps) (auto split: prod.splits)
    have "drain_bytes fr (contents b1) = (fs0, e, contents b') \<and> buffer_inv b'"
      using 1(1) [OF p [symmetric] ParseOk inv d] .
    with q ParseOk fs show ?thesis by (simp add: drain_bytes_Ok)
  next
    case NeedMore
    with 1(3) p q inv show ?thesis
      by (subst (asm) drain.simps) (auto simp: drain_bytes_stop dest: parse_bytes_NeedMore)
  next
    case ProtocolError
    with 1(3) p q inv show ?thesis
      by (subst (asm) drain.simps) (auto simp: drain_bytes_stop dest: parse_bytes_Error_append)
  qed
qed

text \<open>After a protocol error the connection is closed, and what still arrives is not parsed.\<close>

fun feed :: "FrameReader \<Rightarrow> bytes list \<Rightarrow> buffer \<Rightarrow> frame list \<times> ParseResult \<times> buffer" where
  "feed fr [] b = ([], NeedMore, b)"
| "feed fr (c # cs) b =
     (case drain fr (buf_append c b) of (fs, e, b') \<Rightarrow>
        if e = ProtocolError then (fs, e, b')
        else case feed fr cs b' of (gs, e', b'') \<Rightarrow> (fs @ gs, e', b''))"

lemma feed_refines:
  assumes "buffer_inv b" and "parse_bytes fr (contents b) = (NeedMore, contents b)"
    and "feed fr cs b = (fs, e, b')"
  shows "fst (drain_bytes fr (contents b @ concat cs)) = fs
    \<and> fst (snd (drain_bytes fr (contents b @ concat cs))) = e
    \<and> (e = NeedMore \<longrightarrow> snd (snd (drain_bytes fr (contents b @ concat cs))) = contents b')
    \<and> buffer_inv b'"
  using assms
proof (induction cs arbitrary: b fs)
  case Nil
  then show ?case by (auto simp: drain_bytes_stop)
next
  case (Cons c cs)
  obtain fs1 e1 b1 where d: "drain fr (buf_append c b) = (fs1, e1, b1)"
    by (cases "drain fr (buf_append c b)")
  have r: "drain_bytes fr (contents b @ c) = (fs1, e1, contents b1)" and inv: "buffer_inv b1"
    using drain_refines [OF _ d] Cons.prems(1) by (simp_all add: buffer_simps)
  note out = drain_bytes_outcome [OF r] and cut = drain_bytes_append [OF r, of "concat cs"]
  show ?case
  proof (cases "e1 = ProtocolError")
    case True
    with cut d inv Cons.prems(3) show ?thesis by auto
  next
    case False
    with d Cons.prems(3) obtain gs where f: "feed fr cs b1 = (gs, e, b')" and fs: "fs = fs1 @ gs"
      by (auto split: prod.splits)
    have "parse_bytes fr (contents b1) = (NeedMore, contents b1)" using out False by auto
    from Cons.IH [OF inv this f] cut False fs show ?thesis by (auto split: prod.splits)
  qed
qed

subsection \<open>Properties\<close>

text \<open>The invariant of the reader: subtracting the header size never wraps.\<close>

definition reader_inv :: "FrameReader \<Rightarrow> bool" where
  "reader_inv fr \<longleftrightarrow> kHeaderSize \<le> fr_maxFrameSize fr"

lemma reader_inv_set: "reader_inv (setMaxFrameSize n fr)" "reader_inv (newFrameReader n)"
  by (simp_all add: reader_inv_def newFrameReader_def setMaxFrameSize_def)

lemma parse_NeedMore_bound:
  assumes "reader_inv fr" and "buffer_inv b" and "fst (parse fr b) = NeedMore"
  shows "readableBytes b < fr_maxFrameSize fr \<or> readableBytes b < kHeaderSize"
    and "readableBytes b < kHeaderSize + kMaxBodyLen"
  using assms
  by (auto simp: parse_def Let_def reader_inv_def kHeaderSize_def kMaxBodyLen_def
      split: if_splits option.splits)

text \<open>C5: frames survive the network. Let a peer send any list of well-formed frames, followed
  by the beginning of another one, and let the bytes arrive cut into any chunks. Draining the
  input buffer after each chunk delivers exactly those frames, in order, and leaves exactly the
  unfinished rest in the buffer.\<close>

theorem frames_survive_chunking:
  assumes "list_all (frame_ok fr) fs"
    and "parse_bytes fr rest = (NeedMore, rest)"
    and "concat chunks = concat (map encodeFrame fs) @ rest"
  shows "\<exists>b'. feed fr chunks (newBuffer n) = (fs, NeedMore, b') \<and> buffer_inv b' \<and> contents b' = rest"
proof -
  obtain gs e b' where f: "feed fr chunks (newBuffer n) = (gs, e, b')"
    by (cases "feed fr chunks (newBuffer n)")
  have "parse_bytes fr [] = (NeedMore, [])" by (simp add: parse_bytes_def kHeaderSize_def)
  then have "parse_bytes fr (contents (newBuffer n)) = (NeedMore, contents (newBuffer n))"
    by (simp add: buffer_simps)
  note fd = feed_refines [OF newBuffer_ok(1) this f]
  have "drain_bytes fr (concat chunks) = (fs, NeedMore, rest)"
    using drain_bytes_frames [OF assms(1), of rest] assms(2,3) by (simp add: drain_bytes_stop)
  with fd f show ?thesis by (auto simp: newBuffer_ok(2))
qed

theorem frames_survive_chunking_witness:
  "\<exists>h b'. frame_ok (newFrameReader 1024) (h, [7, 8])
     \<and> feed (newFrameReader 1024) [take 5 (encodeFrame (h, [7, 8])),
         drop 5 (encodeFrame (h, [7, 8])) @ [0x52]] (newBuffer 8)
       = ([(h, [7, 8])], NeedMore, b') \<and> contents b' = [0x52]"
proof -
  let ?fr = "newFrameReader 1024"
  let ?h = "\<lparr>mh_magic = kMagic, mh_version = 1, mh_type = 1, mh_flags = 0, mh_status = 0,
    mh_serializerId = 0, mh_requestId = 1, mh_bodyLen = 2\<rparr>"
  let ?f = "(?h, [7, 8] :: bytes)"
  have ok: "list_all (frame_ok ?fr) [?f]"
    by (simp add: maxBodyOf_def newFrameReader_def setMaxFrameSize_def kHeaderSize_def kMaxBodyLen_def)
  moreover have "parse_bytes ?fr [0x52] = (NeedMore, [0x52])"
    by (simp add: parse_bytes_def kHeaderSize_def)
  moreover have "concat [take 5 (encodeFrame ?f), drop 5 (encodeFrame ?f) @ [0x52]]
      = concat (map encodeFrame [?f]) @ [0x52]"
    by (simp add: append_assoc [symmetric] del: append_assoc encodeFrame.simps)
  ultimately obtain b' where
    "feed ?fr [take 5 (encodeFrame ?f), drop 5 (encodeFrame ?f) @ [0x52]] (newBuffer 8)
       = ([?f], NeedMore, b')" and "contents b' = [0x52]"
    using frames_survive_chunking by blast
  moreover have "frame_ok ?fr ?f" using ok by simp
  ultimately show ?thesis by blast
qed

text \<open>One call of the frame reader consumes exactly one frame or nothing at all. The bytes it
  removes are the encoding of the frame it reports (up to the ignored reserved byte), and that
  frame is within the reader's size limit; on every other result the buffer is untouched.\<close>

theorem parse_consumes_one_frame:
  assumes "buffer_inv b" and "parse fr b = (res, b')"
  shows "buffer_inv b' \<and>
    (case res of
       ParseOk h body \<Rightarrow> frame_ok fr (h, body)
         \<and> (contents b)[7 := 0] = encodeFrame (h, body) @ contents b'
     | _ \<Rightarrow> b' = b)"
proof -
  have q: "parse_bytes fr (contents b) = (res, contents b')" and inv: "buffer_inv b'"
    using parse_refines [OF assms(1), of fr] assms(2) by (simp_all add: prod_eq_iff)
  show ?thesis
  proof (cases res)
    case (ParseOk h body)
    with q inv show ?thesis by (auto dest: parse_bytes_Ok_frame)
  next
    case NeedMore
    with inv assms(2) show ?thesis by (auto simp: parse_def Let_def split: if_splits option.splits)
  next
    case ProtocolError
    with inv assms(2) show ?thesis by (auto simp: parse_def Let_def split: if_splits option.splits)
  qed
qed

theorem parse_consumes_one_frame_witness:
  "\<exists>res b'. parse (newFrameReader 64) (buf_append [1, 2, 3] (newBuffer 4)) = (res, b')
     \<and> res = NeedMore \<and> buffer_inv b' \<and> b' = buf_append [1, 2, 3] (newBuffer 4)"
proof -
  let ?b = "buf_append [1, 2, 3] (newBuffer 4)"
  have inv: "buffer_inv ?b" by (simp add: buffer_simps)
  obtain res b' where p: "parse (newFrameReader 64) ?b = (res, b')"
    by (cases "parse (newFrameReader 64) ?b")
  have "fst (parse (newFrameReader 64) ?b) = NeedMore"
    using parse_refines(1) [OF inv] by (simp add: buffer_simps parse_bytes_def kHeaderSize_def)
  with p inv parse_consumes_one_frame [OF inv p] show ?thesis by simp
qed

text \<open>C32: a length prefix cannot make the reader hoard memory. As long as the reader asks for
  more, fewer bytes than one frame of the configured size are waiting, and fewer than the
  protocol's ceiling; and as soon as the header is there, a declared body above the limit is an
  error, however little of the body has arrived.\<close>

theorem reader_bounds_memory:
  assumes "reader_inv fr" and "buffer_inv b"
  shows "(fst (parse fr b) = NeedMore \<longrightarrow>
           readableBytes b < fr_maxFrameSize fr \<and> readableBytes b < kHeaderSize + kMaxBodyLen)
    \<and> (\<forall>h. decodeHeader (contents b) = Some h \<and> maxBodyOf fr < unat (mh_bodyLen h) \<longrightarrow>
           parse fr b = (ProtocolError, b))"
proof -
  have "readableBytes b < fr_maxFrameSize fr" if "fst (parse fr b) = NeedMore"
    using parse_NeedMore_bound(1) [OF assms that] assms(1) by (auto simp: reader_inv_def)
  moreover have "parse fr b = (ProtocolError, b)"
    if "decodeHeader (contents b) = Some h" "maxBodyOf fr < unat (mh_bodyLen h)" for h
  proof -
    have "kHeaderSize \<le> readableBytes b"
      using that(1) decodeHeader_short [of "contents b"] assms(2)
      by (cases "readableBytes b < kHeaderSize") (auto simp: buffer_simps)
    with that show ?thesis by (simp add: parse_def Let_def maxBodyOf_def contents_def)
  qed
  ultimately show ?thesis using parse_NeedMore_bound(2) [OF assms] by blast
qed

theorem reader_bounds_memory_witness:
  "reader_inv (newFrameReader 20) \<and> buffer_inv (newBuffer 4)
   \<and> readableBytes (newBuffer 4) < 20"
proof -
  have "fst (parse (newFrameReader 20) (newBuffer 4)) = NeedMore"
    by (simp add: parse_def Let_def newBuffer_def readableBytes_def kHeaderSize_def)
  with reader_bounds_memory [OF reader_inv_set(2) [of 20] newBuffer_ok(1) [of 4]] show ?thesis
    by (simp add: reader_inv_def buffer_simps newFrameReader_def setMaxFrameSize_def kHeaderSize_def)
qed

end
