(* ===== verification/Codec.thy ===== *)
theory Codec
  imports Protocol
begin

unbundle bit_operations_syntax

section \<open>The request and response envelope\<close>

text \<open>
  \<open>rpc/include/rpc/codec.h\<close> and \<open>rpc/src/raw_codec.cpp\<close>. The abstract class \<open>Codec\<close>
  is the locale \<open>codec\<close>: its four virtual functions with the contract the header states, namely
  that what one side encodes the other side decodes, that nothing else decodes, and that a
  refusal is a value and no partial output. \<open>RawCodec\<close> interprets it. A result
  \<open>None\<close> is the returned \<open>false\<close>, which leaves \<open>*out\<close> untouched.
\<close>

subsection \<open>Messages and the raw codec\<close>

record Request =
  rq_service :: bytes
  rq_method :: bytes
  rq_payload :: bytes

record Response =
  rs_status :: StatusCode
  rs_payload :: bytes
  rs_serializerId :: byte

text \<open>\<open>Response{status, payload}\<close>: the serializer id keeps its default.\<close>

definition mkResponse :: "StatusCode \<Rightarrow> bytes \<Rightarrow> Response" where
  "mkResponse status payload =
     \<lparr>rs_status = status, rs_payload = payload, rs_serializerId = kSerializerRaw\<rparr>"

definition kMaxNameLen :: nat where
  "kMaxNameLen = 65535"

definition getU16_at :: "bytes \<Rightarrow> nat \<Rightarrow> u16" where
  "getU16_at xs offset = ucast (xs ! offset) OR push_bit 8 (ucast (xs ! (offset + 1)))"

definition nameFits :: "bytes \<Rightarrow> bool" where
  "nameFits name \<longleftrightarrow> name \<noteq> [] \<and> length name \<le> kMaxNameLen"

definition encodeRequest :: "Request \<Rightarrow> bytes option" where
  "encodeRequest r =
     (if \<not> nameFits (rq_service r) \<or> \<not> nameFits (rq_method r) then None
      else let bodyLen = 2 + length (rq_service r) + 2 + length (rq_method r) + length (rq_payload r)
        in if bodyLen > kMaxBodyLen then None
           else Some (putU16 (of_nat (length (rq_service r))) @ rq_service r
                      @ putU16 (of_nat (length (rq_method r))) @ rq_method r @ rq_payload r))"

definition decodeRequest :: "bytes \<Rightarrow> Request option" where
  "decodeRequest xs =
     (if length xs < 2 \<or> length xs > kMaxBodyLen then None
      else let svcLen = unat (getU16_at xs 0) in
        if svcLen = 0 then None
        else if length xs < 2 + svcLen + 2 then None
        else let methodOffset = 2 + svcLen;
                 methodLen = unat (getU16_at xs methodOffset)
          in if methodLen = 0 then None
             else if length xs < 4 + svcLen + methodLen then None
             else Some \<lparr>rq_service = take svcLen (drop 2 xs),
                        rq_method = take methodLen (drop (methodOffset + 2) xs),
                        rq_payload = take (length xs - (4 + svcLen + methodLen))
                                       (drop (4 + svcLen + methodLen) xs)\<rparr>)"

definition encodeResponse :: "Response \<Rightarrow> bytes option" where
  "encodeResponse r = (if length (rs_payload r) > kMaxBodyLen then None else Some (rs_payload r))"

text \<open>The caller's \<open>Response\<close> object is filled in place: only its payload changes.\<close>

definition decodeResponse :: "bytes \<Rightarrow> Response \<Rightarrow> Response option" where
  "decodeResponse xs out = (if length xs > kMaxBodyLen then None else Some (out\<lparr>rs_payload := xs\<rparr>))"

subsection \<open>The contract of a codec\<close>

locale codec =
  fixes enc_req :: "Request \<Rightarrow> bytes option"
    and dec_req :: "bytes \<Rightarrow> Request option"
    and enc_resp :: "Response \<Rightarrow> bytes option"
    and dec_resp :: "bytes \<Rightarrow> Response \<Rightarrow> Response option"
  assumes dec_enc_req: "enc_req r = Some xs \<Longrightarrow> dec_req xs = Some r"
    and enc_dec_req: "dec_req xs = Some r \<Longrightarrow> enc_req r = Some xs"
    and req_fits: "enc_req r = Some xs \<Longrightarrow> length xs \<le> kMaxBodyLen"
    and dec_enc_resp: "enc_resp p = Some xs \<Longrightarrow>
      dec_resp xs out = Some (out\<lparr>rs_payload := rs_payload p\<rparr>)"
    and resp_fits: "enc_resp p = Some xs \<Longrightarrow> length xs \<le> kMaxBodyLen"
begin

lemma enc_req_iff: "enc_req r = Some xs \<longleftrightarrow> dec_req xs = Some r"
  using dec_enc_req enc_dec_req by blast

lemma enc_req_inj: "enc_req r = Some xs \<Longrightarrow> enc_req r' = Some xs \<Longrightarrow> r = r'"
  by (simp add: enc_req_iff)

text \<open>The frame header carries status and serializer id, so a response gets through whole.\<close>

lemma response_transfer:
  "enc_resp r = Some xs \<Longrightarrow>
     dec_resp xs \<lparr>rs_status = rs_status r, rs_payload = [], rs_serializerId = rs_serializerId r\<rparr> = Some r"
  by (simp add: dec_enc_resp)

text \<open>The length prefix of the frame can state the length of every encoded body.\<close>

lemma body_len_u32:
  assumes "enc_req r = Some xs \<or> enc_resp p = Some xs"
  shows "unat (of_nat (length xs) :: u32) = length xs"
proof -
  have "length xs < 2 ^ 32" using assms req_fits resp_fits by (fastforce simp: kMaxBodyLen_def)
  then show ?thesis by (simp add: unat_of_nat)
qed

end

subsection \<open>The raw codec keeps it\<close>

lemma getU16_at_eq: "offset + 2 \<le> length xs \<Longrightarrow> getU16_at xs offset = getU16 (drop offset xs)"
  by (simp add: getU16_at_def getU16_def nth_drop add.commute)

lemma unat_name_len: "length name \<le> kMaxNameLen \<Longrightarrow> unat (of_nat (length name) :: u16) = length name"
  by (simp add: kMaxNameLen_def unat_of_nat)

lemma unat_getU16_at: "unat (getU16_at xs offset) \<le> kMaxNameLen"
  using unsigned_less [where 'a = nat, of "getU16_at xs offset"] by (simp add: kMaxNameLen_def)

lemma getU16_prefix: "getU16_at (ys @ putU16 v @ zs) (length ys) = v"
  by (simp add: getU16_at_eq getU16_append)

lemma decode_encode_request:
  assumes "encodeRequest r = Some xs"
  shows "decodeRequest xs = Some r"
proof -
  let ?s = "rq_service r" and ?m = "rq_method r" and ?p = "rq_payload r"
  have fits: "nameFits ?s" "nameFits ?m" and len: "4 + length ?s + length ?m + length ?p \<le> kMaxBodyLen"
    and xs: "xs = putU16 (of_nat (length ?s)) @ ?s @ putU16 (of_nat (length ?m)) @ ?m @ ?p"
    using assms by (auto simp: encodeRequest_def Let_def split: if_splits)
  have s: "unat (getU16_at xs 0) = length ?s"
    using getU16_prefix [of "[]" "of_nat (length ?s)"] fits xs
    by (simp add: nameFits_def unat_name_len)
  have m: "unat (getU16_at xs (2 + length ?s)) = length ?m"
    using getU16_prefix [of "putU16 (of_nat (length ?s)) @ ?s" "of_nat (length ?m)"] fits xs
    by (simp add: nameFits_def unat_name_len)
  show ?thesis
    using fits len s m by (cases r) (auto simp: decodeRequest_def Let_def nameFits_def xs)
qed

lemma putU16_getU16_at:
  assumes "offset + 2 \<le> length xs"
  shows "putU16 (getU16_at xs offset) = take 2 (drop offset xs)"
proof -
  have "2 \<le> length (drop offset xs)" using assms by simp
  then obtain a b r where "drop offset xs = a # b # r"
    by (metis Suc_le_length_iff numeral_2_eq_2)
  with getU16_at_eq [OF assms] show ?thesis
    by (simp add: getU16_Cons [of a b r] putU16_getU16)
qed

lemma encode_decode_request:
  assumes "decodeRequest xs = Some r"
  shows "encodeRequest r = Some xs"
proof -
  define s where "s = unat (getU16_at xs 0)"
  define m where "m = unat (getU16_at xs (s + 2))"
  have len: "s + 4 + m \<le> length xs" "length xs \<le> kMaxBodyLen" and pos: "s \<noteq> 0" "m \<noteq> 0"
    and r: "r = \<lparr>rq_service = take s (drop 2 xs), rq_method = take m (drop (s + 4) xs),
      rq_payload = drop (s + 4 + m) xs\<rparr>"
    using assms by (auto simp: decodeRequest_def Let_def s_def [symmetric] m_def [symmetric]
        add.commute simp del: add_2_eq_Suc add_2_eq_Suc' split: if_splits)
  have bounds: "s \<le> kMaxNameLen" "m \<le> kMaxNameLen"
    using unat_getU16_at [of xs 0] unat_getU16_at [of xs "s + 2"] by (simp_all add: s_def m_def)
  have prefixes: "putU16 (of_nat s) = take 2 xs" "putU16 (of_nat m) = take 2 (drop (s + 2) xs)"
    using putU16_getU16_at [of 0 xs] putU16_getU16_at [of "s + 2" xs] len
    by (simp_all add: s_def m_def)
  have "take 2 xs @ take s (drop 2 xs) @ take 2 (drop (s + 2) xs)
      @ take m (drop (s + 4) xs) @ drop (s + 4 + m) xs = xs"
    using take_drop_chain [of m "s + 4" xs] take_drop_chain [of 2 "s + 2" xs]
      take_drop_chain [of s 2 xs]
    by (simp add: add.commute add.left_commute del: add_2_eq_Suc add_2_eq_Suc')
  with prefixes bounds len pos show ?thesis
    by (auto simp: encodeRequest_def nameFits_def r Let_def)
qed

interpretation raw: codec encodeRequest decodeRequest encodeResponse decodeResponse
proof unfold_locales
  show "encodeRequest r = Some xs \<Longrightarrow> length xs \<le> kMaxBodyLen" for r xs
    by (auto simp: encodeRequest_def Let_def split: if_splits)
qed (auto intro: decode_encode_request encode_decode_request
      simp: encodeResponse_def decodeResponse_def split: if_splits)

subsection \<open>Properties\<close>

text \<open>Requests cross the wire unchanged, and only requests do: a body decodes to a request
  exactly when encoding that request gives the body. So the decoder inverts the encoder, the
  encoder inverts the decoder, no two requests share an encoding, and a truncated or
  zero-length-name envelope decodes to nothing.\<close>

theorem request_codec_bijective:
  "encodeRequest r = Some xs \<longleftrightarrow> decodeRequest xs = Some r"
  by (rule raw.enc_req_iff)

text \<open>A request is refused exactly when a name is empty or longer than the 16-bit prefix can
  say, or the body would exceed the protocol's ceiling.\<close>

theorem encodeRequest_refuses:
  "encodeRequest r = None \<longleftrightarrow>
     rq_service r = [] \<or> rq_method r = [] \<or> 65535 < length (rq_service r)
     \<or> 65535 < length (rq_method r)
     \<or> 16777216 < 4 + length (rq_service r) + length (rq_method r) + length (rq_payload r)"
  by (auto simp: encodeRequest_def nameFits_def kMaxNameLen_def kMaxBodyLen_def Let_def)

end
