(* ===== verification/Service_Registry.thy ===== *)
theory Service_Registry
  imports Codec
begin

section \<open>Routing requests to handlers\<close>

text \<open>
  \<open>rpc/include/rpc/service_registry.h\<close> and \<open>rpc/src/service_registry.cpp\<close>. A handler is
  user code; it is a function from the request payload to the response payload, or \<open>None\<close> when
  it throws. The \<open>unordered_map\<close> of methods is an association list with distinct keys, and
  an empty \<open>std::function\<close> offered for registration is \<open>None\<close>.
\<close>

subsection \<open>State and operations\<close>

type_synonym ErasedMethod = "bytes \<Rightarrow> bytes option"

record ServiceRegistry =
  sr_methods :: "(bytes \<times> ErasedMethod) list"
  sr_services :: "bytes set"
  sr_frozen :: bool

definition newServiceRegistry :: ServiceRegistry where
  "newServiceRegistry = \<lparr>sr_methods = [], sr_services = {}, sr_frozen = False\<rparr>"

definition makeKey :: "bytes \<Rightarrow> bytes \<Rightarrow> bytes" where
  "makeKey service method = service @ [46] @ method"

definition registerMethod ::
    "bytes \<Rightarrow> bytes \<Rightarrow> ErasedMethod option \<Rightarrow> ServiceRegistry \<Rightarrow> bool \<times> ServiceRegistry" where
  "registerMethod service method fn reg =
     (if sr_frozen reg \<or> service = [] \<or> method = [] then (False, reg)
      else case fn of
        None \<Rightarrow> (False, reg)
      | Some f \<Rightarrow>
          (let key = makeKey service method in
           if map_of (sr_methods reg) key \<noteq> None then (False, reg)
           else (True, reg\<lparr>sr_methods := (key, f) # sr_methods reg,
                           sr_services := insert service (sr_services reg)\<rparr>)))"

text \<open>The returned flag and the response, or \<open>None\<close> when the handler's exception leaves
  \<open>dispatch\<close>.\<close>

definition dispatch :: "ServiceRegistry \<Rightarrow> Request \<Rightarrow> Response \<Rightarrow> (bool \<times> Response) option" where
  "dispatch reg req resp =
     (case map_of (sr_methods reg) (makeKey (rq_service req) (rq_method req)) of
        None \<Rightarrow>
          Some (False, resp\<lparr>rs_status := (if rq_service req \<in> sr_services reg
                                            then kUnknownMethod else kUnknownService),
                            rs_payload := []\<rparr>)
      | Some method \<Rightarrow>
          (case method (rq_payload req) of
             None \<Rightarrow> None
           | Some payload \<Rightarrow> Some (True, resp\<lparr>rs_status := kOk, rs_payload := payload\<rparr>)))"

definition registrySize :: "ServiceRegistry \<Rightarrow> nat" where
  "registrySize reg = length (sr_methods reg)"

definition freeze :: "ServiceRegistry \<Rightarrow> ServiceRegistry" where
  "freeze reg = reg\<lparr>sr_frozen := True\<rparr>"

subsection \<open>Keys\<close>

text \<open>A key determines its service and method as long as service names have no dot.\<close>

definition dot_free :: "bytes \<Rightarrow> bool" where
  "dot_free s \<longleftrightarrow> 46 \<notin> set s"

lemma makeKey_inject:
  "dot_free s \<Longrightarrow> dot_free s' \<Longrightarrow> makeKey s m = makeKey s' m' \<longleftrightarrow> s = s' \<and> m = m'"
proof (induction s arbitrary: s')
  case Nil
  then show ?case by (cases s') (auto simp: makeKey_def dot_free_def)
next
  case (Cons c s)
  then show ?case by (cases s') (auto simp: makeKey_def dot_free_def)
qed

subsection \<open>Registration\<close>

definition registry_inv :: "ServiceRegistry \<Rightarrow> bool" where
  "registry_inv reg \<longleftrightarrow> distinct (map fst (sr_methods reg))"

lemma registerMethod_inv: "registry_inv reg \<Longrightarrow> registry_inv (snd (registerMethod s m fn reg))"
  by (auto simp: registry_inv_def registerMethod_def Let_def map_of_eq_None_iff split: option.splits)

lemma registerMethod_frozen: "sr_frozen (snd (registerMethod s m fn reg)) = sr_frozen reg"
  by (auto simp: registerMethod_def Let_def split: option.splits)

text \<open>Start-up code registers methods one after the other and ignores refusals.\<close>

type_synonym registration = "bytes \<times> bytes \<times> ErasedMethod option"

fun registerAll :: "registration list \<Rightarrow> ServiceRegistry \<Rightarrow> ServiceRegistry" where
  "registerAll [] reg = reg"
| "registerAll ((s, m, fn) # rs) reg = registerAll rs (snd (registerMethod s m fn reg))"

lemma registerAll_inv: "registry_inv reg \<Longrightarrow> registry_inv (registerAll rs reg)"
  by (induction rs reg rule: registerAll.induct) (auto intro: registerMethod_inv)

subsection \<open>The specification: the first valid registration of a pair wins\<close>

fun valid_registration :: "registration \<Rightarrow> bool" where
  "valid_registration (s, m, fn) \<longleftrightarrow> s \<noteq> [] \<and> m \<noteq> [] \<and> fn \<noteq> None"

fun route :: "registration list \<Rightarrow> bytes \<Rightarrow> bytes \<Rightarrow> ErasedMethod option" where
  "route [] s m = None"
| "route ((s', m', fn) # rs) s m =
     (if valid_registration (s', m', fn) \<and> s' = s \<and> m' = m then fn else route rs s m)"

definition known_service :: "registration list \<Rightarrow> bytes \<Rightarrow> bool" where
  "known_service rs s \<longleftrightarrow> (\<exists>m fn. (s, m, fn) \<in> set rs \<and> valid_registration (s, m, fn))"

lemma registerAll_methods:
  assumes "\<And>s' m' fn. (s', m', fn) \<in> set rs \<Longrightarrow> dot_free s'" and "dot_free s"
    and "\<not> sr_frozen reg"
  shows "map_of (sr_methods (registerAll rs reg)) (makeKey s m) =
    (case map_of (sr_methods reg) (makeKey s m) of Some f \<Rightarrow> Some f | None \<Rightarrow> route rs s m)"
  using assms
proof (induction rs reg rule: registerAll.induct)
  case (1 reg)
  then show ?case by (simp split: option.splits)
next
  case (2 s' m' fn rs reg)
  have "dot_free s'" using 2(2) by auto
  then have key: "makeKey s' m' = makeKey s m \<longleftrightarrow> s' = s \<and> m' = m"
    using 2(3) by (simp add: makeKey_inject)
  have IH: "map_of (sr_methods (registerAll rs (snd (registerMethod s' m' fn reg)))) (makeKey s m) =
      (case map_of (sr_methods (snd (registerMethod s' m' fn reg))) (makeKey s m) of
         Some f \<Rightarrow> Some f | None \<Rightarrow> route rs s m)"
    using 2 by (auto simp: registerMethod_frozen)
  show ?case
  proof (cases "valid_registration (s', m', fn) \<and> map_of (sr_methods reg) (makeKey s' m') = None")
    case True
    with 2(4) obtain f where "fn = Some f" and
      "sr_methods (snd (registerMethod s' m' fn reg)) = (makeKey s' m', f) # sr_methods reg"
      by (auto simp: registerMethod_def)
    with IH key True show ?thesis by (cases "s' = s \<and> m' = m") (auto split: option.splits)
  next
    case False
    then have "sr_methods (snd (registerMethod s' m' fn reg)) = sr_methods reg"
      by (auto simp: registerMethod_def split: option.splits)
    with IH key False show ?thesis by (cases "s' = s \<and> m' = m") (auto split: option.splits)
  qed
qed

lemma registerAll_services:
  assumes "\<And>s' m' fn. (s', m', fn) \<in> set rs \<Longrightarrow> dot_free s'"
    and "\<not> sr_frozen reg"
    and "\<And>key. map_of (sr_methods reg) key \<noteq> None \<Longrightarrow>
           \<exists>s m. key = makeKey s m \<and> dot_free s \<and> s \<in> sr_services reg"
  shows "s \<in> sr_services (registerAll rs reg) \<longleftrightarrow> s \<in> sr_services reg \<or> known_service rs s"
  using assms
proof (induction rs reg rule: registerAll.induct)
  case (1 reg)
  then show ?case by (simp add: known_service_def)
next
  case (2 s' m' fn rs reg)
  let ?reg = "snd (registerMethod s' m' fn reg)"
  have dot: "dot_free s'" using 2(2) by auto
  have known: "known_service ((s', m', fn) # rs) s \<longleftrightarrow>
      (s = s' \<and> valid_registration (s', m', fn)) \<or> known_service rs s"
    by (auto simp: known_service_def)
  have services: "s \<in> sr_services ?reg \<longleftrightarrow>
      s \<in> sr_services reg \<or> (s = s' \<and> valid_registration (s', m', fn))"
  proof (cases "valid_registration (s', m', fn) \<and> map_of (sr_methods reg) (makeKey s' m') = None")
    case True
    with 2(3) show ?thesis by (auto simp: registerMethod_def)
  next
    case False
    then have same: "?reg = reg" by (auto simp: registerMethod_def split: option.splits)
    show ?thesis
    proof (cases "valid_registration (s', m', fn)")
      case True
      with False 2(4) obtain s0 m0 where "makeKey s' m' = makeKey s0 m0" "dot_free s0"
        "s0 \<in> sr_services reg" by blast
      with dot same show ?thesis by (auto simp: makeKey_inject)
    qed (use same in auto)
  qed
  have "s \<in> sr_services (registerAll rs ?reg) \<longleftrightarrow> s \<in> sr_services ?reg \<or> known_service rs s"
  proof (rule 2(1))
    fix key
    assume "map_of (sr_methods ?reg) key \<noteq> None"
    then show "\<exists>s m. key = makeKey s m \<and> dot_free s \<and> s \<in> sr_services ?reg"
      using 2(4) dot
      by (fastforce simp: registerMethod_def Let_def split: if_splits option.splits)
  qed (use 2(2,3) in \<open>fastforce simp: registerMethod_frozen\<close>)+
  with services known show ?case by auto
qed

lemma registerAll_frozen: "sr_frozen (registerAll rs reg) = sr_frozen reg"
  by (induction rs reg rule: registerAll.induct) (simp_all add: registerMethod_frozen)

lemma registerAll_noop: "sr_frozen reg \<Longrightarrow> registerAll rs reg = reg"
  by (induction rs reg rule: registerAll.induct) (auto simp: registerMethod_def)

subsection \<open>Properties\<close>

text \<open>The registry routes as specified. After any sequence of registrations with dot-free
  service names, followed by \<open>freeze\<close> and any further attempts to register, a request
  reaches the first valid registration of its service and method; when there is none, the
  answer is \<open>kUnknownMethod\<close> if some method of the service was registered and
  \<open>kUnknownService\<close> if not, with an empty payload.\<close>

theorem registry_routes:
  assumes "\<And>s m fn. (s, m, fn) \<in> set rs \<Longrightarrow> dot_free s" and "dot_free (rq_service req)"
  shows "dispatch (registerAll late (freeze (registerAll rs newServiceRegistry))) req resp =
    (case route rs (rq_service req) (rq_method req) of
       Some f \<Rightarrow> map_option (\<lambda>p. (True, resp\<lparr>rs_status := kOk, rs_payload := p\<rparr>)) (f (rq_payload req))
     | None \<Rightarrow> Some (False, resp\<lparr>rs_status := (if known_service rs (rq_service req)
                                   then kUnknownMethod else kUnknownService),
                                 rs_payload := []\<rparr>))"
proof -
  let ?reg = "registerAll rs newServiceRegistry"
  have late: "registerAll late (freeze ?reg) = freeze ?reg"
    by (rule registerAll_noop) (simp add: freeze_def)
  have m: "map_of (sr_methods ?reg) (makeKey (rq_service req) (rq_method req)) =
      route rs (rq_service req) (rq_method req)"
    using registerAll_methods [of rs "rq_service req" newServiceRegistry "rq_method req"] assms
    by (simp add: newServiceRegistry_def)
  have s: "rq_service req \<in> sr_services ?reg \<longleftrightarrow> known_service rs (rq_service req)"
    using registerAll_services [of rs newServiceRegistry "rq_service req"] assms
    by (simp add: newServiceRegistry_def)
  show ?thesis
    unfolding late using m s by (simp add: dispatch_def freeze_def split: option.splits)
qed

theorem registry_routes_witness:
  "dispatch (registerAll [] (freeze (registerAll
       [([69], [1], Some (\<lambda>p. Some (rev p))), ([69], [1], Some (\<lambda>p. None))] newServiceRegistry)))
     \<lparr>rq_service = [69], rq_method = [1], rq_payload = [1, 2]\<rparr> (mkResponse 0 [])
   = Some (True, mkResponse kOk [2, 1])"
proof -
  let ?rs = "[([69], [1], Some (\<lambda>p. Some (rev p))), ([69], [1], Some (\<lambda>p. None))]"
  let ?req = "\<lparr>rq_service = [69], rq_method = [1], rq_payload = [1, 2]\<rparr>"
  have "\<And>s m fn. (s, m, fn) \<in> set ?rs \<Longrightarrow> dot_free s" and "dot_free (rq_service ?req)"
    by (auto simp: dot_free_def)
  from registry_routes [where rs = ?rs and req = ?req and late = "[]" and resp = "mkResponse 0 []",
      OF this]
  show ?thesis
    by (simp add: mkResponse_def)
qed

text \<open>Registration is all or nothing. It succeeds exactly on an unfrozen registry with
  non-empty names, a callable and a free key; success adds one method under that key and keeps
  every other one, and refusal changes nothing.\<close>

theorem registerMethod_all_or_nothing:
  "let (ok, reg') = registerMethod s m fn reg; key = makeKey s m in
     (ok \<longleftrightarrow> \<not> sr_frozen reg \<and> s \<noteq> [] \<and> m \<noteq> [] \<and> fn \<noteq> None \<and> map_of (sr_methods reg) key = None)
     \<and> (if ok then map_of (sr_methods reg') = (map_of (sr_methods reg))(key := fn)
             \<and> sr_services reg' = insert s (sr_services reg) \<and> registrySize reg' = Suc (registrySize reg)
         else reg' = reg)"
  by (auto simp: registerMethod_def Let_def registrySize_def split: option.splits)

text \<open>With dots in names two different pairs share a key. A handler registered for service
  \<open>s.t\<close> and method \<open>m\<close> answers requests for service \<open>s\<close> and method \<open>t.m\<close>, and a later
  registration of the latter pair is refused as a duplicate.\<close>

theorem dotted_names_alias:
  "dispatch (snd (registerMethod (s @ [46] @ t) m (Some f) newServiceRegistry))
     \<lparr>rq_service = s, rq_method = t @ [46] @ m, rq_payload = p\<rparr> resp
   = (if m = [] then Some (False, resp\<lparr>rs_status := kUnknownService, rs_payload := []\<rparr>)
      else map_option (\<lambda>q. (True, resp\<lparr>rs_status := kOk, rs_payload := q\<rparr>)) (f p))
   \<and> (fst (registerMethod s (t @ [46] @ m) (Some g)
          (snd (registerMethod (s @ [46] @ t) m (Some f) newServiceRegistry)))
        \<longleftrightarrow> m = [] \<and> s \<noteq> [])"
  by (auto simp: registerMethod_def dispatch_def makeKey_def newServiceRegistry_def
      split: option.splits)

end
