(* ===== verification/Rpc_Server.thy ===== *)
theory Rpc_Server
  imports Tcp_Lifecycle Frame_Reader Codec Service_Registry
begin

section \<open>The RPC server\<close>

text \<open>
  \<open>rpc/src/rpc_server.cpp\<close>. The record holds the members a message handler reads; the listening
  socket behind \<open>server_\<close> is not part of it. A handler acts on one connection through the
  transport interface \<open>T\<close>, on the input buffer of that connection, and by dispatching requests;
  \<open>onMessage\<close> returns the connection, the buffer and the requests dispatched, in order. Log
  lines are left out.
\<close>

subsection \<open>State and operations\<close>

record RpcServer =
  sv_registry :: ServiceRegistry
  sv_frameReader :: FrameReader
  sv_maxInputBufferSize :: nat
  sv_serializerId :: byte

definition newRpcServer :: RpcServer where
  "newRpcServer =
     \<lparr>sv_registry = newServiceRegistry, sv_frameReader = newFrameReader kDefaultMaxFrameSize,
      sv_maxInputBufferSize = 0, sv_serializerId = kSerializerRaw\<rparr>"

definition server_setMaxFrameSize :: "nat \<Rightarrow> RpcServer \<Rightarrow> RpcServer" where
  "server_setMaxFrameSize n S = S\<lparr>sv_frameReader := setMaxFrameSize n (sv_frameReader S)\<rparr>"

definition setMaxInputBufferSize :: "nat \<Rightarrow> RpcServer \<Rightarrow> RpcServer" where
  "setMaxInputBufferSize n S = S\<lparr>sv_maxInputBufferSize := (if n = 0 then 0 else max n kHeaderSize)\<rparr>"

definition server_setSerializerId :: "byte \<Rightarrow> RpcServer \<Rightarrow> RpcServer" where
  "server_setSerializerId i S = S\<lparr>sv_serializerId := i\<rparr>"

text \<open>The part of \<open>start\<close> that concerns this state.\<close>

definition server_start :: "RpcServer \<Rightarrow> RpcServer" where
  "server_start S = S\<lparr>sv_registry := freeze (sv_registry S)\<rparr>"

definition responseHeader :: "u32 \<Rightarrow> Response \<Rightarrow> bytes \<Rightarrow> MessageHeader" where
  "responseHeader requestId response body =
     \<lparr>mh_magic = kMagic, mh_version = kVersion, mh_type = kResponse, mh_flags = 0,
      mh_status = rs_status response, mh_serializerId = rs_serializerId response,
      mh_requestId = requestId, mh_bodyLen = of_nat (length body)\<rparr>"

definition sendResponse :: "'c transport_ops \<Rightarrow> u32 \<Rightarrow> Response \<Rightarrow> 'c \<Rightarrow> 'c" where
  "sendResponse T requestId response conn =
     (case encodeResponse response of
        None \<Rightarrow> t_forceClose T conn
      | Some body \<Rightarrow>
          (let frame = encodeHeader (responseHeader requestId response body) @ body
           in t_send T frame conn))"

definition rejectAndClose :: "'c transport_ops \<Rightarrow> u32 \<Rightarrow> StatusCode \<Rightarrow> 'c \<Rightarrow> 'c" where
  "rejectAndClose T requestId status conn =
     t_shutdown T (sendResponse T requestId (mkResponse status []) conn)"

text \<open>The dispatch with its \<open>catch\<close> clauses, and the echo of the serializer id.\<close>

definition run_request :: "RpcServer \<Rightarrow> MessageHeader \<Rightarrow> Request \<Rightarrow> Response" where
  "run_request S header request =
     (case dispatch (sv_registry S) request (mkResponse kOk []) of
        None \<Rightarrow> mkResponse kInternalError []
      | Some (_, response) \<Rightarrow> response)\<lparr>rs_serializerId := mh_serializerId header\<rparr>"

definition handleRequest ::
  "RpcServer \<Rightarrow> 'c transport_ops \<Rightarrow> MessageHeader \<Rightarrow> bytes \<Rightarrow> 'c \<Rightarrow> 'c \<times> Request list" where
  "handleRequest S T header body conn =
     (case decodeRequest body of
        None \<Rightarrow> (rejectAndClose T (mh_requestId header) kMalformedBody conn, [])
      | Some request \<Rightarrow>
          (sendResponse T (mh_requestId header) (run_request S header request) conn, [request]))"

definition serializer_rejection :: "MessageHeader \<Rightarrow> Response" where
  "serializer_rejection header =
     (mkResponse kUnsupportedSerializer [])\<lparr>rs_serializerId := mh_serializerId header\<rparr>"

definition input_limit :: "RpcServer \<Rightarrow> nat" where
  "input_limit S =
     (if sv_maxInputBufferSize S \<noteq> 0 then sv_maxInputBufferSize S
      else fr_maxFrameSize (sv_frameReader S))"

function server_onMessage ::
  "RpcServer \<Rightarrow> 'c transport_ops \<Rightarrow> 'c \<Rightarrow> buffer \<Rightarrow> 'c \<times> buffer \<times> Request list" where
  "server_onMessage S T conn buf =
     (case parse (sv_frameReader S) buf of
        (NeedMore, b) \<Rightarrow>
          (if readableBytes b > input_limit S then t_forceClose T conn else conn, b, [])
      | (ProtocolError, b) \<Rightarrow>
          (case (if readableBytes b \<ge> kHeaderSize then decodeHeader (take (readableBytes b) (peek b)) else None) of
             Some decoded \<Rightarrow> (rejectAndClose T (mh_requestId decoded) kBodyTooLarge conn, b, [])
           | None \<Rightarrow> (t_forceClose T conn, b, []))
      | (ParseOk header body, b) \<Rightarrow>
          (if mh_version header \<noteq> kVersion then
             (rejectAndClose T (mh_requestId header) kUnsupportedVersion conn, b, [])
           else if mh_type header \<noteq> kRequest then
             (rejectAndClose T (mh_requestId header) kUnsupportedMsgType conn, b, [])
           else if mh_flags header \<noteq> 0 then
             (rejectAndClose T (mh_requestId header) kUnsupportedFlag conn, b, [])
           else if mh_serializerId header \<noteq> sv_serializerId S then
             server_onMessage S T (sendResponse T (mh_requestId header) (serializer_rejection header) conn) b
           else
             (case handleRequest S T header body conn of
                (conn', calls) \<Rightarrow>
                  (case server_onMessage S T conn' b of
                     (conn'', b', calls') \<Rightarrow> (conn'', b', calls @ calls')))))"
  by pat_completeness auto
termination
  by (relation "measure (\<lambda>(S, T, conn, buf). readableBytes buf)")
    (auto dest!: sym [THEN parse_Ok_shorter])

declare server_onMessage.simps [simp del]

subsection \<open>What one frame is answered\<close>

definition response_frame :: "u32 \<Rightarrow> Response \<Rightarrow> bytes" where
  "response_frame requestId response =
     encodeFrame (responseHeader requestId response (rs_payload response), rs_payload response)"

text \<open>Frames after which the connection goes on: the header passes the checks, and either the
  payload format is refused, or the envelope decodes and the response fits.\<close>

fun answer :: "RpcServer \<Rightarrow> frame \<Rightarrow> Response option" where
  "answer S (h, body) =
     (if mh_serializerId h \<noteq> sv_serializerId S then Some (serializer_rejection h)
      else map_option (run_request S h) (decodeRequest body))"

fun servable :: "RpcServer \<Rightarrow> frame \<Rightarrow> bool" where
  "servable S (h, body) \<longleftrightarrow> mh_version h = kVersion \<and> mh_type h = kRequest \<and> mh_flags h = 0
     \<and> (case answer S (h, body) of None \<Rightarrow> False | Some r \<Rightarrow> length (rs_payload r) \<le> kMaxBodyLen)"

definition answer_frame :: "RpcServer \<Rightarrow> frame \<Rightarrow> bytes" where
  "answer_frame S f = response_frame (mh_requestId (fst f)) (the (answer S f))"

definition dispatched :: "RpcServer \<Rightarrow> frame \<Rightarrow> Request list" where
  "dispatched S f =
     (if mh_serializerId (fst f) \<noteq> sv_serializerId S then []
      else case decodeRequest (snd f) of None \<Rightarrow> [] | Some r \<Rightarrow> [r])"

lemma sendResponse_fits:
  "length (rs_payload r) \<le> kMaxBodyLen \<Longrightarrow> sendResponse T i r conn = t_send T (response_frame i r) conn"
  by (simp add: sendResponse_def encodeResponse_def response_frame_def)

lemma rejectAndClose_sends:
  "rejectAndClose T i st conn = t_shutdown T (t_send T (response_frame i (mkResponse st [])) conn)"
  by (simp add: rejectAndClose_def sendResponse_fits mkResponse_def)

text \<open>One servable frame at the front of the buffer: its answer is sent, and the handler goes on with
  the rest.\<close>

lemma server_onMessage_servable:
  assumes "buffer_inv b" and "parse_bytes (sv_frameReader S) (contents b) = (ParseOk h body, rest)"
    and "servable S (h, body)"
  shows "\<exists>b'. buffer_inv b' \<and> contents b' = rest \<and> server_onMessage S T conn b =
    (case server_onMessage S T (t_send T (answer_frame S (h, body)) conn) b' of
       (conn', b'', calls) \<Rightarrow> (conn', b'', dispatched S (h, body) @ calls))"
proof -
  obtain b' where p: "parse (sv_frameReader S) b = (ParseOk h body, b')"
    and b': "buffer_inv b'" "contents b' = rest"
    using parse_refines [OF assms(1), of "sv_frameReader S"] assms(2)
    by (cases "parse (sv_frameReader S) b") auto
  have "server_onMessage S T conn b =
    (case server_onMessage S T (t_send T (answer_frame S (h, body)) conn) b' of
       (conn', b'', calls) \<Rightarrow> (conn', b'', dispatched S (h, body) @ calls))"
    using assms(3)
    by (subst server_onMessage.simps)
      (auto simp: p handleRequest_def sendResponse_fits answer_frame_def dispatched_def
        split: option.splits prod.splits)
  with b' show ?thesis by blast
qed

text \<open>All the servable frames in the buffer, in one go.\<close>

lemma server_onMessage_prefix:
  assumes "buffer_inv b" and "drain_bytes (sv_frameReader S) (contents b) = (fs @ gs, e, rest)"
    and "list_all (servable S) fs"
  shows "\<exists>b'. buffer_inv b' \<and> drain_bytes (sv_frameReader S) (contents b') = (gs, e, rest) \<and>
    server_onMessage S T conn b =
    (case server_onMessage S T (fold (t_send T) (map (answer_frame S) fs) conn) b' of
       (conn', b'', calls) \<Rightarrow> (conn', b'', concat (map (dispatched S) fs) @ calls))"
  using assms
proof (induction fs arbitrary: b conn)
  case Nil
  then show ?case by (auto split: prod.splits)
next
  case (Cons f fs)
  obtain h body where f: "f = (h, body)" by (cases f)
  have "drain_bytes (sv_frameReader S) (contents b) = ((h, body) # fs @ gs, e, rest)"
    using Cons.prems(2) f by simp
  from drain_bytes_Cons [OF this] obtain r1
    where p: "parse_bytes (sv_frameReader S) (contents b) = (ParseOk h body, r1)"
      and d: "drain_bytes (sv_frameReader S) r1 = (fs @ gs, e, rest)" by blast
  from server_onMessage_servable [OF Cons.prems(1) p, of T conn] Cons.prems(3) f
  obtain b1 where b1: "buffer_inv b1" "contents b1 = r1"
    and e: "server_onMessage S T conn b =
      (case server_onMessage S T (t_send T (answer_frame S f) conn) b1 of
         (conn', b'', calls) \<Rightarrow> (conn', b'', dispatched S f @ calls))"
    by auto
  from Cons.IH [OF b1(1), of "t_send T (answer_frame S f) conn"] Cons.prems(3) d b1(2) e
  show ?case by (auto split: prod.splits)
qed

lemma server_onMessage_frames:
  assumes "buffer_inv b" and "drain_bytes (sv_frameReader S) (contents b) = (fs, e, rest)"
    and "list_all (servable S) fs"
  shows "\<exists>b'. buffer_inv b' \<and> contents b' = rest \<and> server_onMessage S T conn b =
    (case server_onMessage S T (fold (t_send T) (map (answer_frame S) fs) conn) b' of
       (conn', b'', calls) \<Rightarrow> (conn', b'', concat (map (dispatched S) fs) @ calls))"
  using server_onMessage_prefix [of b S fs "[]" e rest T conn] assms drain_bytes_Nil_rest by fastforce

text \<open>The three ways a call of the handler ends.\<close>

lemma server_onMessage_NeedMore:
  assumes "buffer_inv b" and "parse_bytes (sv_frameReader S) (contents b) = (NeedMore, contents b)"
  shows "server_onMessage S T conn b =
    (if length (contents b) > input_limit S then t_forceClose T conn else conn, b, [])"
proof -
  have "parse (sv_frameReader S) b = (NeedMore, b)"
    using parse_refines(1) [OF assms(1), of "sv_frameReader S"] assms(2)
    by (auto simp: parse_def Let_def split: if_splits option.splits)
  then show ?thesis using assms(1) by (subst server_onMessage.simps) (simp add: buffer_simps)
qed

lemma server_onMessage_Error:
  assumes "buffer_inv b" and "parse_bytes (sv_frameReader S) (contents b) = (ProtocolError, contents b)"
  shows "server_onMessage S T conn b =
    (case decodeHeader (contents b) of
       Some h \<Rightarrow> rejectAndClose T (mh_requestId h) kBodyTooLarge conn
     | None \<Rightarrow> t_forceClose T conn, b, [])"
proof -
  have "parse (sv_frameReader S) b = (ProtocolError, b)" and "readableBytes b \<ge> kHeaderSize"
    using parse_refines(1) [OF assms(1), of "sv_frameReader S"] assms
    by (auto simp: parse_def parse_bytes_def Let_def length_contents split: if_splits option.splits)
  then show ?thesis
    using assms(1) by (subst server_onMessage.simps) (simp add: contents_def split: option.splits)
qed

definition header_fault :: "MessageHeader \<Rightarrow> StatusCode option" where
  "header_fault h =
     (if mh_version h \<noteq> kVersion then Some kUnsupportedVersion
      else if mh_type h \<noteq> kRequest then Some kUnsupportedMsgType
      else if mh_flags h \<noteq> 0 then Some kUnsupportedFlag
      else None)"

lemma server_onMessage_fault:
  assumes "buffer_inv b" and "parse_bytes (sv_frameReader S) (contents b) = (ParseOk h body, rest)"
    and "header_fault h = Some st"
  shows "\<exists>b'. buffer_inv b' \<and> contents b' = rest \<and>
    server_onMessage S T conn b = (rejectAndClose T (mh_requestId h) st conn, b', [])"
proof -
  obtain b' where p: "parse (sv_frameReader S) b = (ParseOk h body, b')"
    and b': "buffer_inv b'" "contents b' = rest"
    using parse_refines [OF assms(1), of "sv_frameReader S"] assms(2)
    by (cases "parse (sv_frameReader S) b") auto
  with assms(3) show ?thesis
    by (subst server_onMessage.simps) (auto simp: header_fault_def split: if_splits)
qed

subsection \<open>Over any transport\<close>

context transport
begin

lemma send_all_connected:
  "invar c \<Longrightarrow> t_connected T (fold (t_send T) ms c) = t_connected T c \<and> invar (fold (t_send T) ms c)"
  by (induction ms arbitrary: c) (simp_all add: send_invar send_connected)

lemma server_answers:
  assumes "alive" and "invar conn" and "t_connected T conn" and "buffer_inv b"
    and "drain_bytes (sv_frameReader S) (contents b) = (fs, NeedMore, rest)"
    and "list_all (servable S) fs" and "length rest \<le> input_limit S"
  shows "\<exists>conn' b'. server_onMessage S T conn b = (conn', b', concat (map (dispatched S) fs))
    \<and> conn' = fold (t_send T) (map (answer_frame S) fs) conn
    \<and> invar conn' \<and> t_connected T conn' \<and> outbox conn' = outbox conn @ concat (map (answer_frame S) fs)
    \<and> buffer_inv b' \<and> contents b' = rest"
proof -
  obtain b1 where b1: "buffer_inv b1" "contents b1 = rest"
    and e: "server_onMessage S T conn b =
      (case server_onMessage S T (fold (t_send T) (map (answer_frame S) fs) conn) b1 of
         (conn', b'', calls) \<Rightarrow> (conn', b'', concat (map (dispatched S) fs) @ calls))"
    using server_onMessage_frames [OF assms(4-6), of T conn] by (elim exE conjE)
  have "parse_bytes (sv_frameReader S) (contents b1) = (NeedMore, contents b1)"
    using drain_bytes_outcome [OF assms(5)] b1 by simp
  then have "server_onMessage S T conn b =
      (fold (t_send T) (map (answer_frame S) fs) conn, b1, concat (map (dispatched S) fs))"
    using e b1 assms(7) by (simp add: server_onMessage_NeedMore)
  then show ?thesis
    using b1 send_all [OF assms(1-3)] send_all_connected [OF assms(2)] assms(3) by simp
qed

text \<open>The handler's last word: after any servable frames, a frame that is refused gets one error
  response, and the connection is closed for writing. What follows in the stream is not read.\<close>

lemma server_refuses:
  assumes "alive" and "invar conn" and "t_connected T conn" and "buffer_inv b"
    and "drain_bytes (sv_frameReader S) (contents b) = (fs @ (h, body) # gs, e, rest)"
    and "list_all (servable S) fs" and "header_fault h = Some st"
  shows "\<exists>conn' b'. server_onMessage S T conn b = (conn', b', concat (map (dispatched S) fs))
    \<and> \<not> t_connected T conn'
    \<and> outbox conn' = outbox conn @ concat (map (answer_frame S) fs)
        @ response_frame (mh_requestId h) (mkResponse st [])"
proof -
  obtain b1 where b1: "buffer_inv b1"
    and d: "drain_bytes (sv_frameReader S) (contents b1) = ((h, body) # gs, e, rest)"
    and eq: "server_onMessage S T conn b =
      (case server_onMessage S T (fold (t_send T) (map (answer_frame S) fs) conn) b1 of
         (conn', b'', calls) \<Rightarrow> (conn', b'', concat (map (dispatched S) fs) @ calls))"
    using server_onMessage_prefix [OF assms(4-6), of T conn] by (elim exE conjE)
  let ?c = "fold (t_send T) (map (answer_frame S) fs) conn"
  let ?m = "response_frame (mh_requestId h) (mkResponse st [])"
  obtain r1 where "parse_bytes (sv_frameReader S) (contents b1) = (ParseOk h body, r1)"
    using drain_bytes_Cons [OF d] by blast
  from server_onMessage_fault [OF b1 this assms(7), of T ?c] obtain b' where
    "server_onMessage S T ?c b1 = (t_shutdown T (t_send T ?m ?c), b', [])"
    unfolding rejectAndClose_sends by blast
  moreover have c: "invar ?c" "t_connected T ?c"
    using send_all_connected [OF assms(2)] assms(3) by simp_all
  moreover have "outbox ?c = outbox conn @ concat (map (answer_frame S) fs)"
    using send_all [OF assms(1-3)] by blast
  moreover have "outbox (t_send T ?m ?c) = outbox ?c @ ?m" "invar (t_send T ?m ?c)"
    using assms(1) c by (simp_all add: send_outbox send_invar)
  ultimately show ?thesis using eq by (simp add: shutdown_closes shutdown_outbox)
qed

end

end
