(* ===== verification/Rpc_Service.thy ===== *)
theory Rpc_Service
  imports Rpc_Server
begin

section \<open>The RPC server on TCP connections\<close>

text \<open>
  The constructor of \<open>RpcServer\<close> installs \<open>onMessage\<close> as the message callback of every
  connection; \<open>server_callback\<close> is that callback on the model of \<open>TcpConnection\<close>, and
  \<open>server_reads\<close> a sequence of readable events, each bringing the given bytes. The lemmas of
  the server over an abstract transport apply through the interpretation \<open>tcp\<close>.
\<close>

definition server_callback :: "RpcServer \<Rightarrow> kernel \<Rightarrow> tcp_connection \<Rightarrow> tcp_connection" where
  "server_callback S k c =
     (case server_onMessage S (tcp_ops k) c (tc_input c) of (c', b, _) \<Rightarrow> c'\<lparr>tc_input := b\<rparr>)"

fun server_reads :: "RpcServer \<Rightarrow> kernel \<Rightarrow> bytes list \<Rightarrow> tcp_connection \<Rightarrow> tcp_connection option" where
  "server_reads S k [] c = Some c"
| "server_reads S k (chunk # chunks) c =
     (case handleRead (\<lambda>_. Inr chunk) (server_callback S k) c of
        None \<Rightarrow> None
      | Some c' \<Rightarrow> server_reads S k chunks c')"

lemma input_update [simp]:
  "outbox (c\<lparr>tc_input := b\<rparr>) = outbox c" "tcp_connected (c\<lparr>tc_input := b\<rparr>) = tcp_connected c"
  "buffer_inv b \<Longrightarrow> conn_inv c \<Longrightarrow> conn_inv (c\<lparr>tc_input := b\<rparr>)"
  by (simp_all add: outbox_def tcp_connected_def conn_inv_def life_calls_def)

lemma tcp_ops_connected [simp]: "t_connected (tcp_ops k) = tcp_connected"
  by (simp add: tcp_ops_def)

text \<open>A read that brings data appends it to the input buffer and runs the handler on the whole.\<close>

lemma handleRead_data:
  assumes "conn_inv c" and "chunk \<noteq> []"
  shows "\<exists>b. handleRead (\<lambda>_. Inr chunk) cb c = Some (cb (c\<lparr>tc_input := b\<rparr>))
    \<and> buffer_inv b \<and> contents b = contents (tc_input c) @ chunk"
proof -
  have "buffer_inv (tc_input c)" using assms(1) by (simp add: conn_inv_def)
  from readCore_Inr [OF this, of "\<lambda>_. Inr chunk" chunk] obtain b where
    "readCore (\<lambda>_. Inr chunk) (tc_input c) = (int (length chunk), None, b)" "buffer_inv b"
    "contents b = contents (tc_input c) @ chunk" by auto
  with assms(2) show ?thesis by (auto simp: handleRead_def Let_def)
qed

lemma parse_bytes_NeedMore_bound:
  "reader_inv fr \<Longrightarrow> parse_bytes fr xs = (NeedMore, xs) \<Longrightarrow> length xs < fr_maxFrameSize fr"
  by (auto simp: parse_bytes_def maxBodyOf_def reader_inv_def kHeaderSize_def Let_def
      split: if_splits option.splits)

text \<open>One read of servable frames.\<close>

lemma server_read_frames:
  assumes "conn_inv c" and "tcp_connected c" and "peer_alive k" and "chunk \<noteq> []"
    and "drain_bytes (sv_frameReader S) (contents (tc_input c) @ chunk) = (fs, NeedMore, rest)"
    and "list_all (servable S) fs" and "length rest \<le> input_limit S"
  shows "\<exists>c'. handleRead (\<lambda>_. Inr chunk) (server_callback S k) c = Some c' \<and> conn_inv c'
    \<and> tcp_connected c' \<and> outbox c' = outbox c @ concat (map (answer_frame S) fs)
    \<and> contents (tc_input c') = rest"
proof -
  from handleRead_data [OF assms(1,4), of "server_callback S k"] obtain b where
    h: "handleRead (\<lambda>_. Inr chunk) (server_callback S k) c = Some (server_callback S k (c\<lparr>tc_input := b\<rparr>))"
    and b: "buffer_inv b" "contents b = contents (tc_input c) @ chunk" by blast
  let ?c = "c\<lparr>tc_input := b\<rparr>"
  have d: "drain_bytes (sv_frameReader S) (contents b) = (fs, NeedMore, rest)" using assms(5) b(2) by simp
  have "conn_inv ?c" "t_connected (tcp_ops k) ?c" using assms(1,2) b(1) by simp_all
  from tcp.server_answers [OF assms(3) this b(1) d assms(6,7)] obtain c1 b1 where
    "server_onMessage S (tcp_ops k) ?c b = (c1, b1, concat (map (dispatched S) fs))"
    "conn_inv c1" "tcp_connected c1" "outbox c1 = outbox ?c @ concat (map (answer_frame S) fs)"
    "buffer_inv b1" "contents b1 = rest" by auto
  with h show ?thesis by (auto simp: server_callback_def)
qed

lemma server_reads_frames:
  assumes "conn_inv c" and "tcp_connected c" and "peer_alive k" and "[] \<notin> set chunks"
    and "reader_inv (sv_frameReader S)" and "fr_maxFrameSize (sv_frameReader S) \<le> input_limit S"
    and "parse_bytes (sv_frameReader S) (contents (tc_input c)) = (NeedMore, contents (tc_input c))"
    and "drain_bytes (sv_frameReader S) (contents (tc_input c) @ concat chunks) = (fs, NeedMore, rest)"
    and "list_all (servable S) fs"
  shows "\<exists>c'. server_reads S k chunks c = Some c' \<and> conn_inv c'
    \<and> tcp_connected c' \<and> outbox c' = outbox c @ concat (map (answer_frame S) fs)
    \<and> contents (tc_input c') = rest"
  using assms(1,2,4,7-9)
proof (induction chunks arbitrary: c fs)
  case Nil
  then show ?case by (auto simp: drain_bytes_stop)
next
  case (Cons chunk chunks)
  let ?fr = "sv_frameReader S" and ?xs = "contents (tc_input c) @ chunk"
  obtain fs1 e1 r1 where d1: "drain_bytes ?fr ?xs = (fs1, e1, r1)" by (cases "drain_bytes ?fr ?xs")
  note cut = drain_bytes_append [OF d1, of "concat chunks"]
  have ok: "e1 \<noteq> ProtocolError" using cut Cons.prems(5) by auto
  with drain_bytes_outcome [OF d1] have e1: "e1 = NeedMore" and p1: "parse_bytes ?fr r1 = (NeedMore, r1)"
    by auto
  obtain gs where d2: "drain_bytes ?fr (r1 @ concat chunks) = (gs, NeedMore, rest)" and fs: "fs = fs1 @ gs"
    using cut ok Cons.prems(5) by (auto split: prod.splits)
  have "length r1 \<le> input_limit S" using parse_bytes_NeedMore_bound [OF assms(5) p1] assms(6) by simp
  with server_read_frames [OF Cons.prems(1,2) assms(3), of chunk S fs1 r1] Cons.prems(3,6) d1 e1 fs
  obtain c1 where h: "handleRead (\<lambda>_. Inr chunk) (server_callback S k) c = Some c1"
    and c1: "conn_inv c1" "tcp_connected c1" "outbox c1 = outbox c @ concat (map (answer_frame S) fs1)"
      "contents (tc_input c1) = r1" by auto
  with Cons.IH [of c1 gs] Cons.prems(3,6) p1 d2 fs show ?case by auto
qed

subsection \<open>Refusals\<close>

context transport
begin

lemma send_all_refused: "invar c \<Longrightarrow> \<not> t_connected T c \<Longrightarrow> fold (t_send T) ms c = c"
  by (induction ms) (simp_all add: send_refused)

lemma server_frame_error:
  assumes "alive" and "invar conn" and "t_connected T conn" and "buffer_inv b"
    and "drain_bytes (sv_frameReader S) (contents b) = (fs, ProtocolError, rest)"
    and "list_all (servable S) fs"
  shows "\<exists>conn' b'. server_onMessage S T conn b = (conn', b', concat (map (dispatched S) fs))
    \<and> invar conn' \<and> \<not> t_connected T conn' \<and> buffer_inv b' \<and> contents b' = rest
    \<and> outbox conn' = outbox conn @ concat (map (answer_frame S) fs)
        @ (case decodeHeader rest of
             Some h \<Rightarrow> response_frame (mh_requestId h) (mkResponse kBodyTooLarge []) | None \<Rightarrow> [])"
proof -
  let ?c = "fold (t_send T) (map (answer_frame S) fs) conn"
  obtain b1 where b1: "buffer_inv b1" "contents b1 = rest"
    and eq: "server_onMessage S T conn b = (case server_onMessage S T ?c b1 of
         (conn', b'', calls) \<Rightarrow> (conn', b'', concat (map (dispatched S) fs) @ calls))"
    using server_onMessage_frames [OF assms(4-6), of T conn] by (elim exE conjE)
  have "parse_bytes (sv_frameReader S) (contents b1) = (ProtocolError, contents b1)"
    using drain_bytes_outcome [OF assms(5)] b1 by simp
  note e = server_onMessage_Error [OF b1(1) this, of T ?c]
  have c: "invar ?c" "t_connected T ?c" "outbox ?c = outbox conn @ concat (map (answer_frame S) fs)"
    using send_all_connected [OF assms(2)] send_all [OF assms(1-3)] assms(3) by simp_all
  show ?thesis
  proof (cases "decodeHeader rest")
    case None
    with e eq b1 c show ?thesis by (simp add: forceClose_invar forceClose_closes forceClose_outbox)
  next
    case (Some h)
    let ?m = "response_frame (mh_requestId h) (mkResponse kBodyTooLarge [])"
    have "outbox (t_send T ?m ?c) = outbox ?c @ ?m" "invar (t_send T ?m ?c)"
      using assms(1) c by (simp_all add: send_outbox send_invar)
    with Some e eq b1 c show ?thesis
      by (simp add: rejectAndClose_sends shutdown_invar shutdown_closes shutdown_outbox)
  qed
qed

text \<open>A request whose envelope does not decode is refused like a bad header, but the handler goes on
  with the frames behind it.\<close>

lemma server_malformed:
  assumes "invar conn" and "buffer_inv b"
    and "drain_bytes (sv_frameReader S) (contents b) = ((h, body) # fs, NeedMore, rest)"
    and "header_fault h = None" and "mh_serializerId h = sv_serializerId S"
    and "decodeRequest body = None" and "list_all (servable S) fs" and "length rest \<le> input_limit S"
  shows "\<exists>b'. server_onMessage S T conn b =
    (rejectAndClose T (mh_requestId h) kMalformedBody conn, b', concat (map (dispatched S) fs))"
proof -
  obtain r1 where p: "parse_bytes (sv_frameReader S) (contents b) = (ParseOk h body, r1)"
    and d: "drain_bytes (sv_frameReader S) r1 = (fs, NeedMore, rest)"
    using drain_bytes_Cons [OF assms(3)] by blast
  obtain b1 where "parse (sv_frameReader S) b = (ParseOk h body, b1)"
    and b1: "buffer_inv b1" "contents b1 = r1"
    using parse_refines [OF assms(2), of "sv_frameReader S"] p by (cases "parse (sv_frameReader S) b") auto
  let ?c = "rejectAndClose T (mh_requestId h) kMalformedBody conn"
  have first: "server_onMessage S T conn b = server_onMessage S T ?c b1"
    using assms(4-6) \<open>parse _ b = _\<close>
    by (subst server_onMessage.simps) (auto simp: header_fault_def handleRequest_def split: if_splits prod.splits)
  have c: "invar ?c" "\<not> t_connected T ?c"
    using assms(1) by (simp_all add: rejectAndClose_sends send_invar shutdown_invar shutdown_closes)
  have "drain_bytes (sv_frameReader S) (contents b1) = (fs, NeedMore, rest)" using d b1(2) by simp
  from server_onMessage_frames [OF b1(1) this assms(7), of T ?c] obtain b2 where
    b2: "buffer_inv b2" "contents b2 = rest" and eq: "server_onMessage S T ?c b1 =
      (case server_onMessage S T (fold (t_send T) (map (answer_frame S) fs) ?c) b2 of
         (conn', b'', calls) \<Rightarrow> (conn', b'', concat (map (dispatched S) fs) @ calls))"
    by (elim exE conjE)
  have "parse_bytes (sv_frameReader S) (contents b2) = (NeedMore, contents b2)"
    using drain_bytes_outcome [OF assms(3)] b2(2) by simp
  from server_onMessage_NeedMore [OF b2(1) this, of T ?c] b2(2) assms(8)
  have "server_onMessage S T ?c b2 = (?c, b2, [])" by simp
  with first eq send_all_refused [OF c] show ?thesis by simp
qed

end

text \<open>After the reader has given up on the stream, whatever arrives stays in the buffer.\<close>

lemma server_read_after_error:
  assumes "conn_inv c" and "\<not> tcp_connected c" and "chunk \<noteq> []"
    and "parse_bytes (sv_frameReader S) (contents (tc_input c)) = (ProtocolError, contents (tc_input c))"
    and "decodeHeader (contents (tc_input c)) = Some h"
  shows "\<exists>b. handleRead (\<lambda>_. Inr chunk) (server_callback S k) c = Some (c\<lparr>tc_input := b\<rparr>)
    \<and> buffer_inv b \<and> contents b = contents (tc_input c) @ chunk"
proof -
  from handleRead_data [OF assms(1,3), of "server_callback S k"] obtain b where
    h: "handleRead (\<lambda>_. Inr chunk) (server_callback S k) c = Some (server_callback S k (c\<lparr>tc_input := b\<rparr>))"
    and b: "buffer_inv b" "contents b = contents (tc_input c) @ chunk" by blast
  have "parse_bytes (sv_frameReader S) (contents b) = (ProtocolError, contents b)"
    using parse_bytes_Error_append [OF assms(4), of chunk] b(2) by simp
  note e = server_onMessage_Error [OF b(1) this, of "tcp_ops k"]
  have "decodeHeader (contents b) = Some h" using decodeHeader_Some_append [OF assms(5)] b(2) by simp
  moreover have "rejectAndClose (tcp_ops k) i st (c\<lparr>tc_input := b\<rparr>) = c\<lparr>tc_input := b\<rparr>" for i st
    using assms(2) by (simp add: rejectAndClose_sends tcp_ops_def tcp_send_def tcp_shutdown_def tcp_connected_def)
  ultimately show ?thesis using h b e by (auto simp: server_callback_def)
qed

lemma server_reads_after_error:
  assumes "conn_inv c" and "\<not> tcp_connected c" and "[] \<notin> set chunks"
    and "parse_bytes (sv_frameReader S) (contents (tc_input c)) = (ProtocolError, contents (tc_input c))"
    and "decodeHeader (contents (tc_input c)) = Some h"
  shows "\<exists>b. server_reads S k chunks c = Some (c\<lparr>tc_input := b\<rparr>)
    \<and> contents b = contents (tc_input c) @ concat chunks"
  using assms
proof (induction chunks arbitrary: c)
  case Nil
  show ?case by (auto intro: exI [of _ "tc_input c"])
next
  case (Cons chunk chunks)
  from server_read_after_error [OF Cons.prems(1,2) _ Cons.prems(4,5), of chunk k] Cons.prems(3)
  obtain b where b: "handleRead (\<lambda>_. Inr chunk) (server_callback S k) c = Some (c\<lparr>tc_input := b\<rparr>)"
    "buffer_inv b" "contents b = contents (tc_input c) @ chunk" by auto
  from Cons.IH [of "c\<lparr>tc_input := b\<rparr>"] b Cons.prems parse_bytes_Error_append [OF Cons.prems(4), of chunk]
    decodeHeader_Some_append [OF Cons.prems(5), of chunk]
  show ?case by auto
qed

subsection \<open>Properties\<close>

text \<open>C8: the server answers every request, in order, however the stream is cut. Let the bytes that
  arrive on an open connection, in any non-empty reads, be well-formed frames the server can
  serve followed by the beginning of another. Then the connection stays open, what it has
  accepted for the peer grows by exactly one response per request in the order of the requests,
  and the unfinished rest waits in the input buffer.\<close>

theorem server_answers_in_order:
  assumes "tcp_reachable k prog c" and "tcp_connected c" and "peer_alive k"
    and "contents (tc_input c) = []" and "[] \<notin> set chunks"
    and "reader_inv (sv_frameReader S)" and "fr_maxFrameSize (sv_frameReader S) \<le> input_limit S"
    and "concat chunks = concat (map encodeFrame fs) @ rest"
    and "list_all (frame_ok (sv_frameReader S)) fs" and "list_all (servable S) fs"
    and "parse_bytes (sv_frameReader S) rest = (NeedMore, rest)"
  shows "\<exists>c'. server_reads S k chunks c = Some c' \<and> tcp_connected c'
    \<and> outbox c' = outbox c @ concat (map (answer_frame S) fs) \<and> contents (tc_input c') = rest"
proof -
  have "parse_bytes (sv_frameReader S) [] = (NeedMore, [])" by (simp add: parse_bytes_def kHeaderSize_def)
  moreover have "drain_bytes (sv_frameReader S) (concat chunks) = (fs, NeedMore, rest)"
    using drain_bytes_frames [OF assms(9), of rest] assms(8,11) by (simp add: drain_bytes_stop)
  ultimately show ?thesis
    using server_reads_frames [OF reachable_inv [OF assms(1)] assms(2,3,5-7), of fs rest] assms(4,10)
    by auto
qed

definition echo_server :: RpcServer where
  "echo_server = server_start (newRpcServer\<lparr>sv_registry :=
     snd (registerMethod (ascii ''echo'') (ascii ''say'') (Some Some) newServiceRegistry)\<rparr>)"

definition echo_request :: Request where
  "echo_request = \<lparr>rq_service = ascii ''echo'', rq_method = ascii ''say'', rq_payload = ascii ''hi''\<rparr>"

definition echo_frame :: "u32 \<Rightarrow> frame" where
  "echo_frame i =
     (\<lparr>mh_magic = kMagic, mh_version = kVersion, mh_type = kRequest, mh_flags = 0, mh_status = kOk,
       mh_serializerId = kSerializerRaw, mh_requestId = i, mh_bodyLen = 13\<rparr>,
      the (encodeRequest echo_request))"

lemma echo_body: "encodeRequest echo_request = Some (snd (echo_frame i))" "length (snd (echo_frame i)) = 13"
  by (simp_all add: echo_frame_def encodeRequest_def echo_request_def nameFits_def kMaxNameLen_def
      kMaxBodyLen_def putU16_def)

lemma echo_frame_served:
  "frame_ok (sv_frameReader echo_server) (echo_frame i)" "servable echo_server (echo_frame i)"
  "answer_frame echo_server (echo_frame i) = response_frame i (mkResponse kOk (ascii ''hi''))"
proof -
  have d: "decodeRequest (snd (echo_frame i)) = Some echo_request"
    using echo_body(1) by (rule raw.dec_enc_req)
  have r: "run_request echo_server (fst (echo_frame i)) echo_request = mkResponse kOk (ascii ''hi'')"
    by (simp add: run_request_def echo_server_def server_start_def newRpcServer_def freeze_def
        registerMethod_def newServiceRegistry_def dispatch_def echo_request_def echo_frame_def
        mkResponse_def Let_def)
  have a: "answer echo_server (echo_frame i) = Some (mkResponse kOk (ascii ''hi''))"
    using d r by (cases "echo_frame i") (auto simp: echo_server_def server_start_def newRpcServer_def echo_frame_def)
  show "answer_frame echo_server (echo_frame i) = response_frame i (mkResponse kOk (ascii ''hi''))"
    using a by (simp add: answer_frame_def) (simp add: echo_frame_def)
  show "servable echo_server (echo_frame i)"
    using a unfolding echo_frame_def servable.simps
    by (simp add: mkResponse_def kMaxBodyLen_def del: answer.simps)
  show "frame_ok (sv_frameReader echo_server) (echo_frame i)"
    using echo_body(2) [of i] by (cases "echo_frame i")
      (auto simp: echo_frame_def maxBodyOf_def echo_server_def server_start_def newRpcServer_def
        newFrameReader_def setMaxFrameSize_def kDefaultMaxFrameSize_def kHeaderSize_def kMaxBodyLen_def)
qed

lemma echo_reader: "reader_inv (sv_frameReader echo_server)"
    "input_limit echo_server = fr_maxFrameSize (sv_frameReader echo_server)"
  by (simp_all add: echo_server_def server_start_def newRpcServer_def reader_inv_set input_limit_def)

lemma sample_input: "contents (tc_input sample_connection) = []" "outbox sample_connection = []"
  using sample_reachable(3,4)
  by (simp_all add: outbox_def, simp add: sample_connection_def connectEstablished_def
      newTcpConnection_def conn_defs Let_def buffer_simps split: prod.splits)

theorem server_answers_in_order_witness:
  "\<exists>c'. server_reads echo_server (\<lambda>_. Inr 1)
       [take 9 (encodeFrame (echo_frame 7)), drop 9 (encodeFrame (echo_frame 7)) @ encodeFrame (echo_frame 8)]
       sample_connection = Some c'
     \<and> outbox c' = response_frame 7 (mkResponse kOk (ascii ''hi'')) @ response_frame 8 (mkResponse kOk (ascii ''hi''))"
proof -
  let ?f = "\<lambda>i. encodeFrame (echo_frame i)"
  have l: "length (?f i) = 29" for i using echo_body(2) [of i] by (cases "echo_frame i") (simp add: kHeaderSize_def)
  then have "[] \<notin> set [take 9 (?f 7), drop 9 (?f 7) @ ?f 8]" by (auto dest: arg_cong [of _ _ length])
  moreover have "concat [take 9 (?f 7), drop 9 (?f 7) @ ?f 8] = concat (map encodeFrame [echo_frame 7, echo_frame 8]) @ []"
    by (simp add: append_assoc [symmetric] del: append_assoc)
  moreover have "peer_alive (\<lambda>_. Inr 1)" by (simp add: peer_alive_def)
  moreover have "parse_bytes (sv_frameReader echo_server) [] = (NeedMore, [])"
    by (simp add: parse_bytes_def kHeaderSize_def)
  ultimately show ?thesis
    using server_answers_in_order [OF sample_reachable(1,2) _ sample_input(1) _ echo_reader(1),
        where k = "\<lambda>_. Inr 1" and fs = "[echo_frame 7, echo_frame 8]" and rest = "[]"
          and chunks = "[take 9 (?f 7), drop 9 (?f 7) @ ?f 8]"]
    by (auto simp: echo_frame_served echo_reader sample_input simp del: encodeFrame.simps)
qed

text \<open>A policy violation ends the conversation with one error response. When a read completes
  servable frames followed by a frame of another version, a frame that is no request, or one
  with a flag set, the earlier requests are answered, the offending one gets the status that
  names its fault, and the connection is closed for writing; no handler runs for the offending
  frame or for what follows it in the same read.\<close>

theorem server_refuses_bad_header:
  assumes "tcp_reachable k prog c" and "tcp_connected c" and "peer_alive k" and "buffer_inv b"
    and "contents b = concat (map encodeFrame (fs @ [(h, body)])) @ rest"
    and "list_all (frame_ok (sv_frameReader S)) (fs @ [(h, body)])" and "list_all (servable S) fs"
    and "header_fault h = Some st"
  shows "\<exists>c' b'. server_onMessage S (tcp_ops k) c b = (c', b', concat (map (dispatched S) fs))
    \<and> \<not> tcp_connected c'
    \<and> outbox c' = outbox c @ concat (map (answer_frame S) fs)
        @ response_frame (mh_requestId h) (mkResponse st [])"
proof -
  obtain gs e r where "drain_bytes (sv_frameReader S) rest = (gs, e, r)"
    by (cases "drain_bytes (sv_frameReader S) rest")
  then have "drain_bytes (sv_frameReader S) (contents b) = (fs @ (h, body) # gs, e, r)"
    using drain_bytes_frames [OF assms(6), of rest] assms(5) by simp
  from tcp.server_refuses [OF assms(3) reachable_inv [OF assms(1)] _ assms(4) this assms(7,8)] assms(2)
  show ?thesis by simp
qed

theorem server_refuses_bad_header_witness:
  "\<exists>h c' b'. header_fault h = Some kUnsupportedFlag
     \<and> server_onMessage echo_server (tcp_ops (\<lambda>_. Inr 1)) sample_connection
         (buf_append (encodeFrame (h, [])) (newBuffer 8)) = (c', b', [])
     \<and> outbox c' = response_frame 3 (mkResponse kUnsupportedFlag [])"
proof -
  let ?h = "\<lparr>mh_magic = kMagic, mh_version = kVersion, mh_type = kRequest, mh_flags = 4, mh_status = kOk,
       mh_serializerId = kSerializerRaw, mh_requestId = 3, mh_bodyLen = 0\<rparr>"
  have f: "header_fault ?h = Some kUnsupportedFlag" by (simp add: header_fault_def)
  have ok: "list_all (frame_ok (sv_frameReader echo_server)) ([] @ [(?h, [])])" by simp
  have "peer_alive (\<lambda>_. Inr 1)" by (simp add: peer_alive_def)
  from server_refuses_bad_header [OF sample_reachable(1,2) this _ _ ok _ f,
      where b = "buf_append (encodeFrame (?h, [])) (newBuffer 8)" and rest = "[]"] f
  show ?thesis by (auto simp: buffer_simps sample_input simp del: encodeFrame.simps)
qed

text \<open>A framing error is answered when the header can be read and the connection is closed in
  either case. A declared body above the limit gets \<open>kBodyTooLarge\<close>, a stream without the magic
  gets nothing; the requests before the error are answered first.\<close>

theorem server_drops_bad_framing:
  assumes "tcp_reachable k prog c" and "tcp_connected c" and "peer_alive k" and "buffer_inv b"
    and "contents b = concat (map encodeFrame fs) @ rest"
    and "list_all (frame_ok (sv_frameReader S)) fs" and "list_all (servable S) fs"
    and "parse_bytes (sv_frameReader S) rest = (ProtocolError, rest)"
  shows "\<exists>c' b'. server_onMessage S (tcp_ops k) c b = (c', b', concat (map (dispatched S) fs))
    \<and> \<not> tcp_connected c'
    \<and> outbox c' = outbox c @ concat (map (answer_frame S) fs)
        @ (case decodeHeader rest of
             Some h \<Rightarrow> response_frame (mh_requestId h) (mkResponse kBodyTooLarge []) | None \<Rightarrow> [])"
proof -
  have "drain_bytes (sv_frameReader S) (contents b) = (fs, ProtocolError, rest)"
    using drain_bytes_frames [OF assms(6), of rest] assms(5,8) by (simp add: drain_bytes_stop)
  from tcp.server_frame_error [OF assms(3) reachable_inv [OF assms(1)] _ assms(4) this assms(7)] assms(2)
  show ?thesis by auto
qed

theorem server_drops_bad_framing_witness:
  "\<exists>c' b'. server_onMessage echo_server (tcp_ops (\<lambda>_. Inr 1)) sample_connection
         (buf_append (ascii ''GET / HTTP/1.1xxx'') (newBuffer 8)) = (c', b', [])
     \<and> \<not> tcp_connected c' \<and> outbox c' = []"
proof -
  let ?x = "ascii ''GET / HTTP/1.1xxx''"
  have d: "decodeHeader ?x = None" by (simp add: decodeHeader_Cons getU16_def kMagic_def)
  then have "parse_bytes (sv_frameReader echo_server) ?x = (ProtocolError, ?x)"
    by (simp add: parse_bytes_def kHeaderSize_def)
  moreover have "peer_alive (\<lambda>_. Inr 1)" by (simp add: peer_alive_def)
  ultimately show ?thesis
    using server_drops_bad_framing [OF sample_reachable(1,2), where k = "\<lambda>_. Inr 1"
        and b = "buf_append ?x (newBuffer 8)" and fs = "[]" and rest = ?x and S = echo_server] d
    by (auto simp: buffer_simps sample_input)
qed

text \<open>Nothing limits the input of a peer that was refused. Once a header with an oversized body
  is at the front of the input buffer and the connection is closing, every further read only
  makes the buffer longer, and the connection does nothing else, whatever the configured limits.\<close>

theorem server_buffers_after_refusal:
  assumes "tcp_reachable k prog c" and "\<not> tcp_connected c" and "[] \<notin> set chunks"
    and "decodeHeader (contents (tc_input c)) = Some h"
    and "maxBodyOf (sv_frameReader S) < unat (mh_bodyLen h)"
  shows "\<exists>b. server_reads S k chunks c = Some (c\<lparr>tc_input := b\<rparr>)
    \<and> length (contents b) = length (contents (tc_input c)) + length (concat chunks)"
proof -
  have "kHeaderSize \<le> length (contents (tc_input c))"
    using decodeHeader_short [of "contents (tc_input c)"] assms(4) by fastforce
  then have "parse_bytes (sv_frameReader S) (contents (tc_input c)) = (ProtocolError, contents (tc_input c))"
    using assms(4,5) by (simp add: parse_bytes_def)
  from server_reads_after_error [OF reachable_inv [OF assms(1)] assms(2,3) this assms(4), of k]
  show ?thesis by auto
qed

theorem server_buffers_after_refusal_witness:
  "\<exists>c h. decodeHeader (contents (tc_input c)) = Some h \<and>
     (\<exists>b. server_reads echo_server (\<lambda>_. Inr 1) [[1, 2, 3]] c = Some (c\<lparr>tc_input := b\<rparr>)
        \<and> length (contents b) = length (contents (tc_input c)) + 3)"
proof -
  let ?h = "\<lparr>mh_magic = kMagic, mh_version = kVersion, mh_type = kRequest, mh_flags = 0, mh_status = kOk,
       mh_serializerId = kSerializerRaw, mh_requestId = 3, mh_bodyLen = 0x7FFFFFFF\<rparr>"
  let ?k = "\<lambda>_. Inr 1 :: errno + nat" and ?p = "\<lambda>_. [UShutdown]" and ?rd = "\<lambda>_. Inr (encodeHeader ?h)"
  note inv = reachable_inv [OF sample_reachable(1)]
  have "encodeHeader ?h \<noteq> []" by (simp add: encodeHeader_def putU16_def)
  from handleRead_data [OF inv this] obtain b where
    r: "handleRead ?rd (user_callback ?k ?p) sample_connection
      = Some (user_callback ?k ?p (sample_connection\<lparr>tc_input := b\<rparr>))" "contents b = encodeHeader ?h"
    by (auto simp: sample_input)
  let ?c = "tcp_shutdown True (sample_connection\<lparr>tc_input := b\<rparr>)"
  have "ch_index (tc_channel sample_connection) = 1"
    using inv sample_reachable(2) by (auto simp: conn_inv_def tcp_connected_def)
  then have "tcp_reachable ?k ?p ?c"
    using r by (intro tcp_reachable.step [OF sample_reachable(1), where ev = "IO EPOLLIN ?rd"])
      (simp_all add: event_defs closes_twice_def tcp_handleEvent_def handleEventWithGuard_def user_callback_def)
  moreover have "\<not> tcp_connected ?c"
    using sample_reachable(2) by (simp add: tcp_shutdown_def tcp_connected_def shutdownInLoop_def Let_def)
  moreover have i: "tc_input ?c = b" by (simp add: tcp_shutdown_def shutdownInLoop_def Let_def)
  moreover have "decodeHeader (encodeHeader ?h) = Some ?h" by (simp add: decodeHeader_encodeHeader)
  moreover have "maxBodyOf (sv_frameReader echo_server) < unat (mh_bodyLen ?h)"
    by (simp add: maxBodyOf_def kMaxBodyLen_def)
  ultimately show ?thesis
    using server_buffers_after_refusal [of ?k ?p ?c "[[1, 2, 3]]" ?h echo_server] r(2)
    by (intro exI [of _ ?c] exI [of _ ?h]) (simp add: numeral_3_eq_3 del: server_reads.simps)
qed

text \<open>C36: a malformed envelope does not stop the handler. A request whose body does not decode is
  answered with \<open>kMalformedBody\<close> and the connection is closed for writing, but the frames that
  follow it in the same read are still dispatched to their methods; their responses go nowhere.\<close>

theorem server_dispatches_after_malformed:
  assumes "tcp_reachable k prog c" and "buffer_inv b"
    and "contents b = concat (map encodeFrame ((h, body) # fs)) @ rest"
    and "list_all (frame_ok (sv_frameReader S)) ((h, body) # fs)"
    and "header_fault h = None" and "mh_serializerId h = sv_serializerId S" and "decodeRequest body = None"
    and "list_all (servable S) fs" and "parse_bytes (sv_frameReader S) rest = (NeedMore, rest)"
    and "length rest \<le> input_limit S"
  shows "\<exists>b'. server_onMessage S (tcp_ops k) c b =
    (rejectAndClose (tcp_ops k) (mh_requestId h) kMalformedBody c, b', concat (map (dispatched S) fs))"
proof -
  have "drain_bytes (sv_frameReader S) (contents b) = ((h, body) # fs, NeedMore, rest)"
    using drain_bytes_frames [OF assms(4), of rest] assms(3,9) by (simp add: drain_bytes_stop)
  from tcp.server_malformed [OF reachable_inv [OF assms(1)] assms(2) this assms(5-8,10)] show ?thesis .
qed

theorem server_dispatches_after_malformed_witness:
  "\<exists>h b'. decodeRequest [] = None \<and> server_onMessage echo_server (tcp_ops (\<lambda>_. Inr 1)) sample_connection
       (buf_append (encodeFrame (h, []) @ encodeFrame (echo_frame 8)) (newBuffer 8))
     = (rejectAndClose (tcp_ops (\<lambda>_. Inr 1)) 7 kMalformedBody sample_connection, b', [echo_request])"
proof -
  let ?h = "\<lparr>mh_magic = kMagic, mh_version = kVersion, mh_type = kRequest, mh_flags = 0, mh_status = kOk,
       mh_serializerId = kSerializerRaw, mh_requestId = 7, mh_bodyLen = 0\<rparr>"
  let ?b = "buf_append (encodeFrame (?h, []) @ encodeFrame (echo_frame 8)) (newBuffer 8)"
  have "dispatched echo_server (echo_frame 8) = [echo_request]"
    using raw.dec_enc_req [OF echo_body(1) [of 8]]
    by (simp add: dispatched_def) (simp add: echo_frame_def echo_server_def server_start_def newRpcServer_def)
  moreover have "frame_ok (sv_frameReader echo_server) (?h, [])" by simp
  moreover have "header_fault ?h = None" "decodeRequest [] = None"
    by (simp_all add: header_fault_def decodeRequest_def)
  moreover have "parse_bytes (sv_frameReader echo_server) [] = (NeedMore, [])"
    by (simp add: parse_bytes_def kHeaderSize_def)
  moreover have "mh_serializerId ?h = sv_serializerId echo_server"
    by (simp add: echo_server_def server_start_def newRpcServer_def)
  ultimately show ?thesis
    using server_dispatches_after_malformed [OF sample_reachable(1), where k = "\<lambda>_. Inr 1" and b = ?b
        and h = ?h and body = "[]" and fs = "[echo_frame 8]" and S = echo_server and rest = "[]"]
    by (auto simp: echo_frame_served buffer_simps simp del: encodeFrame.simps)
qed

end
