(* ===== verification/Rpc_Client.thy ===== *)
theory Rpc_Client
  imports Rpc_Service "HOL-Library.Multiset"
begin

section \<open>The RPC client\<close>

text \<open>
  \<open>rpc/src/rpc_client.cpp\<close>. The record holds the members of the class. A call is known by a
  number; its completion is that number together with the user's reaction: the further calls
  the callback starts when it gets a response, each with its own completion. Reactions nest to
  a finite depth, so a callback that starts calls from within is run to its end, as in the
  code. \<open>rc_started\<close> and \<open>rc_log\<close> record the calls started and the completions run, \<open>rc_timers\<close>
  the timers armed on the loop with the request id of their closure. \<open>rc_connection\<close> is the
  state of the transport behind \<open>connection_\<close>. The \<open>unordered_map\<close> of pending calls is an
  association list; no statement below depends on its order. The table key and the field
  \<open>pc_id\<close> are the same number. A timeout matters only through \<open>timeoutSeconds > 0\<close>, the flag of a
  new call. \<^const>\<open>None\<close> is a handler that does not return, because every 32-bit id is taken, and in
  \<open>connect\<close> a failed assertion.
\<close>

subsection \<open>Calls and their completions\<close>

datatype completion = Completion nat "Response \<Rightarrow> (Request \<times> bool \<times> completion) list"

type_synonym new_call = "Request \<times> bool \<times> completion"

primrec callId :: "completion \<Rightarrow> nat" where
  "callId (Completion n f) = n"

primrec reaction :: "completion \<Rightarrow> Response \<Rightarrow> new_call list" where
  "reaction (Completion n f) = f"

definition promise_completion :: "nat \<Rightarrow> completion" where
  "promise_completion n = Completion n (\<lambda>_. [])"

record PendingCall =
  pc_id :: u32
  pc_complete :: completion
  pc_timer :: "nat option"

definition kMaxRememberedTimeouts :: nat where
  "kMaxRememberedTimeouts = 1024"

record 'c RpcClient =
  rc_frameReader :: FrameReader
  rc_serializerId :: byte
  rc_connection :: "'c option"
  rc_pendings :: "(u32 \<times> PendingCall) list"
  rc_timedOutIds :: "u32 list"
  rc_timedOutIdSet :: "u32 set"
  rc_nextRequestId :: u32
  rc_connected :: bool
  rc_everConnected :: bool
  rc_pendingConnect :: bool
  rc_timers :: "(nat \<times> u32) list"
  rc_nextTimer :: nat
  rc_started :: "nat list"
  rc_log :: "(nat \<times> Response) list"
  rc_connects :: "bool list"

definition newRpcClient :: "byte \<Rightarrow> 'c RpcClient" where
  "newRpcClient serializerId =
     \<lparr>rc_frameReader = newFrameReader kDefaultMaxFrameSize, rc_serializerId = serializerId,
      rc_connection = None, rc_pendings = [], rc_timedOutIds = [], rc_timedOutIdSet = {},
      rc_nextRequestId = 1, rc_connected = False, rc_everConnected = False, rc_pendingConnect = False,
      rc_timers = [], rc_nextTimer = 0, rc_started = [], rc_log = [], rc_connects = []\<rparr>"

definition connectionClosedResponse :: Response where
  "connectionClosedResponse = mkResponse kConnectionClosed []"

definition badRequestResponse :: Response where
  "badRequestResponse = mkResponse kBadRequest []"

definition timeoutResponse :: Response where
  "timeoutResponse = mkResponse kTimeout []"

subsection \<open>Request ids\<close>

partial_function (option) allocate_loop :: "(u32 \<Rightarrow> bool) \<Rightarrow> u32 \<Rightarrow> (u32 \<times> u32) option" where
  "allocate_loop used n = (if n \<noteq> 0 \<and> \<not> used n then Some (n, n + 1) else allocate_loop used (n + 1))"

definition id_used :: "'c RpcClient \<Rightarrow> u32 \<Rightarrow> bool" where
  "id_used st i \<longleftrightarrow> map_of (rc_pendings st) i \<noteq> None \<or> i \<in> rc_timedOutIdSet st"

definition allocateRequestId :: "'c RpcClient \<Rightarrow> (u32 \<times> 'c RpcClient) option" where
  "allocateRequestId st =
     (case allocate_loop (id_used st) (rc_nextRequestId st) of
        None \<Rightarrow> None
      | Some (i, n) \<Rightarrow> Some (i, st\<lparr>rc_nextRequestId := n\<rparr>))"

definition wasTimedOut :: "u32 \<Rightarrow> 'c RpcClient \<Rightarrow> bool" where
  "wasTimedOut i st \<longleftrightarrow> i \<in> rc_timedOutIdSet st"

definition rememberTimedOut :: "u32 \<Rightarrow> 'c RpcClient \<Rightarrow> 'c RpcClient" where
  "rememberTimedOut i st =
     (let st1 = (if card (rc_timedOutIdSet st) \<ge> kMaxRememberedTimeouts
                 then st\<lparr>rc_timedOutIdSet := rc_timedOutIdSet st - {hd (rc_timedOutIds st)},
                         rc_timedOutIds := tl (rc_timedOutIds st)\<rparr>
                 else st)
      in st1\<lparr>rc_timedOutIds := rc_timedOutIds st1 @ [i], rc_timedOutIdSet := insert i (rc_timedOutIdSet st1)\<rparr>)"

subsection \<open>Starting and completing calls\<close>

definition runAfter :: "u32 \<Rightarrow> 'c RpcClient \<Rightarrow> nat \<times> 'c RpcClient" where
  "runAfter i st =
     (rc_nextTimer st, st\<lparr>rc_nextTimer := rc_nextTimer st + 1, rc_timers := (rc_nextTimer st, i) # rc_timers st\<rparr>)"

definition cancelTimer :: "nat option \<Rightarrow> 'c RpcClient \<Rightarrow> 'c RpcClient" where
  "cancelTimer timer st =
     (case timer of
        None \<Rightarrow> st
      | Some t \<Rightarrow> st\<lparr>rc_timers := filter (\<lambda>(t', _). t' \<noteq> t) (rc_timers st)\<rparr>)"

definition requestHeader :: "byte \<Rightarrow> u32 \<Rightarrow> bytes \<Rightarrow> MessageHeader" where
  "requestHeader serializerId requestId body =
     \<lparr>mh_magic = kMagic, mh_version = kVersion, mh_type = kRequest, mh_flags = 0, mh_status = kOk,
      mh_serializerId = serializerId, mh_requestId = requestId, mh_bodyLen = of_nat (length body)\<rparr>"

definition send_request ::
  "'c transport_ops \<Rightarrow> u32 \<Rightarrow> bool \<Rightarrow> completion \<Rightarrow> bytes \<Rightarrow> 'c RpcClient \<Rightarrow> 'c RpcClient" where
  "send_request T requestId deadline complete body st =
     (let (timer, st1) = (if deadline then (case runAfter requestId st of (t, s) \<Rightarrow> (Some t, s)) else (None, st));
          st2 = st1\<lparr>rc_pendings := rc_pendings st1 @
                  [(requestId, \<lparr>pc_id = requestId, pc_complete = complete, pc_timer = timer\<rparr>)]\<rparr>;
          frame = encodeHeader (requestHeader (rc_serializerId st) requestId body) @ body
      in st2\<lparr>rc_connection := map_option (t_send T frame) (rc_connection st2)\<rparr>)"

fun fold_opt :: "('a \<Rightarrow> 's \<Rightarrow> 's option) \<Rightarrow> 'a list \<Rightarrow> 's \<Rightarrow> 's option" where
  "fold_opt f [] s = Some s"
| "fold_opt f (x # xs) s = (case f x s of None \<Rightarrow> None | Some s' \<Rightarrow> fold_opt f xs s')"

lemma fold_opt_cong [fundef_cong]:
  "xs = ys \<Longrightarrow> s = t \<Longrightarrow> (\<And>x u. x \<in> set ys \<Longrightarrow> f x u = g x u) \<Longrightarrow> fold_opt f xs s = fold_opt g ys t"
  by (induction xs arbitrary: ys s t) (auto split: option.splits)

definition sub_completion :: "(completion \<times> completion) set" where
  "sub_completion = {(c', c). \<exists>r q d. (q, d, c') \<in> set (reaction c r)}"

lemma sub_completionI: "(q, d, c') \<in> set (reaction c r) \<Longrightarrow> (c', c) \<in> sub_completion"
  by (auto simp: sub_completion_def)

lemma wf_sub_completion: "wf sub_completion"
proof (rule wfUNIVI)
  fix P c
  assume step: "\<forall>c. (\<forall>c'. (c', c) \<in> sub_completion \<longrightarrow> P c') \<longrightarrow> P c"
  show "P c"
  proof (induction c)
    case (Completion n f)
    have "P c'" if "(c', Completion n f) \<in> sub_completion" for c'
      using that Completion by (fastforce simp: sub_completion_def)
    then show ?case using step by blast
  qed
qed

function (sequential) complete_call ::
  "'c transport_ops \<Rightarrow> completion \<Rightarrow> Response \<Rightarrow> 'c RpcClient \<Rightarrow> 'c RpcClient option"
and startCallInLoop :: "'c transport_ops \<Rightarrow> new_call \<Rightarrow> 'c RpcClient \<Rightarrow> 'c RpcClient option" where
  "complete_call T c response st =
     fold_opt (startCallInLoop T) (reaction c response) (st\<lparr>rc_log := rc_log st @ [(callId c, response)]\<rparr>)"
| "startCallInLoop T (request, deadline, c) st0 =
     (let st = st0\<lparr>rc_started := rc_started st0 @ [callId c]\<rparr>
      in if rc_connection st = None \<or> \<not> rc_connected st then complete_call T c connectionClosedResponse st
         else case encodeRequest request of
           None \<Rightarrow> complete_call T c badRequestResponse st
         | Some body \<Rightarrow>
             (case allocateRequestId st of
                None \<Rightarrow> None
              | Some (requestId, st1) \<Rightarrow> Some (send_request T requestId deadline c body st1)))"
  by pat_completeness auto
termination complete_call
  by (relation "inv_image (sub_completion <*lex*> less_than)
      (case_sum (\<lambda>(T, c, _). (c, 0)) (\<lambda>(T, (_, _, c), _). (c, 1 :: nat)))")
    (auto simp: wf_sub_completion intro: sub_completionI)

declare complete_call.simps [simp del] startCallInLoop.simps [simp del]

subsection \<open>Handlers\<close>

definition failAllPending :: "'c transport_ops \<Rightarrow> 'c RpcClient \<Rightarrow> 'c RpcClient option" where
  "failAllPending T st =
     fold_opt (\<lambda>(i, pending) st. complete_call T (pc_complete pending) connectionClosedResponse
                 (cancelTimer (pc_timer pending) st))
       (rc_pendings st) (st\<lparr>rc_pendings := []\<rparr>)"

definition failConnection :: "'c transport_ops \<Rightarrow> 'c RpcClient \<Rightarrow> 'c RpcClient option" where
  "failConnection T st =
     (case failAllPending T st of
        None \<Rightarrow> None
      | Some st1 \<Rightarrow> Some (st1\<lparr>rc_connection := map_option (t_forceClose T) (rc_connection st1)\<rparr>))"

definition erase_pending :: "u32 \<Rightarrow> 'c RpcClient \<Rightarrow> 'c RpcClient" where
  "erase_pending i st = st\<lparr>rc_pendings := filter (\<lambda>(j, _). j \<noteq> i) (rc_pendings st)\<rparr>"

definition onTimeout :: "'c transport_ops \<Rightarrow> u32 \<Rightarrow> 'c RpcClient \<Rightarrow> 'c RpcClient option" where
  "onTimeout T i st =
     (case map_of (rc_pendings st) i of
        None \<Rightarrow> Some st
      | Some pending \<Rightarrow>
          complete_call T (pc_complete pending) timeoutResponse (rememberTimedOut i (erase_pending i st)))"

text \<open>The transport calls \<open>onConnection\<close> when it comes up (\<open>Some conn\<close>) and when it goes down.\<close>

definition resolve_connect :: "bool \<Rightarrow> 'c RpcClient \<Rightarrow> 'c RpcClient" where
  "resolve_connect ok st =
     (if rc_pendingConnect st then st\<lparr>rc_pendingConnect := False, rc_connects := rc_connects st @ [ok]\<rparr> else st)"

definition client_onConnection :: "'c transport_ops \<Rightarrow> 'c \<Rightarrow> 'c RpcClient \<Rightarrow> 'c RpcClient option" where
  "client_onConnection T conn st =
     (if t_connected T conn then
        Some (resolve_connect True (st\<lparr>rc_connection := Some conn, rc_connected := True, rc_everConnected := True\<rparr>))
      else case failAllPending T (st\<lparr>rc_connection := None, rc_connected := False\<rparr>) of
        None \<Rightarrow> None
      | Some st1 \<Rightarrow> Some (resolve_connect False st1))"

definition onConnectError :: "'c RpcClient \<Rightarrow> 'c RpcClient" where
  "onConnectError st = resolve_connect False st"

function client_onMessage ::
  "'c transport_ops \<Rightarrow> 'c RpcClient \<Rightarrow> buffer \<Rightarrow> ('c RpcClient \<times> buffer) option" where
  "client_onMessage T st buf =
     (case parse (rc_frameReader st) buf of
        (NeedMore, b) \<Rightarrow> Some (st, b)
      | (ProtocolError, b) \<Rightarrow> map_option (\<lambda>s. (s, b)) (failConnection T st)
      | (ParseOk header body, b) \<Rightarrow>
          (if mh_version header \<noteq> kVersion \<or> mh_type header \<noteq> kResponse \<or> mh_serializerId header \<noteq> rc_serializerId st
           then map_option (\<lambda>s. (s, b)) (failConnection T st)
           else case decodeResponse body
                  \<lparr>rs_status = mh_status header, rs_payload = [], rs_serializerId = mh_serializerId header\<rparr> of
             None \<Rightarrow> map_option (\<lambda>s. (s, b)) (failConnection T st)
           | Some response \<Rightarrow>
               (case map_of (rc_pendings st) (mh_requestId header) of
                  None \<Rightarrow>
                    (if wasTimedOut (mh_requestId header) st then client_onMessage T st b
                     else map_option (\<lambda>s. (s, b)) (failConnection T st))
                | Some pending \<Rightarrow>
                    (case complete_call T (pc_complete pending) response
                            (cancelTimer (pc_timer pending) (erase_pending (mh_requestId header) st)) of
                       None \<Rightarrow> None
                     | Some st1 \<Rightarrow> client_onMessage T st1 b))))"
  by pat_completeness auto
termination
  by (relation "measure (\<lambda>(T, st, buf). readableBytes buf)")
    (auto dest!: sym [THEN parse_Ok_shorter])

declare client_onMessage.simps [simp del]

definition AsyncCall :: "'c transport_ops \<Rightarrow> Request \<Rightarrow> completion \<Rightarrow> bool \<Rightarrow> 'c RpcClient \<Rightarrow> 'c RpcClient option" where
  "AsyncCall T request callback deadline st = startCallInLoop T (request, deadline, callback) st"

definition CallAsync :: "'c transport_ops \<Rightarrow> Request \<Rightarrow> nat \<Rightarrow> bool \<Rightarrow> 'c RpcClient \<Rightarrow> 'c RpcClient option" where
  "CallAsync T request promise deadline st = AsyncCall T request (promise_completion promise) deadline st"

definition client_connect :: "bool \<Rightarrow> 'c RpcClient \<Rightarrow> 'c RpcClient option" where
  "client_connect inLoop st =
     (if inLoop then None
      else if rc_connected st then Some st
      else if rc_everConnected st then None
      else if rc_pendingConnect st then None
      else Some (st\<lparr>rc_pendingConnect := True\<rparr>))"

text \<open>The blocking call, whose wait is not modelled, and the destructor. The latter fails what is pending
  and destroys the \<open>TcpClient\<close>, which reports an open connection as down while it still may; a closing
  connection is left to a queued functor.\<close>

definition client_Call :: "'c transport_ops \<Rightarrow> bool \<Rightarrow> Request \<Rightarrow> nat \<Rightarrow> bool \<Rightarrow> 'c RpcClient \<Rightarrow> 'c RpcClient option" where
  "client_Call T inLoop request promise deadline st =
     (if inLoop then None else CallAsync T request promise deadline st)"

definition rpcClient_destroy :: "'c transport_ops \<Rightarrow> 'c RpcClient \<Rightarrow> 'c RpcClient option" where
  "rpcClient_destroy T st =
     (case failAllPending T st of
        None \<Rightarrow> None
      | Some st1 \<Rightarrow>
          (case rc_connection st1 of
             None \<Rightarrow> Some st1
           | Some conn \<Rightarrow>
               if t_connected T conn then
                 map_option (resolve_connect False) (failAllPending T (st1\<lparr>rc_connection := None, rc_connected := False\<rparr>))
               else Some st1))"

subsection \<open>Allocation of request ids ends\<close>

lemma allocate_loop_Some:
  "allocate_loop used n = Some y \<Longrightarrow> fst y \<noteq> 0 \<and> \<not> used (fst y)"
  by (induction rule: allocate_loop.raw_induct [rotated 1, consumes 1]) (auto split: if_splits)

lemma allocate_loop_returns:
  assumes "n + of_nat k \<noteq> 0" and "\<not> used (n + of_nat k)"
  shows "\<exists>i m. allocate_loop used n = Some (i, m)"
  using assms
proof (induction k arbitrary: n)
  case 0
  then show ?case by (subst allocate_loop.simps) auto
next
  case (Suc k)
  then have "\<exists>i m. allocate_loop used (n + 1) = Some (i, m)" by (simp add: add.assoc)
  then show ?case by (subst allocate_loop.simps) auto
qed

lemma allocate_loop_total:
  assumes "card {i. i \<noteq> 0 \<and> used i} < 2 ^ 32 - 1"
  shows "\<exists>i m. allocate_loop used (n :: u32) = Some (i, m)"
proof -
  have "{i. i \<noteq> 0 \<and> used i} \<noteq> UNIV - {0}"
  proof
    assume "{i. i \<noteq> 0 \<and> used i} = UNIV - {0}"
    moreover have "card (UNIV - {0 :: u32}) = 2 ^ 32 - 1"
      by (simp add: card_Diff_singleton card_word)
    ultimately show False using assms by simp
  qed
  then obtain i where i: "i \<noteq> 0" "\<not> used i" by auto
  have "n + of_nat (unat (i - n)) = i" by simp
  with i allocate_loop_returns [of n "unat (i - n)" used] show ?thesis by metis
qed

subsection \<open>The invariant\<close>

definition ids_ok :: "'c RpcClient \<Rightarrow> bool" where
  "ids_ok st \<longleftrightarrow> distinct (map fst (rc_pendings st)) \<and> 0 \<notin> fst ` set (rc_pendings st)
     \<and> fst ` set (rc_pendings st) \<inter> rc_timedOutIdSet st = {}
     \<and> rc_timedOutIdSet st = set (rc_timedOutIds st) \<and> distinct (rc_timedOutIds st)
     \<and> 0 \<notin> rc_timedOutIdSet st \<and> length (rc_timedOutIds st) \<le> kMaxRememberedTimeouts"

fun timer_of :: "u32 \<times> PendingCall \<Rightarrow> (nat \<times> u32) list" where
  "timer_of (i, p) = (case pc_timer p of None \<Rightarrow> [] | Some t \<Rightarrow> [(t, i)])"

definition pending_timers :: "(u32 \<times> PendingCall) list \<Rightarrow> (nat \<times> u32) list" where
  "pending_timers ps = concat (map timer_of ps)"

definition timers_ok :: "(nat \<times> u32) list \<Rightarrow> 'c RpcClient \<Rightarrow> bool" where
  "timers_ok ts st \<longleftrightarrow> set (rc_timers st) = set (pending_timers (rc_pendings st) @ ts)
     \<and> distinct (map fst (pending_timers (rc_pendings st) @ ts))
     \<and> (\<forall>t \<in> fst ` set (rc_timers st). t < rc_nextTimer st)"

definition pending_calls :: "(u32 \<times> PendingCall) list \<Rightarrow> nat list" where
  "pending_calls ps = map (\<lambda>(_, p). callId (pc_complete p)) ps"

definition calls_ok :: "nat multiset \<Rightarrow> 'c RpcClient \<Rightarrow> bool" where
  "calls_ok ex st \<longleftrightarrow>
     mset (rc_started st) = mset (map fst (rc_log st)) + mset (pending_calls (rc_pendings st)) + ex"

definition client_ok :: "(nat \<times> u32) list \<Rightarrow> nat multiset \<Rightarrow> 'c RpcClient \<Rightarrow> bool" where
  "client_ok ts ex st \<longleftrightarrow> ids_ok st \<and> timers_ok ts st \<and> calls_ok ex st"

lemmas client_defs = client_ok_def ids_ok_def timers_ok_def calls_ok_def

lemma pending_simps [simp]:
  "pending_timers [] = []" "pending_timers (x # ps) = timer_of x @ pending_timers ps"
  "pending_timers (ps @ qs) = pending_timers ps @ pending_timers qs"
  "pending_calls [] = []" "pending_calls (x # ps) = callId (pc_complete (snd x)) # pending_calls ps"
  "pending_calls (ps @ qs) = pending_calls ps @ pending_calls qs"
  by (simp_all add: pending_timers_def pending_calls_def split_def)

lemma client_frame [simp]:
  "ids_ok (st\<lparr>rc_log := l\<rparr>) = ids_ok st" "timers_ok ts (st\<lparr>rc_log := l\<rparr>) = timers_ok ts st"
  "ids_ok (st\<lparr>rc_started := ns\<rparr>) = ids_ok st" "timers_ok ts (st\<lparr>rc_started := ns\<rparr>) = timers_ok ts st"
  "ids_ok (st\<lparr>rc_connection := x\<rparr>) = ids_ok st" "timers_ok ts (st\<lparr>rc_connection := x\<rparr>) = timers_ok ts st"
  "calls_ok ex (st\<lparr>rc_connection := x\<rparr>) = calls_ok ex st"
  "ids_ok (st\<lparr>rc_connected := b\<rparr>) = ids_ok st" "timers_ok ts (st\<lparr>rc_connected := b\<rparr>) = timers_ok ts st"
  "calls_ok ex (st\<lparr>rc_connected := b\<rparr>) = calls_ok ex st"
  "ids_ok (st\<lparr>rc_nextRequestId := n\<rparr>) = ids_ok st" "timers_ok ts (st\<lparr>rc_nextRequestId := n\<rparr>) = timers_ok ts st"
  "calls_ok ex (st\<lparr>rc_nextRequestId := n\<rparr>) = calls_ok ex st"
  "ids_ok (st\<lparr>rc_timers := tm\<rparr>) = ids_ok st" "calls_ok ex (st\<lparr>rc_timers := tm\<rparr>) = calls_ok ex st"
  by (simp_all add: ids_ok_def timers_ok_def calls_ok_def)

lemma log_ok:
  "client_ok ts (add_mset (callId c) ex) st \<Longrightarrow>
     client_ok ts ex (st\<lparr>rc_log := rc_log st @ [(callId c, r)]\<rparr>)"
  by (simp add: client_ok_def calls_ok_def)

lemma started_ok:
  "client_ok ts ex st \<Longrightarrow> client_ok ts (add_mset n ex) (st\<lparr>rc_started := rc_started st @ [n]\<rparr>)"
  by (simp add: client_ok_def calls_ok_def)

lemma allocateRequestId_ok:
  assumes "client_ok ts ex st" and "allocateRequestId st = Some (i, st')"
  shows "client_ok ts ex st' \<and> i \<noteq> 0 \<and> i \<notin> fst ` set (rc_pendings st') \<and> i \<notin> rc_timedOutIdSet st'"
proof -
  obtain n where "allocate_loop (id_used st) (rc_nextRequestId st) = Some (i, n)"
    and st': "st' = st\<lparr>rc_nextRequestId := n\<rparr>"
    using assms(2) by (auto simp: allocateRequestId_def split: option.splits)
  from allocate_loop_Some [OF this(1)] have "i \<noteq> 0" "\<not> id_used st i" by auto
  with assms(1) show ?thesis by (simp add: st' id_used_def client_ok_def map_of_eq_None_iff)
qed

lemma send_request_ok:
  assumes "client_ok ts (add_mset (callId c) ex) st" and "i \<noteq> 0"
    and "i \<notin> fst ` set (rc_pendings st)" and "i \<notin> rc_timedOutIdSet st"
  shows "client_ok ts ex (send_request T i d c body st)"
proof -
  have lt: "\<forall>t \<in> fst ` set (pending_timers (rc_pendings st)) \<union> fst ` set ts. t < rc_nextTimer st"
    using assms(1) by (simp add: client_ok_def timers_ok_def ball_Un)
  then have t: "rc_nextTimer st \<notin> fst ` set (pending_timers (rc_pendings st))" "rc_nextTimer st \<notin> fst ` set ts"
    by blast+
  have "ids_ok (send_request T i d c body st)"
    using assms by (auto simp: client_ok_def ids_ok_def send_request_def runAfter_def Let_def)
  moreover have "calls_ok ex (send_request T i d c body st)"
    using assms(1) by (simp add: client_ok_def calls_ok_def send_request_def runAfter_def Let_def)
  moreover have "timers_ok ts (send_request T i d c body st)"
    using assms(1) t lt by (cases d) (auto simp: client_ok_def timers_ok_def send_request_def runAfter_def
        Let_def less_Suc_eq)
  ultimately show ?thesis by (simp add: client_ok_def)
qed

lemma fold_opt_invariant:
  assumes "\<And>x s s'. x \<in> set xs \<Longrightarrow> P s \<Longrightarrow> f x s = Some s' \<Longrightarrow> P s'" and "P s" and "fold_opt f xs s = Some s'"
  shows "P s'"
  using assms by (induction xs arbitrary: s) (auto split: option.splits)

lemma complete_start_ok:
  shows "client_ok ts (add_mset (callId c) ex) st \<Longrightarrow> complete_call T c r st = Some st' \<Longrightarrow> client_ok ts ex st'"
    and "client_ok ts ex st \<Longrightarrow> startCallInLoop T nc st = Some st' \<Longrightarrow> client_ok ts ex st'"
proof (induction T c r st and T nc st arbitrary: ex st' and ex st' rule: complete_call_startCallInLoop.induct)
  case (1 T c r st)
  have f: "fold_opt (startCallInLoop T) (reaction c r) (st\<lparr>rc_log := rc_log st @ [(callId c, r)]\<rparr>) = Some st'"
    using 1(3) by (simp add: complete_call.simps)
  show ?case
    by (rule fold_opt_invariant [where P = "client_ok ts ex", OF _ log_ok [OF 1(2)] f]) (rule 1(1))
next
  case (2 T request deadline c st0)
  let ?st = "st0\<lparr>rc_started := rc_started st0 @ [callId c]\<rparr>"
  note st = started_ok [OF 2(3), of "callId c"]
  show ?case
  proof (cases "rc_connection ?st = None \<or> \<not> rc_connected ?st")
    case True
    then have "complete_call T c connectionClosedResponse ?st = Some st'"
      using 2(4) by (simp add: startCallInLoop.simps Let_def)
    with 2(1) [OF refl True st] show ?thesis by blast
  next
    case False
    show ?thesis
    proof (cases "encodeRequest request")
      case None
      then have "complete_call T c badRequestResponse ?st = Some st'"
        using 2(4) False by (auto simp: startCallInLoop.simps Let_def)
      with 2(2) [OF refl False None st] show ?thesis by blast
    next
      case (Some body)
      then obtain i st1 where a: "allocateRequestId ?st = Some (i, st1)"
        and s: "st' = send_request T i deadline c body st1"
        using 2(4) False by (auto simp: startCallInLoop.simps Let_def split: option.splits)
      from allocateRequestId_ok [OF st a] show ?thesis unfolding s by (intro send_request_ok) simp_all
    qed
  qed
qed

lemmas complete_call_ok = complete_start_ok(1) and startCallInLoop_ok = complete_start_ok(2)

text \<open>A call that is taken out of the table is in hand, and so is its timer.\<close>

lemma filter_pending:
  assumes "distinct (map fst ps)" and "map_of ps i = Some p"
  shows "\<exists>as bs. ps = as @ (i, p) # bs \<and> filter (\<lambda>(j, _). j \<noteq> i) ps = as @ bs"
  using assms
proof (induction ps)
  case (Cons x ps)
  obtain j q where x: "x = (j, q)" by (cases x)
  show ?case
  proof (cases "j = i")
    case True
    with Cons.prems x have "q = p" and "i \<notin> fst ` set ps" by auto
    then have "filter (\<lambda>(j, _). j \<noteq> i) ps = ps" by (force intro: filter_True)
    with True x \<open>q = p\<close> have "x # ps = [] @ (i, p) # ps \<and> filter (\<lambda>(j, _). j \<noteq> i) (x # ps) = [] @ ps" by simp
    then show ?thesis by blast
  next
    case False
    with Cons x obtain as bs where "ps = as @ (i, p) # bs" "filter (\<lambda>(j, _). j \<noteq> i) ps = as @ bs" by auto
    with False x have "x # ps = (x # as) @ (i, p) # bs \<and> filter (\<lambda>(j, _). j \<noteq> i) (x # ps) = (x # as) @ bs"
      by simp
    then show ?thesis by blast
  qed
qed simp

lemma erase_pending_ok:
  assumes "client_ok ts ex st" and "map_of (rc_pendings st) i = Some p"
  shows "client_ok (timer_of (i, p) @ ts) (add_mset (callId (pc_complete p)) ex) (erase_pending i st)"
    and "i \<notin> fst ` set (rc_pendings (erase_pending i st))" and "i \<noteq> 0"
    and "i \<notin> rc_timedOutIdSet (erase_pending i st)"
proof -
  have "distinct (map fst (rc_pendings st))" using assms(1) by (simp add: client_ok_def ids_ok_def)
  from filter_pending [OF this assms(2)] obtain as bs where
    ps: "rc_pendings st = as @ (i, p) # bs" and e: "rc_pendings (erase_pending i st) = as @ bs"
    by (auto simp: erase_pending_def)
  have o: "rc_timedOutIdSet (erase_pending i st) = rc_timedOutIdSet st"
    "rc_timedOutIds (erase_pending i st) = rc_timedOutIds st" "rc_timers (erase_pending i st) = rc_timers st"
    "rc_nextTimer (erase_pending i st) = rc_nextTimer st" "rc_log (erase_pending i st) = rc_log st"
    "rc_started (erase_pending i st) = rc_started st" by (simp_all add: erase_pending_def)
  have ids: "ids_ok (erase_pending i st)" using assms(1) by (auto simp: client_ok_def ids_ok_def ps e o)
  moreover have "timers_ok (timer_of (i, p) @ ts) (erase_pending i st)"
    using assms(1) by (simp add: client_ok_def timers_ok_def ps e o ball_Un image_Un Un_ac Int_Un_distrib
        Int_Un_distrib2 Int_commute del: timer_of.simps)
  moreover have "calls_ok (add_mset (callId (pc_complete p)) ex) (erase_pending i st)"
    using assms(1) by (simp add: client_ok_def calls_ok_def ps e o)
  ultimately show "client_ok (timer_of (i, p) @ ts) (add_mset (callId (pc_complete p)) ex) (erase_pending i st)"
    by (simp add: client_ok_def)
  show "i \<notin> fst ` set (rc_pendings (erase_pending i st))" "i \<noteq> 0" "i \<notin> rc_timedOutIdSet (erase_pending i st)"
    using assms(1) by (auto simp: client_ok_def ids_ok_def ps e o)
qed

lemma cancelTimer_ok:
  assumes "client_ok (timer_of (i, p) @ ts) ex st"
  shows "client_ok ts ex (cancelTimer (pc_timer p) st)"
proof (cases "pc_timer p")
  case None
  with assms show ?thesis by (simp add: cancelTimer_def)
next
  case (Some t)
  let ?P = "pending_timers (rc_pendings st)"
  have s: "set (rc_timers st) = insert (t, i) (set ?P \<union> set ts)" and d: "distinct (map fst (?P @ ts))"
    and t: "t \<notin> fst ` (set ?P \<union> set ts)"
    using assms Some by (simp_all add: client_ok_def timers_ok_def image_Un)
  have n: "\<forall>t \<in> fst ` set (rc_timers st). t < rc_nextTimer st"
    using assms unfolding client_ok_def timers_ok_def by blast
  have "{x \<in> set (rc_timers st). fst x \<noteq> t} = set ?P \<union> set ts" using s t by (auto simp: image_iff)
  then have "timers_ok ts (cancelTimer (Some t) st)"
    using d n by (auto simp: timers_ok_def cancelTimer_def split_def)
  with assms Some show ?thesis by (simp add: client_ok_def cancelTimer_def)
qed

lemma rememberTimedOut_ok:
  assumes "client_ok ts ex st" and "i \<noteq> 0" and "i \<notin> fst ` set (rc_pendings st)" and "i \<notin> rc_timedOutIdSet st"
  shows "client_ok ts ex (rememberTimedOut i st)"
proof -
  have c: "card (rc_timedOutIdSet st) = length (rc_timedOutIds st)"
    using assms(1) by (simp add: client_ok_def ids_ok_def distinct_card)
  have "ids_ok (rememberTimedOut i st)"
    using assms c by (cases "rc_timedOutIds st")
      (auto simp: client_ok_def ids_ok_def rememberTimedOut_def kMaxRememberedTimeouts_def Let_def)
  then show ?thesis
    using assms(1) by (simp add: client_ok_def timers_ok_def calls_ok_def rememberTimedOut_def Let_def)
qed

lemma fail_loop_ok:
  assumes "client_ok (pending_timers ps @ ts) (mset (pending_calls ps) + ex) st"
    and "fold_opt (\<lambda>(i, pending) st. complete_call T (pc_complete pending) connectionClosedResponse
                 (cancelTimer (pc_timer pending) st)) ps st = Some st'"
  shows "client_ok ts ex st'"
  using assms
proof (induction ps arbitrary: st)
  case (Cons x ps)
  obtain i p where x: "x = (i, p)" by (cases x)
  obtain st1 where c: "complete_call T (pc_complete p) connectionClosedResponse
      (cancelTimer (pc_timer p) st) = Some st1"
    and f: "fold_opt (\<lambda>(i, pending) st. complete_call T (pc_complete pending) connectionClosedResponse
                 (cancelTimer (pc_timer pending) st)) ps st1 = Some st'"
    using Cons.prems(2) x by (auto split: option.splits)
  have "client_ok (pending_timers ps @ ts) (add_mset (callId (pc_complete p)) (mset (pending_calls ps) + ex))
      (cancelTimer (pc_timer p) st)"
    by (rule cancelTimer_ok [of i]) (use Cons.prems(1) x in \<open>simp del: timer_of.simps\<close>)
  from Cons.IH [OF complete_call_ok [OF this c] f] show ?case .
qed simp

lemma failAllPending_ok:
  assumes "client_ok [] {#} st" and "failAllPending T st = Some st'"
  shows "client_ok [] {#} st'"
proof (rule fail_loop_ok [OF _ assms(2) [unfolded failAllPending_def]])
  have "ids_ok (st\<lparr>rc_pendings := []\<rparr>)" using assms(1) by (auto simp: client_ok_def ids_ok_def)
  then show "client_ok (pending_timers (rc_pendings st) @ []) (mset (pending_calls (rc_pendings st)) + {#})
      (st\<lparr>rc_pendings := []\<rparr>)"
    using assms(1) by (simp add: client_ok_def timers_ok_def calls_ok_def)
qed

lemma client_ok_connection [simp]:
  "client_ok ts ex (st\<lparr>rc_connection := x\<rparr>) = client_ok ts ex st"
  "client_ok ts ex (st\<lparr>rc_connection := x, rc_connected := b\<rparr>) = client_ok ts ex st"
  by (simp_all add: client_ok_def)

lemma failConnection_ok: "client_ok [] {#} st \<Longrightarrow> failConnection T st = Some st' \<Longrightarrow> client_ok [] {#} st'"
  by (auto simp: failConnection_def split: option.splits dest: failAllPending_ok)

lemma client_onMessage_ok:
  "client_ok [] {#} st \<Longrightarrow> client_onMessage T st b = Some (st', b') \<Longrightarrow> client_ok [] {#} st'"
proof (induction T st b arbitrary: st' b' rule: client_onMessage.induct)
  case (1 T st buf)
  show ?case
  proof (cases "\<exists>h body b. parse (rc_frameReader st) buf = (ParseOk h body, b)")
    case False
    then show ?thesis
      using 1(3,4) by (subst (asm) client_onMessage.simps)
        (auto split: prod.splits ParseResult.splits intro: failConnection_ok)
  next
    case True
    then obtain h body b where p: "parse (rc_frameReader st) buf = (ParseOk h body, b)" by blast
    let ?ok = "\<not> (mh_version h \<noteq> kVersion \<or> mh_type h \<noteq> kResponse \<or> mh_serializerId h \<noteq> rc_serializerId st)"
    let ?resp = "decodeResponse body \<lparr>rs_status = mh_status h, rs_payload = [], rs_serializerId = mh_serializerId h\<rparr>"
    show ?thesis
    proof (cases "?ok \<and> ?resp \<noteq> None")
      case False
      then show ?thesis
        using 1(3,4) p by (subst (asm) client_onMessage.simps) (auto split: if_splits intro: failConnection_ok)
    next
      case True
      then obtain r where r: "?resp = Some r" and ok: "?ok" by blast
      show ?thesis
      proof (cases "map_of (rc_pendings st) (mh_requestId h)")
        case None
        then show ?thesis
          using 1(1) [OF p [symmetric] refl ok r None] 1(3,4) p r ok
          by (subst (asm) client_onMessage.simps) (auto split: if_splits intro: failConnection_ok)
      next
        case (Some q)
        let ?st = "cancelTimer (pc_timer q) (erase_pending (mh_requestId h) st)"
        obtain st1 where c: "complete_call T (pc_complete q) r ?st = Some st1"
          and m: "client_onMessage T st1 b = Some (st', b')"
          using 1(4) p r ok Some by (subst (asm) client_onMessage.simps) (auto split: option.splits)
        have "client_ok [] (add_mset (callId (pc_complete q)) {#}) ?st"
          by (rule cancelTimer_ok [OF erase_pending_ok(1) [OF 1(3) Some]])
        from 1(2) [OF p [symmetric] refl ok r Some c complete_call_ok [OF this c] m] show ?thesis .
      qed
    qed
  qed
qed

end
