(* ===== verification/Rpc_Client_Runs.thy ===== *)
theory Rpc_Client_Runs
  imports Rpc_Client
begin

section \<open>Runs of the RPC client\<close>

text \<open>
  The client as a state machine: the events the loop, the network and the user can cause, in any
  order, the invariant of every reachable state, and what a stream of responses does.
\<close>

subsection \<open>Runs of a client\<close>

datatype 'c client_event =
    StartConnect bool
  | StartCall new_call
  | ConnectionEvent 'c
  | ConnectFailed
  | Message buffer
  | TimerFires nat
  | Destroy

fun client_step :: "'c transport_ops \<Rightarrow> 'c client_event \<Rightarrow> 'c RpcClient \<Rightarrow> 'c RpcClient option" where
  "client_step T (StartConnect inLoop) st = client_connect inLoop st"
| "client_step T (StartCall nc) st = startCallInLoop T nc st"
| "client_step T (ConnectionEvent conn) st = client_onConnection T conn st"
| "client_step T ConnectFailed st = Some (onConnectError st)"
| "client_step T (Message b) st = map_option fst (client_onMessage T st b)"
| "client_step T (TimerFires t) st =
     (case map_of (rc_timers st) t of
        None \<Rightarrow> Some st
      | Some i \<Rightarrow> onTimeout T i (cancelTimer (Some t) st))"
| "client_step T Destroy st = rpcClient_destroy T st"

inductive client_reachable :: "'c transport_ops \<Rightarrow> 'c RpcClient \<Rightarrow> bool" for T where
  start: "client_reachable T (newRpcClient serializerId)"
| step: "client_reachable T st \<Longrightarrow> client_step T ev st = Some st' \<Longrightarrow> client_reachable T st'"

lemma armed_pending:
  assumes "client_ok [] ex st" and "(t, i) \<in> set (rc_timers st)"
  shows "\<exists>p. map_of (rc_pendings st) i = Some p \<and> pc_timer p = Some t"
proof -
  have "(t, i) \<in> set (pending_timers (rc_pendings st))" and "distinct (map fst (rc_pendings st))"
    using assms by (auto simp: client_ok_def timers_ok_def ids_ok_def)
  then show ?thesis by (fastforce simp: pending_timers_def split: option.splits)
qed

lemma timer_fires_ok:
  assumes "client_ok [] {#} st" and "map_of (rc_timers st) t = Some i"
    and "onTimeout T i (cancelTimer (Some t) st) = Some st'"
  shows "client_ok [] {#} st'"
proof -
  obtain p where p: "map_of (rc_pendings st) i = Some p" "pc_timer p = Some t"
    using armed_pending [OF assms(1) map_of_SomeD [OF assms(2)]] by blast
  note e = erase_pending_ok [OF assms(1) p(1)]
  let ?st = "cancelTimer (Some t) (erase_pending i st)"
  have "client_ok [] (add_mset (callId (pc_complete p)) {#}) ?st"
    using cancelTimer_ok [OF e(1)] p(2) by simp
  then have "client_ok [] (add_mset (callId (pc_complete p)) {#}) (rememberTimedOut i ?st)"
    using e(2-4) by (intro rememberTimedOut_ok) (simp_all add: cancelTimer_def)
  moreover have "complete_call T (pc_complete p) timeoutResponse (rememberTimedOut i ?st) = Some st'"
    using assms(3) p(1) by (cases st) (simp add: onTimeout_def cancelTimer_def erase_pending_def)
  ultimately show ?thesis by (rule complete_call_ok)
qed

lemma client_ok_flags [simp]:
  "client_ok ts ex (st\<lparr>rc_pendingConnect := b\<rparr>) = client_ok ts ex st"
  "client_ok ts ex (st\<lparr>rc_everConnected := b\<rparr>) = client_ok ts ex st"
  "client_ok ts ex (st\<lparr>rc_connects := bs\<rparr>) = client_ok ts ex st"
  "client_ok ts ex (st\<lparr>rc_connected := b\<rparr>) = client_ok ts ex st"
  by (simp_all add: client_ok_def ids_ok_def timers_ok_def calls_ok_def)

lemma resolve_connect_ok [simp]: "client_ok ts ex (resolve_connect b st) = client_ok ts ex st"
  by (simp add: resolve_connect_def)

lemma rpcClient_destroy_ok:
  "client_ok [] {#} st \<Longrightarrow> rpcClient_destroy T st = Some st' \<Longrightarrow> client_ok [] {#} st'"
proof -
  assume ok: "client_ok [] {#} st" and "rpcClient_destroy T st = Some st'"
  then obtain st1 where 1: "failAllPending T st = Some st1"
    and "st' = st1 \<or> (\<exists>st2. failAllPending T (st1\<lparr>rc_connection := None, rc_connected := False\<rparr>) = Some st2
      \<and> st' = resolve_connect False st2)"
    by (auto simp: rpcClient_destroy_def split: option.splits if_splits)
  moreover have "client_ok [] {#} st1" using ok 1 by (rule failAllPending_ok)
  moreover from this have "client_ok [] {#} (st1\<lparr>rc_connection := None, rc_connected := False\<rparr>)" by simp
  ultimately show ?thesis using failAllPending_ok [of "st1\<lparr>rc_connection := None, rc_connected := False\<rparr>"] by fastforce
qed

lemma client_step_ok:
  assumes "client_ok [] {#} st" and "client_step T ev st = Some st'"
  shows "client_ok [] {#} st'"
proof (cases ev)
  case (StartConnect inLoop)
  with assms show ?thesis
    by (auto simp: client_connect_def split: if_splits)
next
  case (ConnectionEvent conn)
  with assms show ?thesis
    by (auto simp: client_onConnection_def split: if_splits option.splits dest: failAllPending_ok [rotated])
next
  case (Message b)
  with assms client_onMessage_ok show ?thesis by fastforce
next
  case (TimerFires t)
  with assms timer_fires_ok show ?thesis by (auto split: option.splits)
qed (use assms in \<open>auto simp: onConnectError_def intro: startCallInLoop_ok rpcClient_destroy_ok\<close>)

lemma client_reachable_ok: "client_reachable T st \<Longrightarrow> client_ok [] {#} st"
proof (induction rule: client_reachable.induct)
  case (start serializerId)
  show ?case by (simp add: newRpcClient_def client_ok_def ids_ok_def timers_ok_def calls_ok_def)
qed (rule client_step_ok)

subsection \<open>Without a connection\<close>

lemma fold_opt_total:
  assumes "\<And>x s. x \<in> set xs \<Longrightarrow> P s \<Longrightarrow> \<exists>s'. f x s = Some s' \<and> P s'" and "P s"
  shows "\<exists>s'. fold_opt f xs s = Some s' \<and> P s'"
  using assms
proof (induction xs arbitrary: s)
  case (Cons x xs)
  from Cons.prems obtain s1 where "f x s = Some s1" "P s1" by fastforce
  with Cons.IH [of s1] Cons.prems(1) show ?case by auto
qed simp

lemma complete_start_closed:
  shows "rc_connection st = None \<Longrightarrow> rc_pendings st = ps \<Longrightarrow>
      \<exists>st'. complete_call T c r st = Some st' \<and> rc_connection st' = None \<and> rc_pendings st' = ps"
    and "rc_connection st = None \<Longrightarrow> rc_pendings st = ps \<Longrightarrow>
      \<exists>st'. startCallInLoop T nc st = Some st' \<and> rc_connection st' = None \<and> rc_pendings st' = ps"
proof (induction T c r st and T nc st rule: complete_call_startCallInLoop.induct)
  case (1 T c r st)
  have "\<exists>st'. fold_opt (startCallInLoop T) (reaction c r) (st\<lparr>rc_log := rc_log st @ [(callId c, r)]\<rparr>) = Some st'
      \<and> rc_connection st' = None \<and> rc_pendings st' = ps"
    by (rule fold_opt_total [where P = "\<lambda>st. rc_connection st = None \<and> rc_pendings st = ps"])
      (use 1 in auto)
  then show ?case by (simp add: complete_call.simps)
next
  case (2 T request deadline c st0)
  then show ?case by (simp add: startCallInLoop.simps Let_def)
qed

lemma failAllPending_closed:
  assumes "rc_connection st = None"
  shows "\<exists>st'. failAllPending T st = Some st' \<and> rc_connection st' = None \<and> rc_pendings st' = []"
  unfolding failAllPending_def
proof (rule fold_opt_total [where P = "\<lambda>st. rc_connection st = None \<and> rc_pendings st = []"], goal_cases)
  case (1 x s)
  then have "rc_connection (cancelTimer (pc_timer (snd x)) s) = None \<and> rc_pendings (cancelTimer (pc_timer (snd x)) s) = []"
    by (simp add: cancelTimer_def split: option.splits)
  with complete_start_closed(1) [of "cancelTimer (pc_timer (snd x)) s" "[]" T] show ?case
    by (simp add: split_def)
qed (use assms in simp)

lemma fold_opt_keeps:
  assumes "\<And>x s s'. x \<in> set xs \<Longrightarrow> f x s = Some s' \<Longrightarrow> P s' = P s" and "fold_opt f xs s = Some s'"
  shows "P s' = P s"
  using assms
proof (induction xs arbitrary: s)
  case (Cons x xs)
  then obtain s1 where "f x s = Some s1" "fold_opt f xs s1 = Some s'" by (auto split: option.splits)
  with Cons.IH [of s1] Cons.prems(1) [of x s s1] Cons.prems(1) show ?case by auto
qed simp

lemma allocate_keeps_connection: "allocateRequestId st = Some (i, st') \<Longrightarrow> rc_connection st' = rc_connection st"
  by (auto simp: allocateRequestId_def split: option.splits)

lemma complete_start_connection:
  shows "complete_call T c r st = Some st' \<Longrightarrow> (rc_connection st' = None) = (rc_connection st = None)"
    and "startCallInLoop T nc st = Some st' \<Longrightarrow> (rc_connection st' = None) = (rc_connection st = None)"
proof (induction T c r st and T nc st arbitrary: st' and st' rule: complete_call_startCallInLoop.induct)
  case (1 T c r st)
  have "(rc_connection st' = None) = (rc_connection (st\<lparr>rc_log := rc_log st @ [(callId c, r)]\<rparr>) = None)"
    by (rule fold_opt_keeps [where P = "\<lambda>st. rc_connection st = None"])
      (use 1 in \<open>auto simp: complete_call.simps\<close>)
  then show ?case by simp
next
  case (2 T request deadline c st0)
  let ?st = "st0\<lparr>rc_started := rc_started st0 @ [callId c]\<rparr>"
  consider (closed) "rc_connection ?st = None \<or> \<not> rc_connected ?st" "complete_call T c connectionClosedResponse ?st = Some st'"
    | (bad) "\<not> (rc_connection ?st = None \<or> \<not> rc_connected ?st)" "encodeRequest request = None"
        "complete_call T c badRequestResponse ?st = Some st'"
    | (sent) i body st1 where "allocateRequestId ?st = Some (i, st1)" "st' = send_request T i deadline c body st1"
    using 2(3) by (auto simp: startCallInLoop.simps Let_def split: if_splits option.splits)
  then show ?case
  proof cases
    case closed
    with 2(1) [OF refl closed] show ?thesis by simp
  next
    case bad
    with 2(2) [OF refl bad] show ?thesis by simp
  next
    case sent
    then show ?thesis using allocate_keeps_connection [OF sent(1)]
      by (simp add: send_request_def runAfter_def Let_def split: if_splits)
  qed
qed

lemma failAllPending_connection:
  "failAllPending T st = Some st' \<Longrightarrow> (rc_connection st' = None) = (rc_connection st = None)"
  unfolding failAllPending_def
  by (drule fold_opt_keeps [where P = "\<lambda>st. rc_connection st = None", rotated])
    (auto simp: cancelTimer_def dest!: complete_start_connection split: option.splits)

subsection \<open>Streams of responses\<close>

text \<open>The response a frame carries, and what the client checks of its header.\<close>

fun frame_response :: "frame \<Rightarrow> Response" where
  "frame_response (h, body) =
     \<lparr>rs_status = mh_status h, rs_payload = body, rs_serializerId = mh_serializerId h\<rparr>"

fun acceptable :: "'c RpcClient \<Rightarrow> frame \<Rightarrow> bool" where
  "acceptable st (h, body) \<longleftrightarrow> mh_version h = kVersion \<and> mh_type h = kResponse
     \<and> mh_serializerId h = rc_serializerId st \<and> length body \<le> kMaxBodyLen"

lemma client_parse:
  assumes "buffer_inv b" and "parse_bytes (rc_frameReader st) (contents b) = (res, rest)"
  shows "\<exists>b'. parse (rc_frameReader st) b = (res, b') \<and> buffer_inv b' \<and> contents b' = rest"
  using parse_refines [OF assms(1), of "rc_frameReader st"] assms(2)
  by (cases "parse (rc_frameReader st) b") auto

text \<open>A response that has come for a call without reaction: the call is taken out of the table, its
  timer is cancelled and its promise fulfilled.\<close>

definition settle :: "u32 \<Rightarrow> PendingCall \<Rightarrow> Response \<Rightarrow> 'c RpcClient \<Rightarrow> 'c RpcClient" where
  "settle i p r st =
     (let st1 = cancelTimer (pc_timer p) (erase_pending i st)
      in st1\<lparr>rc_log := rc_log st1 @ [(callId (pc_complete p), r)]\<rparr>)"

lemma settle_fields [simp]:
  "rc_log (settle i p r st) = rc_log st @ [(callId (pc_complete p), r)]"
  "rc_pendings (settle i p r st) = filter (\<lambda>(j, _). j \<noteq> i) (rc_pendings st)"
  "rc_frameReader (settle i p r st) = rc_frameReader st" "rc_serializerId (settle i p r st) = rc_serializerId st"
  "rc_connection (settle i p r st) = rc_connection st" "rc_timedOutIdSet (settle i p r st) = rc_timedOutIdSet st"
  by (simp_all add: settle_def cancelTimer_def erase_pending_def Let_def split: option.splits)

lemma client_onMessage_settles:
  assumes "buffer_inv b" and "parse_bytes (rc_frameReader st) (contents b) = (ParseOk h body, rest)"
    and "acceptable st (h, body)" and "map_of (rc_pendings st) (mh_requestId h) = Some p"
    and "pc_complete p = promise_completion n"
  shows "\<exists>b'. buffer_inv b' \<and> contents b' = rest \<and>
    client_onMessage T st b = client_onMessage T (settle (mh_requestId h) p (frame_response (h, body)) st) b'"
proof -
  obtain b' where "parse (rc_frameReader st) b = (ParseOk h body, b')" "buffer_inv b'" "contents b' = rest"
    using client_parse [OF assms(1,2)] by blast
  with assms(3-5) have "client_onMessage T st b =
      client_onMessage T (settle (mh_requestId h) p (frame_response (h, body)) st) b'"
    by (subst client_onMessage.simps)
      (simp add: decodeResponse_def complete_call.simps promise_completion_def settle_def Let_def)
  with \<open>buffer_inv b'\<close> \<open>contents b' = rest\<close> show ?thesis by blast
qed

lemma client_onMessage_NeedMore:
  assumes "buffer_inv b" and "parse_bytes (rc_frameReader st) (contents b) = (NeedMore, contents b)"
  shows "\<exists>b'. client_onMessage T st b = Some (st, b') \<and> buffer_inv b' \<and> contents b' = contents b"
proof -
  obtain b' where "parse (rc_frameReader st) b = (NeedMore, b')" "buffer_inv b'" "contents b' = contents b"
    using client_parse [OF assms] by blast
  then show ?thesis by (subst client_onMessage.simps) auto
qed

text \<open>The frames a client expects: each for a pending call, and no two for the same.\<close>

definition expected :: "'c RpcClient \<Rightarrow> frame list \<Rightarrow> bool" where
  "expected st fs \<longleftrightarrow> distinct (map (mh_requestId \<circ> fst) fs) \<and> list_all (acceptable st) fs
     \<and> (\<forall>f \<in> set fs. \<exists>p n. map_of (rc_pendings st) (mh_requestId (fst f)) = Some p
          \<and> pc_complete p = promise_completion n)"

definition outcome :: "'c RpcClient \<Rightarrow> frame \<Rightarrow> nat \<times> Response" where
  "outcome st f = (callId (pc_complete (the (map_of (rc_pendings st) (mh_requestId (fst f))))), frame_response f)"

lemma map_of_filter_other: "i \<noteq> j \<Longrightarrow> map_of (filter (\<lambda>(k, _). k \<noteq> i) ps) j = map_of ps j"
  by (induction ps) auto

lemma expected_settle:
  assumes "expected st (f # fs)" and "map_of (rc_pendings st) (mh_requestId (fst f)) = Some p"
  shows "expected (settle (mh_requestId (fst f)) p r st) fs
    \<and> map (outcome (settle (mh_requestId (fst f)) p r st)) fs = map (outcome st) fs"
proof -
  let ?st = "settle (mh_requestId (fst f)) p r st"
  have m: "map_of (rc_pendings ?st) (mh_requestId (fst g)) = map_of (rc_pendings st) (mh_requestId (fst g))"
    if "g \<in> set fs" for g
  proof -
    have "mh_requestId (fst f) \<noteq> mh_requestId (fst g)" using that assms(1) by (force simp: expected_def)
    then show ?thesis by (simp add: map_of_filter_other)
  qed
  have "acceptable ?st g = acceptable st g" for g by (cases g) simp
  with m assms(1) show ?thesis by (auto simp: expected_def outcome_def list_all_iff)
qed

lemma client_onMessage_stream:
  assumes "buffer_inv b" and "drain_bytes (rc_frameReader st) (contents b) = (fs, NeedMore, rest)"
    and "expected st (fs @ gs)"
  shows "\<exists>st' b'. client_onMessage T st b = Some (st', b') \<and> buffer_inv b' \<and> contents b' = rest
    \<and> rc_log st' = rc_log st @ map (outcome st) fs \<and> rc_connection st' = rc_connection st
    \<and> rc_pendings st' = filter (\<lambda>(i, _). i \<notin> (mh_requestId \<circ> fst) ` set fs) (rc_pendings st)
    \<and> rc_frameReader st' = rc_frameReader st \<and> expected st' gs \<and> map (outcome st') gs = map (outcome st) gs"
  using assms
proof (induction fs arbitrary: b st)
  case Nil
  have "contents b = rest" using drain_bytes_Nil_rest [OF Nil.prems(2)] by simp
  moreover have "parse_bytes (rc_frameReader st) (contents b) = (NeedMore, contents b)"
    using drain_bytes_outcome [OF Nil.prems(2)] \<open>contents b = rest\<close> by simp
  ultimately show ?case
    using client_onMessage_NeedMore [OF Nil.prems(1), of st T] Nil.prems(3) by (auto simp: split_def)
next
  case (Cons f fs)
  obtain h body where f: "f = (h, body)" by (cases f)
  obtain r1 where p: "parse_bytes (rc_frameReader st) (contents b) = (ParseOk h body, r1)"
    and d: "drain_bytes (rc_frameReader st) r1 = (fs, NeedMore, rest)"
    using drain_bytes_Cons [OF Cons.prems(2) [unfolded f]] by blast
  obtain q n where q: "map_of (rc_pendings st) (mh_requestId h) = Some q" "pc_complete q = promise_completion n"
    and a: "acceptable st (h, body)" using Cons.prems(3) f by (auto simp: expected_def)
  let ?st = "settle (mh_requestId h) q (frame_response f) st"
  obtain b' where b': "buffer_inv b'" "contents b' = r1"
    and eq: "client_onMessage T st b = client_onMessage T ?st b'"
    using client_onMessage_settles [OF Cons.prems(1) p a q, of T] f by blast
  have ex: "expected ?st (fs @ gs)" "map (outcome ?st) fs = map (outcome st) fs" "map (outcome ?st) gs = map (outcome st) gs"
    using expected_settle [of st f "fs @ gs" q "frame_response f"] Cons.prems(3) q(1) f by simp_all
  have "drain_bytes (rc_frameReader ?st) (contents b') = (fs, NeedMore, rest)" using d b'(2) by simp
  note IH = Cons.IH [OF b'(1) this ex(1)]
  have "filter (\<lambda>(i, _). i \<notin> (mh_requestId \<circ> fst) ` set fs) (rc_pendings ?st)
      = filter (\<lambda>(i, _). i \<notin> (mh_requestId \<circ> fst) ` set (f # fs)) (rc_pendings st)"
    using f by (auto simp: split_def intro!: filter_cong)
  with IH eq ex(2,3) q(1) f show ?case by (auto simp: outcome_def)
qed

text \<open>A sequence of readable events of the client's connection, each bringing the given bytes: \<open>readFd\<close>
  appends them to the input buffer, and the message callback of the client gets the whole buffer.\<close>

fun client_reads ::
  "'c transport_ops \<Rightarrow> bytes list \<Rightarrow> 'c RpcClient \<Rightarrow> buffer \<Rightarrow> ('c RpcClient \<times> buffer) option" where
  "client_reads T [] st b = Some (st, b)"
| "client_reads T (chunk # chunks) st b =
     (case readCore (\<lambda>_. Inr chunk) b of
        (_, _, b1) \<Rightarrow>
          (case client_onMessage T st b1 of
             None \<Rightarrow> None
           | Some (st1, b2) \<Rightarrow> client_reads T chunks st1 b2))"

lemma client_reads_stream:
  assumes "buffer_inv b" and "parse_bytes (rc_frameReader st) (contents b) = (NeedMore, contents b)"
    and "drain_bytes (rc_frameReader st) (contents b @ concat chunks) = (fs, NeedMore, rest)" and "expected st fs"
  shows "\<exists>st' b'. client_reads T chunks st b = Some (st', b') \<and> contents b' = rest
    \<and> rc_log st' = rc_log st @ map (outcome st) fs \<and> rc_connection st' = rc_connection st
    \<and> rc_pendings st' = filter (\<lambda>(i, _). i \<notin> (mh_requestId \<circ> fst) ` set fs) (rc_pendings st)"
  using assms
proof (induction chunks arbitrary: b st fs)
  case Nil
  then show ?case by (auto simp: drain_bytes_stop split_def)
next
  case (Cons chunk chunks)
  let ?fr = "rc_frameReader st"
  obtain b1 where b1: "readCore (\<lambda>_. Inr chunk) b = (int (length chunk), None, b1)" "buffer_inv b1"
    "contents b1 = contents b @ chunk" using readCore_Inr [OF Cons.prems(1), of "\<lambda>_. Inr chunk" chunk] by auto
  obtain fs1 e1 r1 where d1: "drain_bytes ?fr (contents b1) = (fs1, e1, r1)" by (cases "drain_bytes ?fr (contents b1)")
  note cut = drain_bytes_append [OF d1, of "concat chunks"]
  have ok: "e1 \<noteq> ProtocolError" using cut Cons.prems(3) b1(3) by auto
  with drain_bytes_outcome [OF d1] have e1: "e1 = NeedMore" and p1: "parse_bytes ?fr r1 = (NeedMore, r1)" by auto
  obtain gs where d2: "drain_bytes ?fr (r1 @ concat chunks) = (gs, NeedMore, rest)" and fs: "fs = fs1 @ gs"
    using cut ok Cons.prems(3) b1(3) by (auto split: prod.splits)
  from client_onMessage_stream [OF b1(2) d1 [unfolded e1] Cons.prems(4) [unfolded fs], of T] obtain st1 b2 where
    m: "client_onMessage T st b1 = Some (st1, b2)" "buffer_inv b2" "contents b2 = r1"
      "rc_log st1 = rc_log st @ map (outcome st) fs1" "rc_connection st1 = rc_connection st"
      "rc_pendings st1 = filter (\<lambda>(i, _). i \<notin> (mh_requestId \<circ> fst) ` set fs1) (rc_pendings st)"
      "rc_frameReader st1 = ?fr" "expected st1 gs" "map (outcome st1) gs = map (outcome st) gs" by auto
  have "filter (\<lambda>(i, _). i \<notin> (mh_requestId \<circ> fst) ` set gs) (rc_pendings st1)
      = filter (\<lambda>(i, _). i \<notin> (mh_requestId \<circ> fst) ` set fs) (rc_pendings st)"
    by (auto simp: m(6) fs split_def intro!: filter_cong)
  with Cons.IH [OF m(2) _ _ m(8)] p1 d2 m b1(1) fs show ?case by auto
qed

lemma allocate_loop_free: "n \<noteq> 0 \<Longrightarrow> \<not> used n \<Longrightarrow> allocate_loop used n = Some (n, n + 1)"
  by (subst allocate_loop.simps) simp

lemma pending_timers_iff:
  "(t, i) \<in> set (pending_timers ps) \<longleftrightarrow> (\<exists>p. (i, p) \<in> set ps \<and> pc_timer p = Some t)"
  by (induction ps) (auto split: option.splits)

lemma allocateRequestId_returns:
  assumes "client_ok ts ex st" and "length (rc_pendings st) < 2 ^ 32 - 1 - 1024"
  shows "\<exists>i n. allocateRequestId st = Some (i, st\<lparr>rc_nextRequestId := n\<rparr>)
    \<and> i \<noteq> 0 \<and> i \<notin> fst ` set (rc_pendings st) \<and> i \<notin> rc_timedOutIdSet st"
proof -
  have ok: "ids_ok st" using assms(1) by (simp add: client_ok_def)
  have "{i. i \<noteq> 0 \<and> id_used st i} \<subseteq> set (map fst (rc_pendings st) @ rc_timedOutIds st)"
    using ok by (auto simp: id_used_def ids_ok_def map_of_eq_None_iff)
  then have "card {i. i \<noteq> 0 \<and> id_used st i} \<le> length (map fst (rc_pendings st) @ rc_timedOutIds st)"
    by (meson List.finite_set card_length card_mono le_trans)
  then have "card {i. i \<noteq> 0 \<and> id_used st i} < 2 ^ 32 - 1"
    using assms(2) ok by (simp add: ids_ok_def kMaxRememberedTimeouts_def)
  from allocate_loop_total [OF this, of "rc_nextRequestId st"] obtain i n where
    a: "allocate_loop (id_used st) (rc_nextRequestId st) = Some (i, n)" by blast
  with allocate_loop_Some [OF a] show ?thesis
    by (auto simp: allocateRequestId_def id_used_def map_of_eq_None_iff)
qed

subsection \<open>Properties\<close>

text \<open>C2: every call completes exactly once. In every reachable state, whatever the network, the
  timers and the callbacks do, the calls started are exactly the calls completed together with
  the calls still in the table, each with its multiplicity: no completion is lost or run twice.\<close>

theorem client_completes_once:
  assumes "client_reachable T st"
  shows "mset (rc_started st) = mset (map fst (rc_log st)) + mset (pending_calls (rc_pendings st))"
  using client_reachable_ok [OF assms] by (simp add: client_ok_def calls_ok_def)

text \<open>A transport that records what is sent, for examples.\<close>

definition memory_ops :: "bytes list transport_ops" where
  "memory_ops = \<lparr>t_connected = (\<lambda>_. True), t_send = (\<lambda>m ms. ms @ [m]), t_shutdown = id, t_forceClose = id\<rparr>"

definition sample_client :: "bytes list RpcClient" where
  "sample_client = (newRpcClient kSerializerRaw)\<lparr>rc_connection := Some [], rc_connected := True, rc_everConnected := True\<rparr>"

lemma sample_client_reachable: "client_reachable memory_ops sample_client"
  by (rule client_reachable.step [OF client_reachable.start, where ev = "ConnectionEvent []"])
    (simp add: client_onConnection_def memory_ops_def resolve_connect_def sample_client_def newRpcClient_def)

definition called_client :: "bytes list RpcClient" where
  "called_client = the (CallAsync memory_ops echo_request 5 True sample_client)"

lemma called_client:
  "CallAsync memory_ops echo_request 5 True sample_client = Some called_client"
  "rc_pendings called_client = [(1, \<lparr>pc_id = 1, pc_complete = promise_completion 5, pc_timer = Some 0\<rparr>)]"
  "rc_log called_client = []" "rc_started called_client = [5]" "rc_serializerId called_client = kSerializerRaw"
  "rc_connection called_client = Some [encodeFrame (echo_frame 1)]"
  "rc_frameReader called_client = newFrameReader kDefaultMaxFrameSize" "rc_timers called_client = [(0, 1)]"
  "rc_timedOutIdSet called_client = {}"
proof -
  have a: "allocateRequestId (sample_client\<lparr>rc_started := [5]\<rparr>) = Some (1, sample_client\<lparr>rc_nextRequestId := 2, rc_started := [5]\<rparr>)"
    by (simp add: allocateRequestId_def allocate_loop_free id_used_def sample_client_def newRpcClient_def)
  have h: "requestHeader kSerializerRaw 1 (snd (echo_frame 1)) = fst (echo_frame 1)"
    using echo_body(2) [of 1] by (simp add: requestHeader_def) (simp add: echo_frame_def)
  have e: "CallAsync memory_ops echo_request 5 True sample_client =
    Some (send_request memory_ops 1 True (promise_completion 5) (snd (echo_frame 1))
      (sample_client\<lparr>rc_nextRequestId := 2, rc_started := [5]\<rparr>))"
    using a echo_body(1) [of 1]
    by (simp add: CallAsync_def AsyncCall_def startCallInLoop.simps promise_completion_def Let_def)
      (simp add: sample_client_def newRpcClient_def)
  then show "CallAsync memory_ops echo_request 5 True sample_client = Some called_client"
    by (simp add: called_client_def)
  show "rc_pendings called_client = [(1, \<lparr>pc_id = 1, pc_complete = promise_completion 5, pc_timer = Some 0\<rparr>)]"
    "rc_log called_client = []" "rc_started called_client = [5]" "rc_serializerId called_client = kSerializerRaw"
    "rc_connection called_client = Some [encodeFrame (echo_frame 1)]"
    "rc_frameReader called_client = newFrameReader kDefaultMaxFrameSize" "rc_timers called_client = [(0, 1)]"
    "rc_timedOutIdSet called_client = {}"
    using e h by (cases "echo_frame 1"; simp add: called_client_def send_request_def runAfter_def Let_def
      sample_client_def newRpcClient_def memory_ops_def)+
qed

lemma called_client_reachable: "client_reachable memory_ops called_client"
  by (rule client_reachable.step [OF sample_client_reachable,
        where ev = "StartCall (echo_request, True, promise_completion 5)"])
    (use called_client(1) in \<open>simp add: CallAsync_def AsyncCall_def\<close>)

theorem client_completes_once_witness:
  "mset (rc_started called_client) = mset (map fst (rc_log called_client)) + {#5#}"
  using client_completes_once [OF called_client_reachable] called_client(2)
  by (simp add: promise_completion_def)

text \<open>C29: when the connection goes down no call is left waiting. The handler returns, the table is
  empty afterwards, even if completions have started further calls, and every call started so
  far has completed.\<close>

theorem client_down_completes_all:
  assumes "client_reachable T st" and "\<not> t_connected T conn"
  shows "\<exists>st'. client_onConnection T conn st = Some st' \<and> rc_pendings st' = []
    \<and> mset (map fst (rc_log st')) = mset (rc_started st')"
proof -
  obtain st1 where "failAllPending T (st\<lparr>rc_connection := None, rc_connected := False\<rparr>) = Some st1"
    and "rc_pendings st1 = []"
    using failAllPending_closed [of "st\<lparr>rc_connection := None, rc_connected := False\<rparr>" T] by auto
  then have s: "client_onConnection T conn st = Some (resolve_connect False st1)"
    and p: "rc_pendings (resolve_connect False st1) = []"
    using assms(2) by (simp_all add: client_onConnection_def resolve_connect_def)
  have "client_ok [] {#} (resolve_connect False st1)"
    using client_step_ok [OF client_reachable_ok [OF assms(1)], of T "ConnectionEvent conn"] s by simp
  with s p show ?thesis by (auto simp: client_ok_def calls_ok_def)
qed

theorem client_down_completes_all_witness:
  "\<exists>st'. client_onConnection (memory_ops\<lparr>t_connected := \<lambda>_. False\<rparr>) [] (newRpcClient kSerializerRaw) = Some st'
     \<and> rc_pendings st' = []"
  using client_down_completes_all [OF client_reachable.start, of "memory_ops\<lparr>t_connected := \<lambda>_. False\<rparr>" "[]"]
  by auto

text \<open>Destroying a client completes every call, even those that completions start while it is being
  destroyed, unless the connection is closing: then the transport comes down only after the object is
  gone.\<close>

theorem rpcClient_destroy_completes_all:
  assumes "client_reachable T st" and "rpcClient_destroy T st = Some st'" and "rc_connection st' = None"
  shows "rc_pendings st' = [] \<and> mset (map fst (rc_log st')) = mset (rc_started st')"
proof -
  have ok: "client_ok [] {#} st'" using rpcClient_destroy_ok [OF client_reachable_ok [OF assms(1)] assms(2)] .
  obtain st1 where 1: "failAllPending T st = Some st1" using assms(2) by (auto simp: rpcClient_destroy_def split: option.splits)
  have "rc_pendings st' = []"
  proof (cases "rc_connection st1")
    case None
    with 1 failAllPending_connection [OF 1] failAllPending_closed [of st T] assms(2) show ?thesis
      by (auto simp: rpcClient_destroy_def)
  next
    case (Some conn)
    with 1 assms(2,3) failAllPending_closed [of "st1\<lparr>rc_connection := None, rc_connected := False\<rparr>" T] show ?thesis
      by (auto simp: rpcClient_destroy_def resolve_connect_def split: if_splits)
  qed
  with ok show ?thesis by (auto simp: client_ok_def calls_ok_def)
qed

text \<open>Ids identify calls. In every reachable state the ids in the table are distinct, none is the
  reserved zero, none is remembered as timed out, at most 1024 timed-out ids are remembered, each
  once, and the timers armed on the loop are exactly those of the calls with a deadline.\<close>

theorem client_ids_distinct:
  assumes "client_reachable T st"
  shows "distinct (map fst (rc_pendings st)) \<and> 0 \<notin> fst ` set (rc_pendings st)
    \<and> fst ` set (rc_pendings st) \<inter> set (rc_timedOutIds st) = {}
    \<and> distinct (rc_timedOutIds st) \<and> length (rc_timedOutIds st) \<le> 1024
    \<and> rc_timedOutIdSet st = set (rc_timedOutIds st)
    \<and> set (rc_timers st) = {(t, i). \<exists>p. (i, p) \<in> set (rc_pendings st) \<and> pc_timer p = Some t}"
proof -
  have ok: "ids_ok st" "timers_ok [] st" using client_reachable_ok [OF assms] by (simp_all add: client_ok_def)
  from ok(2) have "set (rc_timers st) = set (pending_timers (rc_pendings st))" by (simp add: timers_ok_def)
  also have "\<dots> = {(t, i). \<exists>p. (i, p) \<in> set (rc_pendings st) \<and> pc_timer p = Some t}"
    by (auto simp: pending_timers_iff)
  finally have t: "set (rc_timers st) = {(t, i). \<exists>p. (i, p) \<in> set (rc_pendings st) \<and> pc_timer p = Some t}" .
  show ?thesis unfolding t using ok(1) by (auto simp: ids_ok_def kMaxRememberedTimeouts_def)
qed

theorem client_ids_distinct_witness: "set (rc_timers called_client) = {(0, 1)}"
  using client_ids_distinct [OF called_client_reachable] called_client(2) by (auto simp: called_client)

text \<open>C35: the search for a request id ends. As long as fewer calls are in flight than there are ids
  left beside the remembered ones, \<open>allocateRequestId\<close> returns, with an id that is neither zero,
  nor in flight, nor remembered, across any wrap of the 32-bit counter.\<close>

theorem allocateRequestId_terminates:
  assumes "client_reachable T st" and "length (rc_pendings st) < 2 ^ 32 - 1 - 1024"
  shows "\<exists>i n. allocateRequestId st = Some (i, st\<lparr>rc_nextRequestId := n\<rparr>)
    \<and> i \<noteq> 0 \<and> i \<notin> fst ` set (rc_pendings st) \<and> i \<notin> rc_timedOutIdSet st"
  using allocateRequestId_returns [OF client_reachable_ok [OF assms(1)] assms(2)] .

theorem allocateRequestId_terminates_witness:
  "\<exists>i n. allocateRequestId called_client = Some (i, called_client\<lparr>rc_nextRequestId := n\<rparr>) \<and> i \<noteq> 1"
  using allocateRequestId_terminates [OF called_client_reachable] by (auto simp: called_client)

text \<open>C30: responses reach the calls they answer. Whatever order the responses to calls made through
  futures arrive in, and however many come in one read, each completes the call with its request
  id, with its own status and payload, in the order of arrival; the other calls stay in the
  table, and the handler returns with the connection untouched.\<close>

theorem client_routes_responses:
  assumes "buffer_inv b" and "contents b = concat (map encodeFrame fs) @ rest"
    and "list_all (frame_ok (rc_frameReader st)) fs" and "expected st fs"
    and "parse_bytes (rc_frameReader st) rest = (NeedMore, rest)"
  shows "\<exists>st' b'. client_onMessage T st b = Some (st', b') \<and> contents b' = rest
    \<and> rc_log st' = rc_log st @ map (outcome st) fs \<and> rc_connection st' = rc_connection st
    \<and> rc_pendings st' = filter (\<lambda>(i, _). i \<notin> (mh_requestId \<circ> fst) ` set fs) (rc_pendings st)"
proof -
  have "drain_bytes (rc_frameReader st) (contents b) = (fs, NeedMore, rest)"
    using drain_bytes_frames [OF assms(3), of rest] assms(2,5) by (simp add: drain_bytes_stop)
  from client_onMessage_stream [OF assms(1) this, of "[]" T] assms(4) show ?thesis by auto
qed

definition echo_response :: "u32 \<Rightarrow> frame" where
  "echo_response i = (responseHeader i (mkResponse kOk (ascii ''hi'')) (ascii ''hi''), ascii ''hi'')"

lemma echo_response_ok: "frame_ok (newFrameReader kDefaultMaxFrameSize) (echo_response i)"
  by (simp add: echo_response_def responseHeader_def maxBodyOf_def newFrameReader_def setMaxFrameSize_def
      kDefaultMaxFrameSize_def kHeaderSize_def kMaxBodyLen_def)

theorem client_routes_responses_witness:
  "\<exists>st' b'. client_onMessage memory_ops called_client (buf_append (encodeFrame (echo_response 1)) (newBuffer 8)) = Some (st', b')
     \<and> rc_log st' = [(5, mkResponse kOk (ascii ''hi''))] \<and> rc_pendings st' = []"
proof -
  have "expected called_client [echo_response 1]"
    by (auto simp: expected_def echo_response_def responseHeader_def called_client mkResponse_def kMaxBodyLen_def)
  moreover have "outcome called_client (echo_response 1) = (5, mkResponse kOk (ascii ''hi''))"
    by (simp add: outcome_def echo_response_def responseHeader_def called_client promise_completion_def mkResponse_def)
  moreover have "mh_requestId (fst (echo_response 1)) = 1" by (simp add: echo_response_def responseHeader_def)
  moreover have "parse_bytes (rc_frameReader called_client) [] = (NeedMore, [])"
    by (simp add: parse_bytes_def kHeaderSize_def)
  ultimately show ?thesis
    using client_routes_responses [where b = "buf_append (encodeFrame (echo_response 1)) (newBuffer 8)"
        and st = called_client and fs = "[echo_response 1]" and rest = "[]" and T = memory_ops]
    by (auto simp: buffer_simps called_client echo_response_ok simp del: encodeFrame.simps)
qed

lemma fail_promises:
  "\<forall>x \<in> set ps. \<exists>n. pc_complete (snd x) = promise_completion n \<Longrightarrow>
   \<exists>st'. fold_opt (\<lambda>(i, pending) st. complete_call T (pc_complete pending) connectionClosedResponse
                 (cancelTimer (pc_timer pending) st)) ps st = Some st'
     \<and> rc_log st' = rc_log st @ map (\<lambda>n. (n, connectionClosedResponse)) (pending_calls ps)
     \<and> rc_pendings st' = rc_pendings st \<and> rc_connection st' = rc_connection st"
proof (induction ps arbitrary: st)
  case (Cons x ps)
  obtain i p n where x: "x = (i, p)" "pc_complete p = promise_completion n"
    using Cons.prems by (cases x) auto
  define st1 where "st1 = (cancelTimer (pc_timer p) st)\<lparr>rc_log := rc_log st @ [(n, connectionClosedResponse)]\<rparr>"
  have "complete_call T (pc_complete p) connectionClosedResponse (cancelTimer (pc_timer p) st) = Some st1"
    using x by (simp add: st1_def complete_call.simps promise_completion_def cancelTimer_def split: option.splits)
  moreover have "rc_log st1 = rc_log st @ [(n, connectionClosedResponse)]" "rc_pendings st1 = rc_pendings st"
    "rc_connection st1 = rc_connection st" by (simp_all add: st1_def cancelTimer_def split: option.splits)
  ultimately show ?case using Cons.IH [of st1] Cons.prems x by (auto simp: promise_completion_def)
qed simp

text \<open>A late response is discarded and a foreign one is fatal. A response whose id is not in the
  table leaves the client as it is when the id is remembered as timed out; otherwise the two
  ends disagree about the stream: every pending call fails with \<open>kConnectionClosed\<close>, once, and the
  connection is closed by force.\<close>

theorem client_late_and_foreign_responses:
  assumes "buffer_inv b" and "contents b = encodeFrame (h, body) @ rest"
    and "frame_ok (rc_frameReader st) (h, body)" and "acceptable st (h, body)"
    and "map_of (rc_pendings st) (mh_requestId h) = None"
    and "parse_bytes (rc_frameReader st) rest = (NeedMore, rest)"
    and "\<forall>x \<in> set (rc_pendings st). \<exists>n. pc_complete (snd x) = promise_completion n"
  shows "\<exists>st' b'. client_onMessage T st b = Some (st', b') \<and>
    (if mh_requestId h \<in> rc_timedOutIdSet st then st' = st
     else rc_pendings st' = []
       \<and> mset (rc_log st') = mset (rc_log st)
           + mset (map (\<lambda>n. (n, connectionClosedResponse)) (pending_calls (rc_pendings st)))
       \<and> rc_connection st' = map_option (t_forceClose T) (rc_connection st))"
proof -
  have "parse_bytes (rc_frameReader st) (contents b) = (ParseOk h body, rest)"
    unfolding assms(2) by (rule parse_bytes_encodeFrame) (rule assms(3))
  from client_parse [OF assms(1) this] obtain b' where
    p: "parse (rc_frameReader st) b = (ParseOk h body, b')" and b': "buffer_inv b'" "contents b' = rest" by blast
  show ?thesis
  proof (cases "mh_requestId h \<in> rc_timedOutIdSet st")
    case True
    have "parse_bytes (rc_frameReader st) (contents b') = (NeedMore, contents b')" using assms(6) b'(2) by simp
    from client_onMessage_NeedMore [OF b'(1) this, of T] True p assms(4,5) show ?thesis
      by (subst client_onMessage.simps) (auto simp: decodeResponse_def wasTimedOut_def)
  next
    case False
    then have e: "client_onMessage T st b = map_option (\<lambda>s. (s, b')) (failConnection T st)"
      using p assms(4,5) by (subst client_onMessage.simps) (auto simp: decodeResponse_def wasTimedOut_def)
    from fail_promises [OF assms(7), of T "st\<lparr>rc_pendings := []\<rparr>"] obtain st1 where
      "failAllPending T st = Some st1" "rc_pendings st1 = []" "rc_connection st1 = rc_connection st"
      "rc_log st1 = rc_log st @ map (\<lambda>n. (n, connectionClosedResponse)) (pending_calls (rc_pendings st))"
      by (auto simp: failAllPending_def)
    with e False show ?thesis by (simp add: failConnection_def)
  qed
qed

theorem client_late_and_foreign_responses_witness:
  "\<exists>st' b'. client_onMessage memory_ops called_client (buf_append (encodeFrame (echo_response 9)) (newBuffer 8)) = Some (st', b')
     \<and> rc_pendings st' = [] \<and> mset (rc_log st') = {#(5, connectionClosedResponse)#}"
proof -
  obtain h body where f: "echo_response 9 = (h, body)" by (cases "echo_response 9")
  then have "acceptable called_client (h, body)" "mh_requestId h = 9"
    by (auto simp: echo_response_def responseHeader_def called_client mkResponse_def kMaxBodyLen_def)
  moreover have "parse_bytes (rc_frameReader called_client) [] = (NeedMore, [])"
    by (simp add: parse_bytes_def kHeaderSize_def)
  ultimately show ?thesis
    using client_late_and_foreign_responses [where b = "buf_append (encodeFrame (echo_response 9)) (newBuffer 8)"
        and st = called_client and h = h and body = body and rest = "[]" and T = memory_ops]
      echo_response_ok [of 9] f
    by (auto simp: buffer_simps called_client promise_completion_def simp del: encodeFrame.simps)
qed

end
