(* ===== verification/Rpc_Call.thy ===== *)
theory Rpc_Call
  imports Rpc_Client_Runs Rpc_Service
begin

section \<open>A call from the client to the server and back\<close>

text \<open>
  The composition of \<open>rpc/src/rpc_client.cpp\<close>, \<open>rpc/src/rpc_server.cpp\<close> and \<open>src/TcpConnection.cpp\<close>: what a
  client sends for a call, what a server does with those bytes however they are cut into reads, and what
  the client makes of the answer, in whatever reads it comes.
\<close>

definition service_result :: "RpcServer \<Rightarrow> Request \<Rightarrow> Response" where
  "service_result S request =
     (case dispatch (sv_registry S) request (mkResponse kOk []) of
        None \<Rightarrow> mkResponse kInternalError []
      | Some (_, response) \<Rightarrow> response)"

lemma run_request_result: "run_request S h q = (service_result S q)\<lparr>rs_serializerId := mh_serializerId h\<rparr>"
  by (simp add: run_request_def service_result_def)

text \<open>What starting a call does on an open connection.\<close>

lemma CallAsync_sends:
  assumes "client_ok [] {#} st" and "rc_connection st = Some conn" and "rc_connected st"
    and "length (rc_pendings st) < 2 ^ 32 - 1 - 1024" and "encodeRequest request = Some body"
  shows "\<exists>i st1 p. CallAsync T request n deadline st = Some st1 \<and> i \<notin> fst ` set (rc_pendings st)
    \<and> rc_connection st1 = Some (t_send T (encodeFrame (requestHeader (rc_serializerId st) i body, body)) conn)
    \<and> rc_pendings st1 = rc_pendings st @ [(i, p)] \<and> pc_complete p = promise_completion n
    \<and> rc_log st1 = rc_log st \<and> rc_frameReader st1 = rc_frameReader st \<and> rc_serializerId st1 = rc_serializerId st"
proof -
  let ?st = "st\<lparr>rc_started := rc_started st @ [n]\<rparr>"
  have "client_ok [] (add_mset n {#}) ?st" by (rule started_ok [OF assms(1)])
  from allocateRequestId_returns [OF this] assms(4) obtain i m where
    a: "allocateRequestId ?st = Some (i, ?st\<lparr>rc_nextRequestId := m\<rparr>)" and i: "i \<notin> fst ` set (rc_pendings st)"
    by auto
  have "CallAsync T request n deadline st =
      Some (send_request T i deadline (promise_completion n) body (?st\<lparr>rc_nextRequestId := m\<rparr>))"
    using assms(2,3,5) a
    by (simp add: CallAsync_def AsyncCall_def startCallInLoop.simps Let_def) (simp add: promise_completion_def)
  with i assms(2) show ?thesis by (auto simp: send_request_def runAfter_def Let_def)
qed

lemma response_frame_eq:
  "response_frame i r = encodeFrame (responseHeader i r (rs_payload r), rs_payload r)"
  by (simp add: response_frame_def)

lemma length_u32: "length xs \<le> kMaxBodyLen \<Longrightarrow> unat (of_nat (length xs) :: u32) = length xs"
  by (simp add: kMaxBodyLen_def unat_of_nat)

lemma maxBodyOf_le: "maxBodyOf fr \<le> kMaxBodyLen"
  by (simp add: maxBodyOf_def)

text \<open>The server's half: one frame, in any reads, on a connection with nothing left over.\<close>

lemma server_answers_frame:
  assumes "tcp_reachable k prog c" and "tcp_connected c" and "peer_alive k" and "contents (tc_input c) = []"
    and "reader_inv (sv_frameReader S)" and "fr_maxFrameSize (sv_frameReader S) \<le> input_limit S"
    and "servable S f" and "frame_ok (sv_frameReader S) f" and "concat chunks = encodeFrame f" and "[] \<notin> set chunks"
  shows "\<exists>c'. server_reads S k chunks c = Some c' \<and> outbox c' = outbox c @ answer_frame S f"
proof -
  have "drain_bytes (sv_frameReader S) (concat chunks) = ([f], NeedMore, [])"
    using drain_bytes_frames [of "sv_frameReader S" "[f]" "[]"] assms(8,9) by (simp add: drain_bytes_Nil)
  moreover have "parse_bytes (sv_frameReader S) [] = (NeedMore, [])"
    by (simp add: parse_bytes_def kHeaderSize_def)
  ultimately show ?thesis
    using server_reads_frames [OF reachable_inv [OF assms(1)] assms(2,3,10,5,6), of "[f]" "[]"] assms(4,7) by auto
qed

text \<open>The client's half: the frame that answers its last call.\<close>

lemma client_takes_frame:
  assumes "buffer_inv b" and "contents b = []" and "concat chunks = encodeFrame f"
    and "frame_ok (rc_frameReader st) f" and "acceptable st f"
    and "rc_pendings st = ps @ [(mh_requestId (fst f), p)]" and "mh_requestId (fst f) \<notin> fst ` set ps"
    and "pc_complete p = promise_completion n"
  shows "\<exists>st' b'. client_reads T chunks st b = Some (st', b') \<and> rc_pendings st' = ps
    \<and> rc_log st' = rc_log st @ [(n, frame_response f)]"
proof -
  have "drain_bytes (rc_frameReader st) (contents b @ concat chunks) = ([f], NeedMore, [])"
    using drain_bytes_frames [of "rc_frameReader st" "[f]" "[]"] assms(2-4) by (simp add: drain_bytes_Nil)
  moreover have "parse_bytes (rc_frameReader st) (contents b) = (NeedMore, contents b)"
    using assms(2) by (simp add: parse_bytes_def kHeaderSize_def)
  moreover have "map_of (rc_pendings st) (mh_requestId (fst f)) = Some p"
    using assms(6,7) by (simp add: map_add_Some_iff map_of_eq_None_iff [symmetric])
  moreover from this have "expected st [f]" "outcome st f = (n, frame_response f)"
    using assms(5,8) by (cases f; auto simp: expected_def outcome_def promise_completion_def)+
  moreover have "filter (\<lambda>(j, _). j \<noteq> mh_requestId (fst f)) (rc_pendings st) = ps"
    using assms(6,7) by (force intro: filter_True)
  ultimately show ?thesis using client_reads_stream [OF assms(1), of st chunks "[f]" "[]" T] by auto
qed

lemma call_completes:
  assumes "client_reachable T st" and "rc_connection st = Some conn" and "rc_connected st"
    and "length (rc_pendings st) < 2 ^ 32 - 1 - 1024" and "encodeRequest request = Some body"
    and "sv_serializerId S = rc_serializerId st" and "reader_inv (sv_frameReader S)"
    and "fr_maxFrameSize (sv_frameReader S) \<le> input_limit S" and "length body \<le> maxBodyOf (sv_frameReader S)"
    and "length (rs_payload (service_result S request)) \<le> maxBodyOf (rc_frameReader st)"
    and "tcp_reachable k prog c" and "tcp_connected c" and "peer_alive k" and "contents (tc_input c) = []"
  shows "\<exists>st1 sent. CallAsync T request n deadline st = Some st1
    \<and> rc_connection st1 = Some (t_send T sent conn)
    \<and> (\<forall>chunks. concat chunks = sent \<and> [] \<notin> set chunks \<longrightarrow>
        (\<exists>c' reply. server_reads S k chunks c = Some c' \<and> outbox c' = outbox c @ reply
          \<and> (\<forall>b rchunks. buffer_inv b \<and> contents b = [] \<and> concat rchunks = reply \<and> [] \<notin> set rchunks \<longrightarrow>
              (\<exists>st2 b'. client_reads T rchunks st1 b = Some (st2, b') \<and> rc_pendings st2 = rc_pendings st
                \<and> rc_log st2 = rc_log st @
                    [(n, (service_result S request)\<lparr>rs_serializerId := rc_serializerId st\<rparr>)]))))"
proof -
  obtain i st1 p where call: "CallAsync T request n deadline st = Some st1"
    and i: "i \<notin> fst ` set (rc_pendings st)"
    and conn1: "rc_connection st1 = Some (t_send T (encodeFrame (requestHeader (rc_serializerId st) i body, body)) conn)"
    and p: "rc_pendings st1 = rc_pendings st @ [(i, p)]" "pc_complete p = promise_completion n"
    and keep: "rc_log st1 = rc_log st" "rc_frameReader st1 = rc_frameReader st" "rc_serializerId st1 = rc_serializerId st"
    using CallAsync_sends [OF client_reachable_ok [OF assms(1)] assms(2-5), of T n deadline] by blast
  let ?f = "(requestHeader (rc_serializerId st) i body, body)"
    and ?r = "(service_result S request)\<lparr>rs_serializerId := rc_serializerId st\<rparr>"
  let ?reply = "(responseHeader i ?r (rs_payload ?r), rs_payload ?r)"
  note lens = le_trans [OF assms(9) maxBodyOf_le] le_trans [OF assms(10) maxBodyOf_le]
  have "decodeRequest body = Some request" using assms(5) by (rule raw.dec_enc_req)
  then have "answer S ?f = Some ?r"
    using assms(6) by (simp add: requestHeader_def run_request_result)
  then have served: "servable S ?f" "frame_ok (sv_frameReader S) ?f" "answer_frame S ?f = encodeFrame ?reply"
    using lens assms(9) length_u32 [OF lens(1)]
    by (simp_all add: requestHeader_def answer_frame_def response_frame_eq del: answer.simps)
  have rp: "frame_ok (rc_frameReader st1) ?reply" "acceptable st1 ?reply" "frame_response ?reply = ?r"
    using lens(2) assms(10) keep length_u32 [OF lens(2)] by (simp_all add: responseHeader_def)
  have id: "mh_requestId (fst ?reply) = i" by (simp add: responseHeader_def)
  show ?thesis
  proof (rule exI [of _ st1], rule exI [of _ "encodeFrame ?f"], intro conjI allI impI call conn1, goal_cases)
    case (1 chunks)
    then obtain c' where "server_reads S k chunks c = Some c'" "outbox c' = outbox c @ encodeFrame ?reply"
      using server_answers_frame [OF assms(11-14,7,8) served(1,2)] served(3) by metis
    moreover have "\<exists>st2 b'. client_reads T rchunks st1 b = Some (st2, b') \<and> rc_pendings st2 = rc_pendings st
        \<and> rc_log st2 = rc_log st @ [(n, ?r)]"
      if "buffer_inv b \<and> contents b = [] \<and> concat rchunks = encodeFrame ?reply \<and> [] \<notin> set rchunks" for b rchunks
      using client_takes_frame [OF conjunct1 [OF that] _ _ rp(1,2) _ _ p(2), of rchunks "rc_pendings st" T,
          unfolded id rp(3) keep(1)] that p(1) i by blast
    ultimately show ?case by (intro exI [of _ c'] exI [of _ "encodeFrame ?reply"]) simp
  qed
qed

end
