(* ===== verification/Rfc_Protocol.thy ===== *)
theory Rfc_Protocol
  imports Rpc_Call
begin

unbundle bit_operations_syntax

section \<open>The protocol as documented\<close>

text \<open>
  \<open>docs/rfc/0001-rpc-protocol.md\<close> is the normative description of the wire protocol. This theory states its
  lists of what a receiver must reject and what it must tolerate as a function of a frame, its body layout
  and its reference vectors, and compares them with \<open>rpc/src/rpc_server.cpp\<close>, \<open>rpc/src/raw_codec.cpp\<close> and
  \<open>rpc/src/protocol.cpp\<close>. Where a frame is wrong in several ways the document leaves open which status is sent;
  the order here is that of the server.
\<close>

subsection \<open>What the document says\<close>

text \<open>Section 4.3, the body of a request.\<close>

definition rfc_body :: "Request \<Rightarrow> bytes \<Rightarrow> bool" where
  "rfc_body r body \<longleftrightarrow>
     1 \<le> length (rq_service r) \<and> length (rq_service r) < 2 ^ 16 \<and> 1 \<le> length (rq_method r) \<and> length (rq_method r) < 2 ^ 16
     \<and> body = putU16 (of_nat (length (rq_service r))) @ rq_service r
            @ putU16 (of_nat (length (rq_method r))) @ rq_method r @ rq_payload r"

text \<open>Sections 7 and 8. \<open>Reject\<close> is answered and closes the connection, \<open>Refuse\<close> is answered and keeps it.\<close>

datatype rfc_verdict = Reject StatusCode | Refuse StatusCode | Serve Request

text \<open>\<open>serializer\<close> is the format the server speaks. A frame with \<open>msg_type\<close> 2 goes in the wrong direction; the
  document names no status for it, and it is treated as a type that is not known. The bits 2 to 7 of \<open>flags\<close> and the reserved byte are to be ignored.\<close>

inductive rfc_says :: "byte \<Rightarrow> MessageHeader \<Rightarrow> bytes \<Rightarrow> rfc_verdict \<Rightarrow> bool" for serializer h body where
  version: "mh_version h \<noteq> 1 \<Longrightarrow> rfc_says serializer h body (Reject 0x01)"
| msg_type: "mh_version h = 1 \<Longrightarrow> mh_type h \<noteq> 1 \<Longrightarrow> rfc_says serializer h body (Reject 0x02)"
| flags: "mh_version h = 1 \<Longrightarrow> mh_type h = 1 \<Longrightarrow> mh_flags h AND 3 \<noteq> 0 \<Longrightarrow> rfc_says serializer h body (Reject 0x03)"
| request_id: "mh_version h = 1 \<Longrightarrow> mh_type h = 1 \<Longrightarrow> mh_flags h AND 3 = 0 \<Longrightarrow> mh_requestId h = 0 \<Longrightarrow>
    rfc_says serializer h body (Reject 0x04)"
| status: "mh_version h = 1 \<Longrightarrow> mh_type h = 1 \<Longrightarrow> mh_flags h AND 3 = 0 \<Longrightarrow> mh_requestId h \<noteq> 0 \<Longrightarrow> mh_status h \<noteq> 0 \<Longrightarrow>
    rfc_says serializer h body (Reject 0x06)"
| format: "mh_version h = 1 \<Longrightarrow> mh_type h = 1 \<Longrightarrow> mh_flags h AND 3 = 0 \<Longrightarrow> mh_requestId h \<noteq> 0 \<Longrightarrow> mh_status h = 0 \<Longrightarrow>
    mh_serializerId h \<noteq> serializer \<Longrightarrow> rfc_says serializer h body (Refuse 0x0D)"
| malformed: "mh_version h = 1 \<Longrightarrow> mh_type h = 1 \<Longrightarrow> mh_flags h AND 3 = 0 \<Longrightarrow> mh_requestId h \<noteq> 0 \<Longrightarrow> mh_status h = 0 \<Longrightarrow>
    mh_serializerId h = serializer \<Longrightarrow> (\<And>r. \<not> rfc_body r body) \<Longrightarrow> rfc_says serializer h body (Reject 0x06)"
| serve: "mh_version h = 1 \<Longrightarrow> mh_type h = 1 \<Longrightarrow> mh_flags h AND 3 = 0 \<Longrightarrow> mh_requestId h \<noteq> 0 \<Longrightarrow> mh_status h = 0 \<Longrightarrow>
    mh_serializerId h = serializer \<Longrightarrow> rfc_body r body \<Longrightarrow> rfc_says serializer h body (Serve r)"

text \<open>What a verdict means for a server: what it sends, whether the connection goes on, which requests it runs.
  Every response repeats the request id and the \<open>serializer\<close> of the request (section 4.2); the text of an error
  may be empty (section 4.3).\<close>

fun rfc_reply :: "RpcServer \<Rightarrow> MessageHeader \<Rightarrow> rfc_verdict \<Rightarrow> bytes" where
  "rfc_reply S h (Reject st) = response_frame (mh_requestId h) ((mkResponse st [])\<lparr>rs_serializerId := mh_serializerId h\<rparr>)"
| "rfc_reply S h (Refuse st) = response_frame (mh_requestId h) ((mkResponse st [])\<lparr>rs_serializerId := mh_serializerId h\<rparr>)"
| "rfc_reply S h (Serve r) = response_frame (mh_requestId h) (run_request S h r)"

fun rfc_keeps :: "rfc_verdict \<Rightarrow> bool" where
  "rfc_keeps (Reject st) = False"
| "rfc_keeps _ = True"

fun rfc_runs :: "rfc_verdict \<Rightarrow> Request list" where
  "rfc_runs (Serve r) = [r]"
| "rfc_runs _ = []"

subsection \<open>The body\<close>

lemma rfc_body_iff:
  assumes "length body \<le> kMaxBodyLen"
  shows "rfc_body r body \<longleftrightarrow> decodeRequest body = Some r"
proof -
  have "rfc_body r body \<longleftrightarrow> encodeRequest r = Some body"
    using assms by (auto simp: rfc_body_def encodeRequest_def nameFits_def kMaxNameLen_def Let_def Suc_le_eq)
  then show ?thesis by (simp add: raw.enc_req_iff)
qed

lemma rfc_total: "\<exists>v. rfc_says serializer h body v"
  by (metis rfc_says.intros)

subsection \<open>The server\<close>

text \<open>The reserved byte makes no difference to the frame reader.\<close>

lemma decodeHeader_reserved: "decodeHeader (xs[7 := x]) = decodeHeader xs"
proof (cases "kHeaderSize \<le> length xs")
  case True
  then show ?thesis by (rule header_bytes) (simp add: decodeHeader_Cons numeral_eq_Suc)
qed (simp add: decodeHeader_short)

lemma drain_bytes_reserved:
  assumes "frame_ok fr (h, body)"
  shows "drain_bytes fr ((encodeFrame (h, body))[7 := reserved]) = ([(h, body)], NeedMore, [])"
proof -
  have "parse_bytes fr (encodeFrame (h, body)) = (ParseOk h body, [])"
    using parse_bytes_encodeFrame [OF assms, of "[]"] by simp
  then have "parse_bytes fr ((encodeFrame (h, body))[7 := reserved]) = (ParseOk h body, [])"
    by (auto simp: parse_bytes_def decodeHeader_reserved drop_update_cancel kHeaderSize_def split: if_splits option.splits)
  then show ?thesis by (simp add: drain_bytes_Ok drain_bytes_Nil)
qed

lemma response_frame_serializer: "response_frame i r = response_frame i r' \<Longrightarrow> rs_serializerId r = rs_serializerId r'"
  by (simp add: response_frame_def encodeHeader_def responseHeader_def)

text \<open>The server's reaction to a frame that is all there is in the buffer.\<close>

lemma server_reaction:
  assumes "conn_inv c" and "tcp_connected c" and "peer_alive k" and "buffer_inv b"
    and d: "drain_bytes (sv_frameReader S) (contents b) = ([(h, body)], NeedMore, [])"
  shows "header_fault h = Some st \<Longrightarrow> \<exists>c' b'. server_onMessage S (tcp_ops k) c b = (c', b', [])
      \<and> \<not> tcp_connected c' \<and> outbox c' = outbox c @ response_frame (mh_requestId h) (mkResponse st [])"
    and "header_fault h = None \<Longrightarrow> mh_serializerId h = sv_serializerId S \<Longrightarrow> decodeRequest body = None \<Longrightarrow>
      \<exists>c' b'. server_onMessage S (tcp_ops k) c b = (c', b', [])
        \<and> \<not> tcp_connected c' \<and> outbox c' = outbox c @ response_frame (mh_requestId h) (mkResponse kMalformedBody [])"
    and "servable S (h, body) \<Longrightarrow> \<exists>c' b'. server_onMessage S (tcp_ops k) c b = (c', b', dispatched S (h, body))
        \<and> tcp_connected c' \<and> outbox c' = outbox c @ answer_frame S (h, body)"
proof -
  show "header_fault h = Some st \<Longrightarrow> \<exists>c' b'. server_onMessage S (tcp_ops k) c b = (c', b', [])
      \<and> \<not> tcp_connected c' \<and> outbox c' = outbox c @ response_frame (mh_requestId h) (mkResponse st [])"
    using tcp.server_refuses [OF assms(3,1) _ assms(4), of S "[]" h body "[]" NeedMore "[]" st] d assms(2) by simp
  show "header_fault h = None \<Longrightarrow> mh_serializerId h = sv_serializerId S \<Longrightarrow> decodeRequest body = None \<Longrightarrow>
      \<exists>c' b'. server_onMessage S (tcp_ops k) c b = (c', b', [])
        \<and> \<not> tcp_connected c' \<and> outbox c' = outbox c @ response_frame (mh_requestId h) (mkResponse kMalformedBody [])"
  proof -
    assume "header_fault h = None" "mh_serializerId h = sv_serializerId S" "decodeRequest body = None"
    from tcp.server_malformed [OF assms(1,4) d this] obtain b' where
      "server_onMessage S (tcp_ops k) c b = (rejectAndClose (tcp_ops k) (mh_requestId h) kMalformedBody c, b', [])" by auto
    then show ?thesis
      using tcp.send_invar [OF assms(1)] tcp.send_outbox [OF assms(3,1)] assms(2)
      by (simp add: rejectAndClose_sends tcp.shutdown_outbox tcp.shutdown_closes [unfolded tcp_ops_connected])
  qed
  show "servable S (h, body) \<Longrightarrow> \<exists>c' b'. server_onMessage S (tcp_ops k) c b = (c', b', dispatched S (h, body))
        \<and> tcp_connected c' \<and> outbox c' = outbox c @ answer_frame S (h, body)"
    using tcp.server_answers [OF assms(3,1) _ assms(4) d] assms(2) by auto
qed

lemma echo_frame_parts:
  "mh_version (fst (echo_frame i)) = 1" "mh_type (fst (echo_frame i)) = 1" "mh_flags (fst (echo_frame i)) = 0"
  "mh_requestId (fst (echo_frame i)) = i" "mh_status (fst (echo_frame i)) = 0"
  "mh_serializerId (fst (echo_frame i)) = sv_serializerId echo_server" "mh_magic (fst (echo_frame i)) = kMagic"
  "mh_bodyLen (fst (echo_frame i)) = 13" "rfc_body echo_request (snd (echo_frame i))"
proof -
  have "decodeRequest (snd (echo_frame i)) = Some echo_request" using echo_body(1) by (rule raw.dec_enc_req)
  then show "rfc_body echo_request (snd (echo_frame i))" using rfc_body_iff echo_body(2) by (simp add: kMaxBodyLen_def)
qed (simp_all add: echo_frame_def echo_server_def server_start_def newRpcServer_def kVersion_def kRequest_def kOk_def)

lemma echo_buffered:
  "buffer_inv (buf_append xs (newBuffer 8))" "contents (buf_append xs (newBuffer 8)) = xs"
  by (simp_all add: buffer_simps)

text \<open>C9: the server does what the protocol document says. For a complete frame, whatever its reserved byte, it
  keeps or closes the connection as prescribed, runs the request exactly when it is to be served, and sends the
  prescribed answer, as long as the frame stays clear of three points: the bits of \<open>flags\<close> that have no meaning,
  a request id of zero and a status in a request. There is a fourth point: an answer that closes the connection
  says \<open>raw\<close> whatever \<open>serializer\<close> the request has, so that the answer is the prescribed one exactly when
  the connection goes on or the request says \<open>raw\<close> too.\<close>

theorem server_follows_rfc:
  assumes "tcp_reachable k prog c" and "tcp_connected c" and "peer_alive k" and "buffer_inv b"
    and "contents b = (encodeFrame (h, body))[7 := reserved]" and "frame_ok (sv_frameReader S) (h, body)"
    and "rfc_says (sv_serializerId S) h body v"
    and "mh_flags h AND 0xFC = 0" and "mh_requestId h \<noteq> 0" and "mh_status h = 0"
    and "\<And>r. v = Serve r \<Longrightarrow> length (rs_payload (run_request S h r)) \<le> kMaxBodyLen"
  shows "\<exists>c' b'. server_onMessage S (tcp_ops k) c b = (c', b', rfc_runs v) \<and> tcp_connected c' = rfc_keeps v
    \<and> outbox c' = outbox c @ rfc_reply S (if rfc_keeps v then h else h\<lparr>mh_serializerId := kSerializerRaw\<rparr>) v
    \<and> (outbox c' = outbox c @ rfc_reply S h v \<longleftrightarrow> rfc_keeps v \<or> mh_serializerId h = kSerializerRaw)"
proof -
  note reacts = server_reaction [OF reachable_inv [OF assms(1)] assms(2-4) drain_bytes_reserved [OF assms(6), of reserved, folded assms(5)]]
  note codes = status_defs kVersion_def kRequest_def
  have len: "length body \<le> kMaxBodyLen" using assms(6) maxBodyOf_le [of "sv_frameReader S"] by simp
  have zero_flags: "mh_flags h = 0" if "mh_flags h AND 3 = 0"
  proof -
    have "(3 OR 0xFC :: byte) = - 1" by simp
    then have "mh_flags h = mh_flags h AND (3 OR 0xFC)" by (simp only: and.right_neutral)
    then show ?thesis using that assms(8) by (simp only: bit.conj_disj_distrib or.right_neutral)
  qed
  have ok: "servable S (h, body)" if "v \<noteq> Reject st" "answer S (h, body) = Some r" "length (rs_payload r) \<le> kMaxBodyLen"
    "mh_version h = 1" "mh_type h = 1" "mh_flags h AND 3 = 0" for st r
    using that zero_flags by (simp add: codes del: answer.simps)
  let ?h = "if rfc_keeps v then h else h\<lparr>mh_serializerId := kSerializerRaw\<rparr>"
  have raw: "response_frame i (mkResponse st []) = response_frame i ((mkResponse st [])\<lparr>rs_serializerId := kSerializerRaw\<rparr>)" for i st
    by (simp add: mkResponse_def)
  have "\<exists>c' b'. server_onMessage S (tcp_ops k) c b = (c', b', rfc_runs v) \<and> tcp_connected c' = rfc_keeps v
    \<and> outbox c' = outbox c @ rfc_reply S ?h v" using assms(7)
  proof cases
    case version
    then show ?thesis using reacts(1) [of kUnsupportedVersion] by (simp add: header_fault_def raw codes)
  next
    case msg_type
    then show ?thesis using reacts(1) [of kUnsupportedMsgType] by (simp add: header_fault_def raw codes)
  next
    case flags
    then have "mh_flags h \<noteq> 0" by auto
    with flags show ?thesis using reacts(1) [of kUnsupportedFlag] by (simp add: header_fault_def raw codes)
  next
    case format
    then show ?thesis
      using reacts(3) ok [of _ "serializer_rejection h"]
      by (simp add: serializer_rejection_def mkResponse_def dispatched_def answer_frame_def codes)
  next
    case malformed
    then have "decodeRequest body = None" using rfc_body_iff [OF len] by (metis not_None_eq)
    then show ?thesis using malformed zero_flags reacts(2) by (simp add: header_fault_def raw codes)
  next
    case (serve r)
    then have "decodeRequest body = Some r" using rfc_body_iff [OF len] by blast
    then show ?thesis
      using serve reacts(3) ok [of _ "run_request S h r"] assms(11) by (simp add: dispatched_def answer_frame_def)
  qed (use assms(9,10) in simp_all)
  moreover have "rfc_reply S ?h v = rfc_reply S h v \<longleftrightarrow> rfc_keeps v \<or> mh_serializerId h = kSerializerRaw"
    by (cases v) (auto dest: response_frame_serializer)
  ultimately show ?thesis by auto
qed

theorem server_follows_rfc_witness:
  "\<exists>c' b'. server_onMessage echo_server (tcp_ops (\<lambda>_. Inr 1)) sample_connection
       (buf_append ((encodeFrame (echo_frame 7))[7 := 5]) (newBuffer 8)) = (c', b', [echo_request])
     \<and> tcp_connected c' \<and> outbox c' = rfc_reply echo_server (fst (echo_frame 7)) (Serve echo_request)"
proof -
  note p = echo_frame_parts [of 7]
  have "rfc_says (sv_serializerId echo_server) (fst (echo_frame 7)) (snd (echo_frame 7)) (Serve echo_request)"
    by (rule serve) (simp_all add: p)
  moreover have "peer_alive (\<lambda>_. Inr 1)" by (simp add: peer_alive_def)
  moreover have "length (rs_payload (run_request echo_server (fst (echo_frame 7)) echo_request)) \<le> kMaxBodyLen"
    by (simp add: run_request_def echo_server_def server_start_def newRpcServer_def freeze_def registerMethod_def
        newServiceRegistry_def dispatch_def echo_request_def mkResponse_def kMaxBodyLen_def Let_def)
  ultimately show ?thesis
    using server_follows_rfc [OF sample_reachable(1,2) _ echo_buffered, where h = "fst (echo_frame 7)"
        and body = "snd (echo_frame 7)" and reserved = 5 and S = echo_server and v = "Serve echo_request"]
      echo_frame_served(1) [of 7] p by (simp add: sample_input(2) del: encodeFrame.simps)
qed

text \<open>C37: where the server departs from the document. A request whose id is zero, or that carries a status, is
  to be rejected and the connection closed: the server runs it and answers as usual. A request with a bit
  of \<open>flags\<close> set that has no meaning is to be served: the server rejects it and closes the connection.\<close>

theorem server_departs_from_rfc:
  assumes "tcp_reachable k prog c" and "tcp_connected c" and "peer_alive k" and "buffer_inv b"
    and "contents b = encodeFrame (h, body)" and "frame_ok (sv_frameReader S) (h, body)"
  shows "(servable S (h, body) \<and> (mh_requestId h = 0 \<or> mh_status h \<noteq> 0) \<longrightarrow>
        (\<exists>c' b'. server_onMessage S (tcp_ops k) c b = (c', b', dispatched S (h, body)) \<and> tcp_connected c'
          \<and> outbox c' = outbox c @ answer_frame S (h, body))
        \<and> (\<forall>v. rfc_says (sv_serializerId S) h body v \<longrightarrow> rfc_runs v = [] \<and> \<not> rfc_keeps v))
    \<and> (servable S (h\<lparr>mh_flags := 0\<rparr>, body) \<and> mh_flags h \<noteq> 0 \<and> mh_flags h AND 3 = 0 \<longrightarrow>
        (\<exists>c' b'. server_onMessage S (tcp_ops k) c b = (c', b', []) \<and> \<not> tcp_connected c')
        \<and> (\<forall>v. mh_requestId h \<noteq> 0 \<and> mh_status h = 0 \<and> rfc_says (sv_serializerId S) h body v \<longrightarrow> rfc_keeps v))"
proof -
  have "drain_bytes (sv_frameReader S) (contents b) = ([(h, body)], NeedMore, [])"
    using drain_bytes_frames [of "sv_frameReader S" "[(h, body)]" "[]"] assms(5,6) by (simp add: drain_bytes_Nil)
  note reacts = server_reaction [OF reachable_inv [OF assms(1)] assms(2-4) this]
  note codes = kVersion_def kRequest_def
  have len: "length body \<le> kMaxBodyLen" using assms(6) maxBodyOf_le [of "sv_frameReader S"] by simp
  have "\<not> rfc_keeps v \<and> rfc_runs v = []"
    if "servable S (h, body)" "mh_requestId h = 0 \<or> mh_status h \<noteq> 0" "rfc_says (sv_serializerId S) h body v" for v
    using that(3) that(1,2) by cases (auto simp: codes)
  moreover have "rfc_keeps v" if "servable S (h\<lparr>mh_flags := 0\<rparr>, body)" "mh_flags h AND 3 = 0" "mh_requestId h \<noteq> 0"
    "mh_status h = 0" "rfc_says (sv_serializerId S) h body v" for v
    using that(5) that(1-4) rfc_body_iff [OF len] by cases (auto simp: codes split: option.splits if_splits)
  moreover have "header_fault h = Some kUnsupportedFlag" if "servable S (h\<lparr>mh_flags := 0\<rparr>, body)" "mh_flags h \<noteq> 0"
    using that by (simp add: header_fault_def)
  ultimately show ?thesis using reacts(1) [of kUnsupportedFlag] reacts(3) by blast
qed

theorem server_departs_from_rfc_witness:
  "\<exists>h c' b'. mh_flags h = 4 \<and> rfc_says (sv_serializerId echo_server) h (snd (echo_frame 7)) (Serve echo_request)
     \<and> server_onMessage echo_server (tcp_ops (\<lambda>_. Inr 1)) sample_connection
         (buf_append (encodeFrame (h, snd (echo_frame 7))) (newBuffer 8)) = (c', b', []) \<and> \<not> tcp_connected c'"
proof -
  let ?h = "(fst (echo_frame 7))\<lparr>mh_flags := 4\<rparr>" and ?body = "snd (echo_frame 7)"
  note p = echo_frame_parts [of 7]
  have r: "rfc_says (sv_serializerId echo_server) ?h ?body (Serve echo_request)"
    by (rule serve) (simp_all add: p)
  have "?h\<lparr>mh_flags := 0\<rparr> = fst (echo_frame 7)" using p(3) by (cases "fst (echo_frame 7)") simp
  then have s: "servable echo_server (?h\<lparr>mh_flags := 0\<rparr>, ?body)" using echo_frame_served(2) [of 7] by simp
  have f: "frame_ok (sv_frameReader echo_server) (?h, ?body)"
    using echo_frame_served(1) [of 7] by (cases "echo_frame 7") simp
  have "peer_alive (\<lambda>_. Inr 1)" by (simp add: peer_alive_def)
  from server_departs_from_rfc [OF sample_reachable(1,2) this echo_buffered f] s
  have "\<exists>c' b'. server_onMessage echo_server (tcp_ops (\<lambda>_. Inr 1)) sample_connection
      (buf_append (encodeFrame (?h, ?body)) (newBuffer 8)) = (c', b', []) \<and> \<not> tcp_connected c'"
    by (simp del: servable.simps encodeFrame.simps)
  with r show ?thesis by (intro exI [of _ ?h]) (simp del: encodeFrame.simps)
qed

subsection \<open>The reference vectors\<close>

text \<open>Section 5: the bytes of a request, of a response and of an error response.\<close>

definition golden_request :: Request where
  "golden_request = \<lparr>rq_service = ascii ''UserService'', rq_method = ascii ''GetUser'',
     rq_payload = [0x7B, 0x22] @ ascii ''id'' @ [0x22, 0x3A] @ ascii ''42}''\<rparr>"

definition golden_header :: "MessageType \<Rightarrow> StatusCode \<Rightarrow> u32 \<Rightarrow> bytes \<Rightarrow> MessageHeader" where
  "golden_header type status i body =
     \<lparr>mh_magic = kMagic, mh_version = kVersion, mh_type = type, mh_flags = 0, mh_status = status,
      mh_serializerId = kSerializerRaw, mh_requestId = i, mh_bodyLen = of_nat (length body)\<rparr>"

definition golden_bytes :: bytes where
  "golden_bytes =
     [0x52, 0x4e, 0x01, 0x01, 0x00, 0x00, 0x00, 0x00, 0x01, 0x00, 0x00, 0x00, 0x1f, 0x00, 0x00, 0x00,
      0x0b, 0x00, 0x55, 0x73, 0x65, 0x72, 0x53, 0x65, 0x72, 0x76, 0x69, 0x63, 0x65, 0x07, 0x00, 0x47,
      0x65, 0x74, 0x55, 0x73, 0x65, 0x72, 0x7b, 0x22, 0x69, 0x64, 0x22, 0x3a, 0x34, 0x32, 0x7d]"

text \<open>What the client sends for the first call of \<open>UserService.GetUser\<close> are the bytes of the document, and the error
  of section 5.3 is laid out as there.\<close>

theorem golden_vectors:
  "map_option (\<lambda>body. encodeFrame (requestHeader kSerializerRaw 1 body, body)) (encodeRequest golden_request)
     = Some golden_bytes"
  "encodeHeader (golden_header kResponse kOk 1 (replicate 24 0))
     = [0x52, 0x4e, 0x01, 0x02, 0x00, 0x00, 0x00, 0x00, 0x01, 0x00, 0x00, 0x00, 0x18, 0x00, 0x00, 0x00]"
  "encodeHeader (golden_header kResponse kUnsupportedVersion 7 (ascii ''unsupported version: 0x02''))
     = [0x52, 0x4e, 0x01, 0x02, 0x00, 0x01, 0x00, 0x00, 0x07, 0x00, 0x00, 0x00, 0x19, 0x00, 0x00, 0x00]"
  by (simp_all add: encodeHeader_def golden_header_def requestHeader_def putU16_def putU32_def golden_request_def golden_bytes_def
      encodeRequest_def nameFits_def kMaxNameLen_def kMaxBodyLen_def kMagic_def kVersion_def kRequest_def kResponse_def
      kSerializerRaw_def status_defs)

end
