(* ===== verification/Ordered_Map.thy ===== *)
theory Ordered_Map
  imports Prelude "HOL-Library.List_Lexorder"
begin

section \<open>The ordered map of the standard library\<close>

text \<open>
  What \<open>src/HttpRequest.cpp\<close> and \<open>src/HttpResponse.cpp\<close> use of \<open>std::map\<close>: assignment through
  \<open>operator[]\<close>, \<open>find\<close> and iteration. The map is the list of its entries in the order of iteration,
  so \<open>find\<close> is \<^const>\<open>map_of\<close>. Keys of type \<open>std::string\<close> are ordered byte by byte, which is the
  order of the library theory on lists.
\<close>

fun map_assign :: "'k::linorder \<Rightarrow> 'v \<Rightarrow> ('k \<times> 'v) list \<Rightarrow> ('k \<times> 'v) list" where
  "map_assign k v [] = [(k, v)]"
| "map_assign k v ((k', v') # m) =
     (if k < k' then (k, v) # (k', v') # m
      else if k = k' then (k, v) # m
      else (k', v') # map_assign k v m)"

definition map_inv :: "('k::linorder \<times> 'v) list \<Rightarrow> bool" where
  "map_inv m \<longleftrightarrow> sorted_wrt (<) (map fst m)"

lemma map_of_assign [simp]: "map_of (map_assign k v m) = (map_of m)(k \<mapsto> v)"
  by (induction k v m rule: map_assign.induct) auto

lemma fst_set_assign: "fst ` set (map_assign k v m) = insert k (fst ` set m)"
  by (induction k v m rule: map_assign.induct) auto

lemma map_inv_assign: "map_inv m \<Longrightarrow> map_inv (map_assign k v m)"
proof (induction k v m rule: map_assign.induct)
  case (2 k v k' v' m)
  then show ?case
    using fst_set_assign [of k v m] by (auto simp: map_inv_def simp flip: set_map)
qed (simp add: map_inv_def)

lemma map_inv_Nil [simp]: "map_inv []"
  by (simp add: map_inv_def)

lemma map_inv_unique:
  assumes "map_inv m" and "map_inv m'" and "map_of m = map_of m'"
  shows "m = m'"
proof -
  have d: "sorted (map fst m)" "distinct (map fst m)" "sorted (map fst m')" "distinct (map fst m')"
    using assms(1,2) by (auto simp: map_inv_def strict_sorted_iff)
  then have s: "set m = set m'" using assms(3) by (metis map_of_eq_Some_iff subrelI subset_antisym)
  with d(2) have "inj_on fst (set m \<union> set m')" by (simp add: distinct_map)
  then show ?thesis using d s by (rule map_sorted_distinct_set_unique)
qed

end
