(* ===== verification/Http_Request.thy ===== *)
theory Http_Request
  imports Charconv Ordered_Map
begin

section \<open>HTTP requests\<close>

text \<open>
  \<open>include/HttpRequest.h\<close> and \<open>src/HttpRequest.cpp\<close>. A pointer range \<open>[begin, end)\<close> is the list of
  its bytes, and the member functions return the object after the call together with their result.
  \<open>std::stoi\<close> may throw, so the functions that call it return a sum; an exception leaves the object
  to be destroyed. Extraction from the string stream is that of the classic locale. The pattern of
  each \<open>std::search\<close> is given in the sources by two equal literals, one for its begin and one for
  its end; the model reads them as the one array that compilers make of equal literals. Log lines
  are left out.
\<close>

subsection \<open>Standard library\<close>

definition isspace :: "byte \<Rightarrow> bool" where
  "isspace c \<longleftrightarrow> c = 0x20 \<or> 0x09 \<le> c \<and> c \<le> 0x0D"

text \<open>\<open>iss >> word\<close>: the word and the rest of the stream, \<^const>\<open>None\<close> when the stream fails.\<close>

definition stream_word :: "bytes \<Rightarrow> (bytes \<times> bytes) option" where
  "stream_word s =
     (let t = dropWhile isspace s; w = takeWhile (\<lambda>c. \<not> isspace c) t
      in if w = [] then None else Some (w, drop (length w) t))"

datatype stoi_error = invalid_argument | out_of_range

definition stoi :: "bytes \<Rightarrow> stoi_error + int" where
  "stoi s =
     (let t = dropWhile isspace s;
          neg = (t \<noteq> [] \<and> hd t = 0x2D);
          ds = takeWhile isDigit (if t \<noteq> [] \<and> hd t \<in> {0x2B, 0x2D} then tl t else t);
          v = (if neg then - int (dec_value ds) else int (dec_value ds))
      in if ds = [] then Inl invalid_argument
         else if - (2 ^ 31) \<le> v \<and> v < 2 ^ 31 then Inr v
         else Inl out_of_range)"

text \<open>What \<open>s.c_str()\<close> is to a function that takes a C string.\<close>

definition c_str :: "bytes \<Rightarrow> bytes" where
  "c_str s = takeWhile (\<lambda>c. c \<noteq> 0) s"

subsection \<open>State and operations\<close>

datatype Method = kInvalid | kGet

record HttpRequest =
  hr_method :: Method
  hr_path :: bytes
  hr_query :: bytes
  hr_headers :: "(bytes \<times> bytes) list"
  hr_majorVersion :: int
  hr_minorVersion :: int

definition newHttpRequest :: HttpRequest where
  "newHttpRequest =
     \<lparr>hr_method = kInvalid, hr_path = [], hr_query = [], hr_headers = [],
      hr_majorVersion = 1, hr_minorVersion = 0\<rparr>"

definition hexToInt :: "byte \<Rightarrow> int" where
  "hexToInt c =
     (if 0x30 \<le> c \<and> c \<le> 0x39 then uint c - 0x30
      else if 0x61 \<le> c \<and> c \<le> 0x66 then uint c - 0x61 + 10
      else if 0x41 \<le> c \<and> c \<le> 0x46 then uint c - 0x41 + 10
      else - 1)"

fun urlDecode :: "bytes \<Rightarrow> bytes" where
  "urlDecode [] = []"
| "urlDecode (c # xs) =
     (if c = 0x25 \<and> 2 \<le> length xs then
        (let h = hexToInt (xs ! 0); l = hexToInt (xs ! 1)
         in if 0 \<le> h \<and> 0 \<le> l then word_of_int (push_bit 4 h OR l) # urlDecode (drop 2 xs)
            else 0x25 # urlDecode xs)
      else if c = 0x2B then 0x20 # urlDecode xs
      else c # urlDecode xs)"

definition splitQuery :: "bytes \<Rightarrow> HttpRequest \<Rightarrow> HttpRequest" where
  "splitQuery path req =
     (case std_search [0x3F] path of
        Some queryPos \<Rightarrow> req\<lparr>hr_query := drop (queryPos + 1) path, hr_path := take queryPos path\<rparr>
      | None \<Rightarrow> req\<lparr>hr_path := path\<rparr>)"

definition parseVersion :: "bytes \<Rightarrow> HttpRequest \<Rightarrow> stoi_error + HttpRequest" where
  "parseVersion version req =
     (if 5 \<le> length version \<and> take 5 version = ascii ''HTTP/'' then
        (let verStr = drop 5 version
         in case std_search [0x2E] verStr of
              None \<Rightarrow> Inr req
            | Some dotPos \<Rightarrow>
                (case stoi (take dotPos verStr) of
                   Inl e \<Rightarrow> Inl e
                 | Inr major \<Rightarrow>
                     (case stoi (drop (dotPos + 1) verStr) of
                        Inl e \<Rightarrow> Inl e
                      | Inr minor \<Rightarrow> Inr (req\<lparr>hr_majorVersion := major, hr_minorVersion := minor\<rparr>))))
      else Inr req)"

definition request_words :: "bytes \<Rightarrow> (bytes \<times> bytes \<times> bytes) option" where
  "request_words line =
     (case stream_word line of
        None \<Rightarrow> None
      | Some (m, s1) \<Rightarrow>
          (case stream_word s1 of
             None \<Rightarrow> None
           | Some (p, s2) \<Rightarrow>
               (case stream_word s2 of None \<Rightarrow> None | Some (v, s3) \<Rightarrow> Some (m, p, v))))"

definition parseRequestLine :: "bytes \<Rightarrow> HttpRequest \<Rightarrow> stoi_error + bool \<times> HttpRequest" where
  "parseRequestLine requestLine req =
     (case request_words requestLine of
        None \<Rightarrow> Inr (False, req)
      | Some (m, path, version) \<Rightarrow>
          if m \<noteq> ascii ''GET'' then Inr (False, req\<lparr>hr_method := kInvalid\<rparr>)
          else
            (let req1 = splitQuery path (req\<lparr>hr_method := kGet\<rparr>);
                 req2 = req1\<lparr>hr_path := urlDecode (hr_path req1)\<rparr>
             in if std_search (ascii ''..'') (hr_path req2) \<noteq> None then Inr (False, req2)
                else
                  (let req3 = (if hr_path req2 = ascii ''/'' then req2\<lparr>hr_path := ascii ''/index.html''\<rparr>
                               else req2)
                   in case parseVersion version req3 of
                        Inl e \<Rightarrow> Inl e
                      | Inr req4 \<Rightarrow> Inr (True, req4))))"

definition is_blank :: "byte \<Rightarrow> bool" where
  "is_blank c \<longleftrightarrow> c = 0x20 \<or> c = 0x09"

definition trim :: "bytes \<Rightarrow> bytes" where
  "trim s = rev (dropWhile is_blank (rev (dropWhile is_blank s)))"

definition parseHeaderLine :: "bytes \<Rightarrow> HttpRequest \<Rightarrow> HttpRequest" where
  "parseHeaderLine line req =
     (case std_search [0x3A] line of
        None \<Rightarrow> req
      | Some colonPos \<Rightarrow>
          req\<lparr>hr_headers := map_assign (trim (take colonPos line)) (trim (drop (colonPos + 1) line))
                             (hr_headers req)\<rparr>)"

abbreviation crlf :: bytes where
  "crlf \<equiv> [0x0D, 0x0A]"

function parseHeaders :: "bytes \<Rightarrow> HttpRequest \<Rightarrow> bool \<times> HttpRequest" where
  "parseHeaders xs req =
     (if xs = [] then (False, req)
      else case std_search crlf xs of
        None \<Rightarrow> (False, req)
      | Some n \<Rightarrow>
          if n = 0 then (True, req)
          else parseHeaders (drop (n + 2) xs) (parseHeaderLine (take n xs) req))"
  by pat_completeness auto
termination
  by (relation "measure (length \<circ> fst)") auto

declare parseHeaders.simps [simp del]

definition parseRequest :: "bytes \<Rightarrow> HttpRequest \<Rightarrow> stoi_error + bool \<times> HttpRequest" where
  "parseRequest xs req =
     (case std_search crlf xs of
        None \<Rightarrow> Inr (False, req)
      | Some n \<Rightarrow>
          (case parseRequestLine (take n xs) req of
             Inl e \<Rightarrow> Inl e
           | Inr (ok, req1) \<Rightarrow>
               if \<not> ok then Inr (False, req1) else Inr (parseHeaders (drop (n + 2) xs) req1)))"

definition getHeader :: "bytes \<Rightarrow> HttpRequest \<Rightarrow> bytes" where
  "getHeader field req = (case map_of (hr_headers req) field of Some v \<Rightarrow> v | None \<Rightarrow> [])"

subsection \<open>Where a request ends\<close>

abbreviation crlf2 :: bytes where
  "crlf2 \<equiv> [0x0D, 0x0A, 0x0D, 0x0A]"

text \<open>The empty line ends the header lines: searching for two line ends in a row skips every line
  that is not empty.\<close>

lemma search_crlf2_first:
  assumes "std_search crlf xs = Some n"
  shows "std_search crlf2 xs = map_option ((+) n) (std_search crlf2 (crlf @ drop (n + 2) xs))"
proof -
  have s: "n + 2 \<le> length xs" "take 2 (drop n xs) = crlf" "\<And>j. j < n \<Longrightarrow> take 2 (drop j xs) \<noteq> crlf"
    using std_search_Some [OF assms] std_search_first [OF assms] by (simp_all add: numeral_2_eq_2)
  have "take (length crlf2) (drop j xs) \<noteq> crlf2" if "j < n" for j
  proof
    assume "take (length crlf2) (drop j xs) = crlf2"
    then have "take 2 (crlf2 @ drop (length crlf2) (drop j xs)) = take 2 (drop j xs)"
      by (metis append_take_drop_id)
    with s(3) [OF that] show False by simp
  qed
  moreover have "drop n xs = crlf @ drop (n + 2) xs" using s(2) take_drop_chain [of 2 n xs] by simp
  ultimately show ?thesis using std_search_skip [of n crlf2 xs] s(1) by simp
qed

lemma search_crlf2_line:
  assumes "std_search crlf xs = Some n" and "0 < n"
  shows "std_search crlf2 (crlf @ xs) = map_option ((+) (n + 2)) (std_search crlf2 (crlf @ drop (n + 2) xs))"
proof -
  have "take (Suc (Suc 0)) xs \<noteq> crlf" using std_search_first [OF assms(1,2)] by simp
  then have "std_search crlf2 (crlf @ xs) = map_option (\<lambda>k. Suc (Suc k)) (std_search crlf2 xs)"
    by (simp add: option.map_comp comp_def)
  also have "\<dots> = map_option (\<lambda>k. Suc (Suc (n + k))) (std_search crlf2 (crlf @ drop (n + 2) xs))"
    by (simp only: search_crlf2_first [OF assms(1)] option.map_comp comp_def)
  also have "(\<lambda>k. Suc (Suc (n + k))) = (+) (n + 2)" by auto
  finally show ?thesis .
qed

lemma search_line: "0x0D \<notin> set l \<Longrightarrow> std_search crlf (l @ crlf @ ys) = Some (length l)"
  using std_search_here [of "0x0D" l "[0x0A]" ys] by simp

lemma search_crlf2_after:
  "0x0D \<notin> set l \<Longrightarrow> std_search crlf2 (l @ crlf @ ys) = map_option ((+) (length l)) (std_search crlf2 (crlf @ ys))"
  "0x0D \<notin> set l \<Longrightarrow> l \<noteq> [] \<Longrightarrow>
     std_search crlf2 (crlf @ l @ crlf @ ys) = map_option ((+) (length l + 2)) (std_search crlf2 (crlf @ ys))"
  using search_crlf2_first [OF search_line [of l ys]] search_crlf2_line [OF search_line [of l ys]]
  by (simp_all del: std_search.simps)

lemma search_crlf2_None:
  assumes "std_search crlf xs = None"
  shows "std_search crlf2 (crlf @ xs) = None"
proof (rule ccontr)
  assume "std_search crlf2 (crlf @ xs) \<noteq> None"
  then obtain n where n: "std_search crlf2 (crlf @ xs) = Some n" by blast
  have "take 4 (drop n (crlf @ xs)) = crlf2" using std_search_Some [OF n] by (simp add: numeral_eq_Suc)
  then have "take 2 (drop 2 (take 4 (drop n (crlf @ xs)))) = crlf" by simp
  then have "take 2 (drop n xs) = crlf" by (simp add: drop_take)
  with std_search_None [OF assms, of n] show False by (simp add: numeral_2_eq_2)
qed

lemma parseHeaders_complete: "fst (parseHeaders xs req) \<longleftrightarrow> std_search crlf2 (crlf @ xs) \<noteq> None"
proof (induction xs req rule: parseHeaders.induct)
  case (1 xs req)
  show ?case
  proof (cases "std_search crlf xs")
    case None
    then show ?thesis using search_crlf2_None [OF None] by (subst parseHeaders.simps) simp
  next
    case (Some n)
    show ?thesis
    proof (cases "n = 0")
      case True
      with Some have "xs \<noteq> []" "take (Suc (Suc 0)) xs = crlf" using std_search_Some [OF Some] by auto
      with True Some show ?thesis by (subst parseHeaders.simps) simp
    next
      case False
      moreover have "xs \<noteq> []" using Some by auto
      ultimately show ?thesis using 1 Some search_crlf2_line [OF Some]
        by (subst parseHeaders.simps) (auto simp del: append.simps std_search.simps split: if_splits)
    qed
  qed
qed

lemma parseHeaders_take:
  "std_search crlf2 (crlf @ xs) = Some n \<Longrightarrow> n + 2 \<le> k \<Longrightarrow> parseHeaders (take k xs) req = parseHeaders xs req"
proof (induction xs req arbitrary: n k rule: parseHeaders.induct)
  case (1 xs req)
  then obtain m where m: "std_search crlf xs = Some m"
    using search_crlf2_None by (cases "std_search crlf xs") auto
  then have xs: "xs \<noteq> []" "m + 2 \<le> length xs" using std_search_Some [OF m] by auto
  show ?case
  proof (cases "m = 0")
    case True
    with 1(3) have "std_search crlf (take k xs) = Some 0" using std_search_take [OF m] by simp
    with m True xs 1(3) show ?thesis by (subst (1 2) parseHeaders.simps) simp
  next
    case False
    with 1(2) search_crlf2_line [OF m] obtain n' where
      n': "std_search crlf2 (crlf @ drop (m + 2) xs) = Some n'" "n = m + 2 + n'"
      by (auto simp del: std_search.simps append.simps)
    have "parseHeaders (take (k - (m + 2)) (drop (m + 2) xs)) (parseHeaderLine (take m xs) req)
        = parseHeaders (drop (m + 2) xs) (parseHeaderLine (take m xs) req)"
      using 1(1) [OF xs(1) m _ n'(1), of "k - (m + 2)"] False 1(3) n'(2) by simp
    moreover have "std_search crlf (take k xs) = Some m"
      using std_search_take [OF m, of k] 1(3) n'(2) by simp
    ultimately show ?thesis using False m xs 1(3) n'(2)
      by (subst (1 2) parseHeaders.simps) (simp add: drop_take min_def del: std_search.simps)
  qed
qed

lemma parseRequestLine_Nil [simp]: "parseRequestLine [] req = Inr (False, req)"
  by (simp add: parseRequestLine_def request_words_def stream_word_def)

text \<open>A request ends at the first empty line: what follows does not change how it is parsed, and
  before that no beginning of it is taken for a request.\<close>

lemma parseRequest_take:
  assumes "std_search crlf2 xs = Some n" and "n + 4 \<le> k"
  shows "parseRequest (take k xs) req = parseRequest xs req"
proof (cases "std_search crlf xs")
  case None
  with assms(1) show ?thesis
    using search_crlf2_None [OF None] std_search_skip [of 2 crlf2 "crlf @ xs"] std_search_append [OF assms(1)]
    by (auto split: if_splits)
next
  case (Some m)
  with assms(1) search_crlf2_first [OF Some] obtain n' where
    n': "std_search crlf2 (crlf @ drop (m + 2) xs) = Some n'" "n = m + n'"
    by (auto simp del: std_search.simps append.simps)
  have "std_search crlf (take k xs) = Some m" "take m (take k xs) = take m xs"
    using std_search_take [OF Some, of k] assms(2) n'(2) by (simp_all add: min_def)
  moreover have "parseHeaders (drop (m + 2) (take k xs)) r = parseHeaders (drop (m + 2) xs) r" for r
    using parseHeaders_take [OF n'(1), of "k - (m + 2)"] assms(2) n'(2) by (simp add: drop_take)
  ultimately show ?thesis using Some by (simp add: parseRequest_def split: sum.splits prod.splits)
qed

lemma parseRequest_True:
  assumes "parseRequest xs req = Inr (True, req')"
  obtains m n r where "std_search crlf xs = Some m" and "0 < m" and "std_search crlf2 xs = Some n"
    and "m \<le> n" and "parseRequestLine (take m xs) req = Inr (True, r)"
    and "parseHeaders (drop (m + 2) xs) r = (True, req')"
proof -
  from assms obtain m r where m: "std_search crlf xs = Some m"
    and l: "parseRequestLine (take m xs) req = Inr (True, r)"
    and h: "parseHeaders (drop (m + 2) xs) r = (True, req')"
    by (auto simp: parseRequest_def split: option.splits sum.splits if_splits)
  from l have "0 < m" by (cases m) auto
  moreover from parseHeaders_complete [of "drop (m + 2) xs" r] h obtain n' where
    "std_search crlf2 (crlf @ drop (m + 2) xs) = Some n'" by auto
  with search_crlf2_first [OF m] have "std_search crlf2 xs = Some (m + n')" by simp
  ultimately show thesis using that m l h by simp
qed

lemma parseRequest_prefix:
  assumes "parseRequest xs req = Inr (True, req')" and "std_search crlf2 xs = Some n" and "k < n + 4"
  shows "\<exists>r. parseRequest (take k xs) req = Inr (False, r)"
proof -
  from parseRequest_True [OF assms(1)] obtain m r where m: "std_search crlf xs = Some m" "0 < m"
    "parseRequestLine (take m xs) req = Inr (True, r)" by metis
  show ?thesis
  proof (cases "k < m + 2")
    case True
    then have "std_search crlf (take k xs) = None" using std_search_prefix_None [OF m(1)] by simp
    then show ?thesis by (simp add: parseRequest_def)
  next
    case False
    then have s: "std_search crlf (take k xs) = Some m" and t: "take m (take k xs) = take m xs"
      using std_search_take [OF m(1)] by (simp_all add: min_def)
    have "std_search crlf2 (take k xs) = None" using std_search_prefix_None [OF assms(2)] assms(3) by simp
    then have "std_search crlf2 (crlf @ drop (m + 2) (take k xs)) = None"
      using search_crlf2_first [OF s] by (simp del: std_search.simps append.simps)
    then have "\<not> fst (parseHeaders (drop (m + 2) (take k xs)) r)" using parseHeaders_complete by metis
    then show ?thesis using s t m(3) by (simp add: parseRequest_def prod_eq_iff)
  qed
qed

subsection \<open>Percent-encoding\<close>

text \<open>How a client writes a path: letters, digits and a few marks stand for themselves, every other
  byte for its two hexadecimal digits behind a percent sign.\<close>

definition unreserved :: "byte \<Rightarrow> bool" where
  "unreserved c \<longleftrightarrow> isDigit c \<or> 0x41 \<le> c \<and> c \<le> 0x5A \<or> 0x61 \<le> c \<and> c \<le> 0x7A
     \<or> c \<in> {0x2D, 0x2E, 0x2F, 0x5F, 0x7E}"

definition percentDigit :: "int \<Rightarrow> byte" where
  "percentDigit n = (if n < 10 then 0x30 + word_of_int n else 0x37 + word_of_int n)"

definition encodeByte :: "byte \<Rightarrow> bytes" where
  "encodeByte c =
     (if unreserved c then [c] else [0x25, percentDigit (drop_bit 4 (uint c)), percentDigit (take_bit 4 (uint c))])"

definition urlEncode :: "bytes \<Rightarrow> bytes" where
  "urlEncode xs = concat (map encodeByte xs)"

lemma hex_table: "list_all (\<lambda>n. hexToInt (percentDigit n) = n \<and> unreserved (percentDigit n)) [0..15]"
  by code_simp

lemma hexToInt_percentDigit: "0 \<le> n \<Longrightarrow> n < 16 \<Longrightarrow> hexToInt (percentDigit n) = n"
  and unreserved_percentDigit: "0 \<le> n \<Longrightarrow> n < 16 \<Longrightarrow> unreserved (percentDigit n)"
  using hex_table by (simp_all add: list_all_iff)

lemma nibbles: "0 \<le> drop_bit 4 (uint c)" "drop_bit 4 (uint c) < 16" "0 \<le> take_bit 4 (uint c)" "take_bit 4 (uint c) < 16"
  for c :: byte
  using uint_lt2p [of c] by (simp, simp add: drop_bit_eq_div, simp, simp add: take_bit_eq_mod)

lemma nibbles_join: "word_of_int (push_bit 4 (drop_bit 4 (uint c)) OR take_bit 4 (uint c)) = c" for c :: byte
proof -
  have "push_bit 4 (drop_bit 4 (uint c)) OR take_bit 4 (uint c) = uint c"
    by (rule bit_eqI) (auto simp: bit_simps)
  then show ?thesis by simp
qed

lemma urlDecode_encode: "urlDecode (urlEncode xs) = xs"
proof (induction xs)
  case Nil
  then show ?case by (simp add: urlEncode_def)
next
  case (Cons c xs)
  show ?case
  proof (cases "unreserved c")
    case True
    then have "c \<noteq> 0x25" "c \<noteq> 0x2B" by (auto simp: unreserved_def isDigit_def)
    with True Cons show ?thesis by (simp add: urlEncode_def encodeByte_def)
  next
    case False
    with Cons show ?thesis
      by (simp add: urlEncode_def encodeByte_def hexToInt_percentDigit nibbles nibbles_join)
  qed
qed

lemma set_urlEncode: "c \<in> set (urlEncode xs) \<Longrightarrow> unreserved c \<or> c = 0x25"
  by (auto simp: urlEncode_def encodeByte_def unreserved_percentDigit nibbles split: if_splits)

subsection \<open>What a client writes\<close>

definition header_line :: "bytes \<times> bytes \<Rightarrow> bytes" where
  "header_line = (\<lambda>(k, v). k @ [0x3A, 0x20] @ v)"

definition request_line :: "bytes \<Rightarrow> bytes \<Rightarrow> bytes" where
  "request_line path query =
     ascii ''GET '' @ urlEncode path @ (if query = [] then [] else 0x3F # query) @ ascii '' HTTP/1.1''"

definition request_text :: "bytes \<Rightarrow> bytes \<Rightarrow> (bytes \<times> bytes) list \<Rightarrow> bytes" where
  "request_text path query headers =
     request_line path query @ crlf @ concat (map (\<lambda>h. header_line h @ crlf) headers) @ crlf"

definition path_ok :: "bytes \<Rightarrow> bool" where
  "path_ok path \<longleftrightarrow> path \<noteq> [] \<and> std_search (ascii ''..'') path = None"

definition query_ok :: "bytes \<Rightarrow> bool" where
  "query_ok query \<longleftrightarrow> list_all (\<lambda>c. \<not> isspace c) query"

definition header_ok :: "bytes \<times> bytes \<Rightarrow> bool" where
  "header_ok = (\<lambda>(k, v). trim k = k \<and> trim v = v \<and> 0x3A \<notin> set k \<and> 0x0D \<notin> set k \<and> 0x0D \<notin> set v)"

lemma stream_word_here:
  assumes "w \<noteq> []" and "list_all (\<lambda>c. \<not> isspace c) w" and "isspace c"
  shows "stream_word (w @ c # s) = Some (w, c # s)" and "stream_word (c # w) = Some (w, [])"
    and "stream_word (c # w @ c # s) = Some (w, c # s)"
proof -
  have d: "dropWhile isspace (w @ s') = w @ s'" for s' using assms(1,2) by (cases w) auto
  have t: "takeWhile (\<lambda>c. \<not> isspace c) (w @ c # s) = w" "takeWhile (\<lambda>c. \<not> isspace c) w = w"
    using assms(2,3) by (simp_all add: takeWhile_append2 takeWhile_eq_all_conv list_all_iff)
  show "stream_word (w @ c # s) = Some (w, c # s)" "stream_word (c # w) = Some (w, [])"
    "stream_word (c # w @ c # s) = Some (w, c # s)"
    using d [of "c # s"] d [of "[]"] assms(1,3) by (simp_all add: stream_word_def Let_def t)
qed

lemma unreserved_not: "unreserved c \<Longrightarrow> \<not> isspace c \<and> c \<noteq> 0x3F \<and> c \<noteq> 0x0D"
  by (auto simp: unreserved_def isspace_def isDigit_def word_le_nat_alt)

lemma urlEncode_plain: "list_all (\<lambda>c. \<not> isspace c) (urlEncode xs)" "0x3F \<notin> set (urlEncode xs)" "0x0D \<notin> set (urlEncode xs)"
  "xs \<noteq> [] \<Longrightarrow> urlEncode xs \<noteq> []"
proof -
  have "\<not> isspace c \<and> c \<noteq> 0x3F \<and> c \<noteq> 0x0D" if "c \<in> set (urlEncode xs)" for c
    using set_urlEncode [OF that] unreserved_not [of c] by (auto simp: isspace_def)
  then show "list_all (\<lambda>c. \<not> isspace c) (urlEncode xs)" "0x3F \<notin> set (urlEncode xs)" "0x0D \<notin> set (urlEncode xs)"
    by (auto simp: list_all_iff)
  show "xs \<noteq> [] \<Longrightarrow> urlEncode xs \<noteq> []" by (cases xs) (simp_all add: urlEncode_def encodeByte_def)
qed

lemma parseRequestLine_text:
  assumes "path_ok path" and "query_ok query"
  shows "parseRequestLine (request_line path query) newHttpRequest
    = Inr (True, \<lparr>hr_method = kGet, hr_path = (if path = ascii ''/'' then ascii ''/index.html'' else path),
        hr_query = query, hr_headers = [], hr_majorVersion = 1, hr_minorVersion = 1\<rparr>)"
proof -
  let ?p = "urlEncode path @ (if query = [] then [] else 0x3F # query)"
  have sp: "isspace 0x20" by (simp add: isspace_def)
  have p: "?p \<noteq> []" "list_all (\<lambda>c. \<not> isspace c) ?p"
    using assms urlEncode_plain(1,4) [of path] by (simp_all add: path_ok_def query_ok_def isspace_def)
  have w: "list_all (\<lambda>c. \<not> isspace c) (ascii ''GET'')" "list_all (\<lambda>c. \<not> isspace c) (ascii ''HTTP/1.1'')"
    by (simp_all add: isspace_def)
  have r: "request_words (request_line path query) = Some (ascii ''GET'', ?p, ascii ''HTTP/1.1'')"
    using stream_word_here(1) [OF _ w(1) sp, of "?p @ 0x20 # ascii ''HTTP/1.1''"]
      stream_word_here(3) [OF p sp, of "ascii ''HTTP/1.1''"] stream_word_here(2) [OF _ w(2) sp]
    by (simp add: request_words_def request_line_def)
  have q: "splitQuery ?p (newHttpRequest\<lparr>hr_method := kGet\<rparr>)
      = newHttpRequest\<lparr>hr_method := kGet, hr_path := urlEncode path, hr_query := query\<rparr>"
    using std_search_here [of "0x3F" "urlEncode path" "[]" query] std_search_absent [of "0x3F" "urlEncode path" "[]"]
      urlEncode_plain(2) [of path]
    by (simp add: splitQuery_def newHttpRequest_def)
  have v: "parseVersion (ascii ''HTTP/1.1'') req = Inr (req\<lparr>hr_majorVersion := 1, hr_minorVersion := 1\<rparr>)" for req
    by (simp add: parseVersion_def stoi_def isspace_def isDigit_def dec_value_def)
  show ?thesis
    using assms(1) q by (simp add: parseRequestLine_def r v urlDecode_encode path_ok_def newHttpRequest_def del: ascii_simps)
qed

lemma parseHeaderLine_text:
  "header_ok (k, v) \<Longrightarrow> parseHeaderLine (header_line (k, v)) req = req\<lparr>hr_headers := map_assign k v (hr_headers req)\<rparr>"
  using std_search_here [of "0x3A" k "[]" "0x20 # v"]
  by (simp add: parseHeaderLine_def header_ok_def header_line_def) (simp add: trim_def is_blank_def)

lemma parseHeaders_text:
  "list_all header_ok hs \<Longrightarrow>
     parseHeaders (concat (map (\<lambda>h. header_line h @ crlf) hs) @ crlf @ rest) req
       = (True, req\<lparr>hr_headers := fold (\<lambda>(k, v). map_assign k v) hs (hr_headers req)\<rparr>)"
proof (induction hs arbitrary: req)
  case Nil
  show ?case by (subst parseHeaders.simps) simp
next
  case (Cons h hs)
  obtain k v where h: "h = (k, v)" by (cases h)
  have "0x0D \<notin> set (header_line h)" using Cons.prems by (simp add: h header_line_def header_ok_def)
  then have "std_search crlf (header_line h @ crlf @ ys) = Some (length (header_line h))" for ys
    by (rule search_line)
  moreover have "header_line h \<noteq> []" by (simp add: header_line_def h)
  ultimately show ?case
    using Cons parseHeaderLine_text [of k v req] by (subst parseHeaders.simps) (simp add: h del: std_search.simps)
qed

lemma search_crlf2_headers:
  "list_all header_ok hs \<Longrightarrow>
     std_search crlf2 (crlf @ concat (map (\<lambda>h. header_line h @ crlf) hs) @ crlf @ rest)
       = Some (length (concat (map (\<lambda>h. header_line h @ crlf) hs)))"
proof (induction hs)
  case Nil
  show ?case by simp
next
  case (Cons h hs)
  obtain k v where h: "h = (k, v)" by (cases h)
  have "0x0D \<notin> set (header_line h)" "header_line h \<noteq> []"
    using Cons.prems by (simp_all add: h header_line_def header_ok_def)
  from search_crlf2_after(2) [OF this, of "concat (map (\<lambda>h. header_line h @ crlf) hs) @ crlf @ rest"]
  show ?case using Cons by (simp del: std_search.simps)
qed

lemma search_crlf2_text:
  assumes "list_all header_ok hs" and "query_ok query"
  shows "std_search crlf (request_text path query hs @ rest) = Some (length (request_line path query))"
    and "std_search crlf2 (request_text path query hs @ rest) = Some (length (request_text path query hs) - 4)"
proof -
  let ?ys = "concat (map (\<lambda>h. header_line h @ crlf) hs) @ crlf @ rest"
  have "0x0D \<notin> set query" using assms(2) by (auto simp: query_ok_def list_all_iff isspace_def)
  then have l: "0x0D \<notin> set (request_line path query)"
    using urlEncode_plain(3) [of path] by (simp add: request_line_def)
  from search_line [OF l, of ?ys]
  show "std_search crlf (request_text path query hs @ rest) = Some (length (request_line path query))"
    by (simp add: request_text_def del: std_search.simps)
  from search_crlf2_after(1) [OF l, of ?ys] search_crlf2_headers [OF assms(1), of rest]
  show "std_search crlf2 (request_text path query hs @ rest) = Some (length (request_text path query hs) - 4)"
    by (simp add: request_text_def del: std_search.simps)
qed

lemma fold_map_assign:
  "map_of (fold (\<lambda>(k, v). map_assign k v) hs m) = map_of m ++ map_of (rev hs)"
  "map_inv m \<Longrightarrow> map_inv (fold (\<lambda>(k, v). map_assign k v) hs m)"
  by (induction hs arbitrary: m) (auto simp: map_inv_assign map_add_def fun_eq_iff split: option.splits)

lemma parseRequest_text:
  assumes "path_ok path" and "query_ok query" and "list_all header_ok hs"
  shows "parseRequest (request_text path query hs @ rest) newHttpRequest
    = Inr (True, \<lparr>hr_method = kGet, hr_path = (if path = ascii ''/'' then ascii ''/index.html'' else path),
        hr_query = query, hr_headers = fold (\<lambda>(k, v). map_assign k v) hs [],
        hr_majorVersion = 1, hr_minorVersion = 1\<rparr>)"
  using search_crlf2_text(1) [OF assms(3,2), of path rest] parseRequestLine_text [OF assms(1,2)]
    parseHeaders_text [OF assms(3)]
  by (simp add: parseRequest_def request_text_def del: std_search.simps ascii_simps)

text \<open>C24: a request survives being written and read. For every path without two dots in a row, every
  query string without white space and all header fields that contain no line end, the parser reads
  the text a client writes for them, whatever follows it in the buffer, and returns the path after
  percent-decoding, the query, the version and for every field name the value sent last; the text
  ends at the first empty line.\<close>

theorem http_request_roundtrip:
  assumes "path_ok path" and "query_ok query" and "list_all header_ok hs"
  shows "\<exists>req. parseRequest (request_text path query hs @ rest) newHttpRequest = Inr (True, req)
    \<and> hr_method req = kGet
    \<and> hr_path req = (if path = ascii ''/'' then ascii ''/index.html'' else path)
    \<and> hr_query req = query \<and> hr_majorVersion req = 1 \<and> hr_minorVersion req = 1
    \<and> (\<forall>k. getHeader k req = (case map_of (rev hs) k of None \<Rightarrow> [] | Some v \<Rightarrow> v))
    \<and> map_inv (hr_headers req)
    \<and> std_search crlf2 (request_text path query hs @ rest) = Some (length (request_text path query hs) - 4)"
  using parseRequest_text [OF assms, of rest] search_crlf2_text(2) [OF assms(3,2), of path rest]
    fold_map_assign(1) [of hs "[]"] fold_map_assign(2) [OF map_inv_Nil, of hs]
  by (simp add: getHeader_def del: std_search.simps ascii_simps)

theorem http_request_roundtrip_witness:
  "\<exists>req. parseRequest (request_text (ascii ''/a b'') (ascii ''q=1'') [(ascii ''Host'', ascii ''x'')] @ ascii ''GET'')
       newHttpRequest = Inr (True, req)
     \<and> hr_path req = ascii ''/a b'' \<and> getHeader (ascii ''Host'') req = ascii ''x''"
proof -
  have "path_ok (ascii ''/a b'')" "query_ok (ascii ''q=1'')" "list_all header_ok [(ascii ''Host'', ascii ''x'')]"
    by (simp_all add: path_ok_def query_ok_def header_ok_def isspace_def trim_def is_blank_def)
  from http_request_roundtrip [OF this, of "ascii ''GET''"] show ?thesis
    by (auto simp del: std_search.simps simp: getHeader_def)
qed

end
