(* ===== verification/Http_Server.thy ===== *)
theory Http_Server
  imports Http_Request Tcp_Lifecycle
begin

section \<open>HTTP responses and the static file server\<close>

text \<open>
  \<open>include/HttpResponse.h\<close>, \<open>src/HttpResponse.cpp\<close> and the handler of \<open>example/http_server.cpp\<close>.
  \<open>snprintf\<close> into an array of 256 bytes is the text cut after 255, and a \<open>std::string\<close> passed as a
  C string ends at its first zero byte.

  The file system is the parameter \<open>fs\<close>: what reading the file at a path gives, \<^const>\<open>None\<close> if it
  does not open. The handler acts on a connection through the transport interface and returns the
  exception that leaves it, if there is one, the connection and the input buffer. Nothing between the
  handler and \<open>main\<close> catches exceptions, so one that leaves it ends the process.
\<close>

subsection \<open>Responses\<close>

datatype HttpStatusCode = k200Ok | k400BadRequest | k404NotFound | k500InternalServerError

fun status_number :: "HttpStatusCode \<Rightarrow> nat" where
  "status_number k200Ok = 200"
| "status_number k400BadRequest = 400"
| "status_number k404NotFound = 404"
| "status_number k500InternalServerError = 500"

record HttpResponse =
  rp_statusCode :: HttpStatusCode
  rp_statusMessage :: bytes
  rp_headers :: "(bytes \<times> bytes) list"
  rp_body :: bytes
  rp_closeConnection :: bool

definition newHttpResponse :: "bool \<Rightarrow> HttpResponse" where
  "newHttpResponse close =
     \<lparr>rp_statusCode = k200Ok, rp_statusMessage = [], rp_headers = [], rp_body = [],
      rp_closeConnection = close\<rparr>"

definition setStatusCode :: "HttpStatusCode \<Rightarrow> HttpResponse \<Rightarrow> HttpResponse" where
  "setStatusCode code r = r\<lparr>rp_statusCode := code\<rparr>"

definition setStatusMessage :: "bytes \<Rightarrow> HttpResponse \<Rightarrow> HttpResponse" where
  "setStatusMessage message r = r\<lparr>rp_statusMessage := message\<rparr>"

definition setCloseConnection :: "bool \<Rightarrow> HttpResponse \<Rightarrow> HttpResponse" where
  "setCloseConnection close r = r\<lparr>rp_closeConnection := close\<rparr>"

definition addHeader :: "bytes \<Rightarrow> bytes \<Rightarrow> HttpResponse \<Rightarrow> HttpResponse" where
  "addHeader key v r = r\<lparr>rp_headers := map_assign key v (rp_headers r)\<rparr>"

definition setContentType :: "bytes \<Rightarrow> HttpResponse \<Rightarrow> HttpResponse" where
  "setContentType contentType r = addHeader (ascii ''Content-Type'') contentType r"

definition setBody :: "bytes \<Rightarrow> HttpResponse \<Rightarrow> HttpResponse" where
  "setBody body r = r\<lparr>rp_body := body\<rparr>"

fun statusMessageForCode :: "HttpStatusCode \<Rightarrow> bytes" where
  "statusMessageForCode k200Ok = ascii ''OK''"
| "statusMessageForCode k400BadRequest = ascii ''Bad Request''"
| "statusMessageForCode k404NotFound = ascii ''Not Found''"
| "statusMessageForCode k500InternalServerError = ascii ''Internal Server Error''"

text \<open>The contents of \<open>buf\<close> after \<open>snprintf(buf, sizeof(buf), ...)\<close>.\<close>

definition snprintf_buf :: "bytes \<Rightarrow> bytes" where
  "snprintf_buf s = take 255 s"

definition status_line :: "HttpResponse \<Rightarrow> bytes" where
  "status_line r =
     (let msg = (if rp_statusMessage r = [] then statusMessageForCode (rp_statusCode r)
                 else rp_statusMessage r)
      in ascii ''HTTP/1.1 '' @ dec_digits (status_number (rp_statusCode r)) @ [0x20] @ c_str msg @ crlf)"

definition length_line :: "HttpResponse \<Rightarrow> bytes" where
  "length_line r = ascii ''Content-Length: '' @ dec_digits (length (rp_body r)) @ crlf"

definition field_line :: "bytes \<times> bytes \<Rightarrow> bytes" where
  "field_line = (\<lambda>(k, v). c_str k @ [0x3A, 0x20] @ c_str v @ crlf)"

definition appendToBuffer :: "HttpResponse \<Rightarrow> buffer \<Rightarrow> buffer" where
  "appendToBuffer r output =
     (let o1 = buf_append (snprintf_buf (status_line r)) output;
          o2 = (if rp_closeConnection r then buf_append (ascii ''Connection: close'' @ crlf) o1 else o1);
          o3 = buf_append (snprintf_buf (length_line r)) o2;
          o4 = fold (\<lambda>h b. buf_append (snprintf_buf (field_line h)) b) (rp_headers r) o3;
          o5 = buf_append crlf o4
      in buf_append (rp_body r) o5)"

subsection \<open>The file server\<close>

definition getMimeType :: "bytes \<Rightarrow> bytes" where
  "getMimeType path =
     (let ends = (\<lambda>e. length e \<le> length path \<and> drop (length path - length e) path = e)
      in if ends (ascii ''.html'') then ascii ''text/html''
         else if ends (ascii ''.css'') then ascii ''text/css''
         else if ends (ascii ''.js'') then ascii ''application/javascript''
         else if ends (ascii ''.png'') then ascii ''image/png''
         else if ends (ascii ''.jpg'') then ascii ''image/jpeg''
         else if ends (ascii ''.svg'') then ascii ''image/svg+xml''
         else if ends (ascii ''.ico'') then ascii ''image/x-icon''
         else if ends (ascii ''.json'') then ascii ''application/json''
         else if ends (ascii ''.txt'') then ascii ''text/plain''
         else ascii ''application/octet-stream'')"

text \<open>The port, the document root and the number of threads \<open>main\<close> starts the server with; \<^const>\<open>None\<close> when
  it prints the usage and exits with 1.\<close>

definition http_main_args :: "bytes list \<Rightarrow> stoi_error + (u16 \<times> bytes \<times> int) option" where
  "http_main_args args =
     (if length args < 2 then Inr None
      else
        (case stoi (args ! 0) of
           Inl e \<Rightarrow> Inl e
         | Inr port \<Rightarrow>
             if 3 \<le> length args
             then map_sum id (\<lambda>numThreads. Some (word_of_int port, args ! 1, numThreads)) (stoi (args ! 2))
             else Inr (Some (word_of_int port, args ! 1, 0))))"

definition notFoundBody :: bytes where
  "notFoundBody =
     ascii ''<html><head><title>404 Not Found</title></head>''
     @ ascii ''<body><h1>404 Not Found</h1><p>''
     @ ascii ''The requested URL was not found on this server.''
     @ ascii ''</p></body></html>''"

type_synonym file_system = "bytes \<Rightarrow> bytes option"

definition http_response :: "bytes \<Rightarrow> file_system \<Rightarrow> HttpRequest \<Rightarrow> HttpResponse" where
  "http_response docRoot fs req =
     (let response = newHttpResponse False;
          filePath = docRoot @ hr_path req
      in case fs (c_str filePath) of
           Some content \<Rightarrow>
             setBody content (setContentType (getMimeType (hr_path req)) (setStatusCode k200Ok response))
         | None \<Rightarrow>
             setBody notFoundBody (setContentType (ascii ''text/html'') (setStatusCode k404NotFound response)))"

definition http_answer :: "bytes \<Rightarrow> file_system \<Rightarrow> HttpRequest \<Rightarrow> bytes" where
  "http_answer docRoot fs req =
     fst (retrieveAllAsString (appendToBuffer (http_response docRoot fs req) (newBuffer kInitialSize)))"

lemma retrieve_shorter: "0 < readableBytes b \<Longrightarrow> 0 < n \<Longrightarrow> readableBytes (retrieve n b) < readableBytes b"
  by (auto simp: retrieve_def retrieveAll_def readableBytes_def)

function http_onMessage ::
  "bytes \<Rightarrow> file_system \<Rightarrow> 'c transport_ops \<Rightarrow> 'c \<Rightarrow> buffer \<Rightarrow> stoi_error option \<times> 'c \<times> buffer" where
  "http_onMessage docRoot fs T conn buf =
     (let data = take (readableBytes buf) (peek buf)
      in case parseRequest data newHttpRequest of
           Inl e \<Rightarrow> (Some e, conn, buf)
         | Inr (ok, req) \<Rightarrow>
             if \<not> ok then (None, conn, buf)
             else
               (case std_search crlf2 data of
                  None \<Rightarrow> (None, conn, buf)
                | Some headerEnd \<Rightarrow>
                    http_onMessage docRoot fs T (t_send T (http_answer docRoot fs req) conn)
                      (retrieve (headerEnd + 4) buf)))"
  by pat_completeness auto
termination
  by (relation "measure (\<lambda>(docRoot, fs, T, conn, buf). readableBytes buf)")
    (auto intro!: retrieve_shorter elim!: parseRequest_True dest: std_search_Some)

declare http_onMessage.simps [simp del]

text \<open>The reads of a connection: each appends what arrived and calls the handler; after an exception
  there is no next one.\<close>

fun http_feed ::
  "bytes \<Rightarrow> file_system \<Rightarrow> 'c transport_ops \<Rightarrow> bytes list \<Rightarrow> 'c \<Rightarrow> buffer \<Rightarrow> stoi_error option \<times> 'c \<times> buffer" where
  "http_feed docRoot fs T [] conn buf = (None, conn, buf)"
| "http_feed docRoot fs T (c # cs) conn buf =
     (case http_onMessage docRoot fs T conn (buf_append c buf) of
        (Some e, conn', buf') \<Rightarrow> (Some e, conn', buf')
      | (None, conn', buf') \<Rightarrow> http_feed docRoot fs T cs conn' buf')"

subsection \<open>The text of a response\<close>

text \<open>What \<open>appendToBuffer\<close> writes, and the text of the response when no line is cut.\<close>

definition response_written :: "HttpResponse \<Rightarrow> bytes" where
  "response_written r =
     snprintf_buf (status_line r) @ (if rp_closeConnection r then ascii ''Connection: close'' @ crlf else [])
     @ snprintf_buf (length_line r) @ concat (map (snprintf_buf \<circ> field_line) (rp_headers r)) @ crlf @ rp_body r"

definition response_text :: "HttpResponse \<Rightarrow> bytes" where
  "response_text r =
     status_line r @ (if rp_closeConnection r then ascii ''Connection: close'' @ crlf else [])
     @ length_line r @ concat (map field_line (rp_headers r)) @ crlf @ rp_body r"

definition lines_fit :: "HttpResponse \<Rightarrow> bool" where
  "lines_fit r \<longleftrightarrow> length (status_line r) \<le> 255 \<and> length (rp_body r) < 2 ^ 64
     \<and> list_all (\<lambda>h. length (field_line h) \<le> 255) (rp_headers r)"

lemma append_fields:
  "buffer_inv b \<Longrightarrow> buffer_inv (fold (\<lambda>h b. buf_append (snprintf_buf (field_line h)) b) hs b)
     \<and> contents (fold (\<lambda>h b. buf_append (snprintf_buf (field_line h)) b) hs b)
       = contents b @ concat (map (snprintf_buf \<circ> field_line) hs)"
  by (induction hs arbitrary: b) (simp_all add: buffer_simps)

lemma appendToBuffer_ok:
  "buffer_inv b \<Longrightarrow> buffer_inv (appendToBuffer r b) \<and> contents (appendToBuffer r b) = contents b @ response_written r"
  using append_fields by (simp add: appendToBuffer_def response_written_def Let_def buffer_simps)

lemma response_written_text:
  assumes "lines_fit r"
  shows "response_written r = response_text r"
proof -
  have "length (dec_digits (length (rp_body r))) \<le> Suc 19"
    using assms by (intro length_dec_digits) (simp add: lines_fit_def)
  then have l: "snprintf_buf (length_line r) = length_line r" by (simp add: snprintf_buf_def length_line_def)
  have f: "map (snprintf_buf \<circ> field_line) (rp_headers r) = map field_line (rp_headers r)"
    using assms by (simp add: lines_fit_def snprintf_buf_def list_all_iff)
  have "snprintf_buf (status_line r) = status_line r" using assms by (simp add: lines_fit_def snprintf_buf_def)
  then show ?thesis by (simp add: response_written_def response_text_def l f)
qed

lemma http_answer_written: "http_answer docRoot fs req = response_written (http_response docRoot fs req)"
  using appendToBuffer_ok [OF newBuffer_ok(1)] by (simp add: http_answer_def buffer_simps)

text \<open>The page for a path, written out.\<close>

definition page_text :: "string \<Rightarrow> bytes \<Rightarrow> bytes \<Rightarrow> bytes" where
  "page_text status mime body =
     ascii ''HTTP/1.1 '' @ ascii status @ crlf @ ascii ''Content-Length: '' @ dec_digits (length body) @ crlf
     @ ascii ''Content-Type: '' @ mime @ crlf @ crlf @ body"

definition http_page :: "bytes \<Rightarrow> file_system \<Rightarrow> bytes \<Rightarrow> bytes" where
  "http_page docRoot fs path =
     (case fs (c_str (docRoot @ path)) of
        Some content \<Rightarrow> page_text ''200 OK'' (getMimeType path) content
      | None \<Rightarrow> page_text ''404 Not Found'' (ascii ''text/html'') notFoundBody)"

definition fs_ok :: "file_system \<Rightarrow> bool" where
  "fs_ok fs \<longleftrightarrow> (\<forall>p content. fs p = Some content \<longrightarrow> length content < 2 ^ 63)"

lemma mime_types:
  "getMimeType path \<in> ascii ` {''text/html'', ''text/css'', ''application/javascript'', ''image/png'', ''image/jpeg'',
     ''image/svg+xml'', ''image/x-icon'', ''application/json'', ''text/plain'', ''application/octet-stream''}"
  by (simp add: getMimeType_def Let_def del: ascii_simps)

lemma c_str_ascii: "list_all (\<lambda>c. of_char c \<noteq> (0 :: byte)) s \<Longrightarrow> c_str (ascii s) = ascii s"
  by (simp add: c_str_def ascii_def takeWhile_eq_all_conv list_all_iff)

lemma mime_line: "c_str (getMimeType path) = getMimeType path" "length (getMimeType path) \<le> 24"
  using mime_types [of path] by (auto simp: c_str_ascii simp del: ascii_simps)

lemma page_literals:
  "dec_digits 200 = ascii ''200''" "dec_digits 404 = ascii ''404''" "c_str (ascii ''OK'') = ascii ''OK''"
  "c_str (ascii ''Not Found'') = ascii ''Not Found''" "c_str (ascii ''Content-Type'') = ascii ''Content-Type''"
  "c_str (ascii ''text/html'') = ascii ''text/html''"
  by code_simp+

lemma http_answer_page:
  assumes "fs_ok fs"
  shows "http_answer docRoot fs req = http_page docRoot fs (hr_path req)"
proof -
  let ?r = "http_response docRoot fs req"
  have "length x < 2 ^ 64" if "fs p = Some x" for p x
    using assms that by (fastforce simp: fs_ok_def)
  then have "lines_fit ?r"
    using mime_line [of "hr_path req"]
    by (auto simp: http_response_def Let_def lines_fit_def setBody_def setContentType_def addHeader_def
        setStatusCode_def newHttpResponse_def status_line_def field_line_def page_literals notFoundBody_def fs_ok_def
        simp del: ascii_simps split: option.splits)
  then have "http_answer docRoot fs req = response_text ?r"
    by (simp add: http_answer_written response_written_text)
  also have "\<dots> = http_page docRoot fs (hr_path req)"
    using mime_line(1) [of "hr_path req"]
    by (cases "fs (c_str (docRoot @ hr_path req))")
      (simp_all add: response_text_def http_page_def page_text_def http_response_def Let_def setBody_def
        setContentType_def addHeader_def setStatusCode_def newHttpResponse_def status_line_def length_line_def
        field_line_def page_literals [simplified])
  finally show ?thesis .
qed

subsection \<open>One request\<close>

text \<open>A complete request: it parses, and its first empty line is its end.\<close>

fun is_request :: "bytes \<Rightarrow> bool" where
  "is_request x \<longleftrightarrow>
     (case parseRequest x newHttpRequest of Inr (ok, _) \<Rightarrow> ok | Inl _ \<Rightarrow> False)
     \<and> std_search crlf2 x = Some (length x - 4)"

declare is_request.simps [simp del]

definition requested :: "bytes \<Rightarrow> HttpRequest" where
  "requested x = (case parseRequest x newHttpRequest of Inr (_, req) \<Rightarrow> req | Inl _ \<Rightarrow> newHttpRequest)"

lemma is_requestD:
  assumes "is_request x"
  shows "parseRequest x newHttpRequest = Inr (True, requested x)"
    and "std_search crlf2 x = Some (length x - 4)" and "4 \<le> length x"
  using assms std_search_Some [of crlf2 x "length x - 4"]
  by (auto simp: is_request.simps requested_def split: sum.splits)

lemma onMessage_request:
  assumes "contents b = x @ rest" and "is_request x"
  shows "http_onMessage docRoot fs T conn b
    = http_onMessage docRoot fs T (t_send T (http_answer docRoot fs (requested x)) conn) (retrieve (length x) b)"
proof -
  note x = is_requestD [OF assms(2)]
  have s: "std_search crlf2 (x @ rest) = Some (length x - 4)" by (rule std_search_append [OF x(2)])
  have "parseRequest (x @ rest) newHttpRequest = Inr (True, requested x)"
    using parseRequest_take [OF s, of "length x" newHttpRequest] x by simp
  with s x(3) assms(1) show ?thesis
    by (subst http_onMessage.simps) (simp add: contents_def del: std_search.simps)
qed

lemma onMessage_partial:
  assumes "contents b = take n x" and "is_request x" and "n < length x"
  shows "http_onMessage docRoot fs T conn b = (None, conn, b)"
proof -
  note x = is_requestD [OF assms(2)]
  obtain r where "parseRequest (take n x) newHttpRequest = Inr (False, r)"
    using parseRequest_prefix [OF x(1,2), of n] assms(3) x(3) by auto
  with assms(1) show ?thesis by (subst http_onMessage.simps) (simp add: contents_def)
qed

subsection \<open>Requests behind each other\<close>

abbreviation answers :: "bytes \<Rightarrow> file_system \<Rightarrow> bytes list \<Rightarrow> bytes list" where
  "answers docRoot fs xs \<equiv> map (\<lambda>x. http_answer docRoot fs (requested x)) xs"

text \<open>The beginning of a request, the empty one included.\<close>

definition unfinished :: "bytes \<Rightarrow> bool" where
  "unfinished r \<longleftrightarrow> (\<exists>x n. is_request x \<and> n < length x \<and> r = take n x)"

lemma onMessage_drains:
  assumes "buffer_inv b" and "list_all is_request xs" and "unfinished r" and "contents b @ later = concat xs @ r"
  shows "\<exists>ys zs b'. xs = ys @ zs \<and> buffer_inv b' \<and> contents b' @ later = concat zs @ r
    \<and> (zs = [] \<or> length (contents b') < length (hd zs))
    \<and> http_onMessage docRoot fs T conn b = (None, fold (t_send T) (answers docRoot fs ys) conn, b')"
  using assms(1,2,4)
proof (induction xs arbitrary: b conn)
  case Nil
  from assms(3) obtain x n where x: "is_request x" "n < length x" "r = take n x"
    by (auto simp: unfinished_def)
  have "contents b = take (length (contents b)) r" using Nil.prems(3) by (auto simp: append_eq_conv_conj)
  also have "\<dots> = take (min (length (contents b)) n) x" by (simp add: x(3))
  finally have "http_onMessage docRoot fs T conn b = (None, conn, b)"
    by (rule onMessage_partial [OF _ x(1)]) (simp add: x(2) min_less_iff_disj)
  with Nil.prems show ?case by (intro exI [of _ "[]"] exI [of _ b]) simp
next
  case (Cons x xs)
  show ?case
  proof (cases "length (contents b) < length x")
    case True
    have "contents b = take (length (contents b)) (x @ concat xs @ r)"
      using Cons.prems(3) by (metis append_eq_conv_conj append_assoc concat.simps(2))
    with True have "contents b = take (length (contents b)) x" by simp
    with onMessage_partial [OF this] True Cons.prems show ?thesis
      by (intro exI [of _ "[]"] exI [of _ "x # xs"] exI [of _ b]) simp
  next
    case False
    with arg_cong [OF Cons.prems(3), of "take (length x)"] arg_cong [OF Cons.prems(3), of "drop (length x)"]
    have "take (length x) (contents b) = x" "drop (length x) (contents b) @ later = concat xs @ r" by simp_all
    then obtain t where t: "contents b = x @ t" "t @ later = concat xs @ r" by (metis append_take_drop_id)
    let ?b = "retrieve (length x) b" and ?c = "t_send T (http_answer docRoot fs (requested x)) conn"
    have "buffer_inv ?b" "contents ?b @ later = concat xs @ r"
      using Cons.prems(1) t by (simp_all add: buffer_simps)
    with Cons.IH [of ?b ?c] Cons.prems(2) obtain ys zs b' where "xs = ys @ zs" "buffer_inv b'"
      "contents b' @ later = concat zs @ r" "zs = [] \<or> length (contents b') < length (hd zs)"
      "http_onMessage docRoot fs T ?c ?b = (None, fold (t_send T) (answers docRoot fs ys) ?c, b')" by auto
    then have "x # xs = (x # ys) @ zs \<and> buffer_inv b' \<and> contents b' @ later = concat zs @ r
        \<and> (zs = [] \<or> length (contents b') < length (hd zs))
        \<and> http_onMessage docRoot fs T conn b = (None, fold (t_send T) (answers docRoot fs (x # ys)) conn, b')"
      using onMessage_request [OF t(1), of docRoot fs T conn] Cons.prems(2) by simp
    then show ?thesis
      by blast
  qed
qed

lemma feed_requests:
  assumes "buffer_inv b" and "list_all is_request xs" and "unfinished r"
    and "contents b @ concat chunks = concat xs @ r" and "xs = [] \<or> length (contents b) < length (hd xs)"
  shows "\<exists>b'. buffer_inv b' \<and> contents b' = r
    \<and> http_feed docRoot fs T chunks conn b = (None, fold (t_send T) (answers docRoot fs xs) conn, b')"
  using assms(1,2,4,5)
proof (induction chunks arbitrary: b conn xs)
  case Nil
  then have "xs = []" by (cases xs) auto
  with Nil show ?case by simp
next
  case (Cons c cs)
  have "buffer_inv (buf_append c b)" "contents (buf_append c b) @ concat cs = concat xs @ r"
    using Cons.prems(1,3) by (simp_all add: buffer_simps)
  from onMessage_drains [OF this(1) Cons.prems(2) assms(3) this(2), of docRoot fs T conn]
  obtain ys zs b' where d: "xs = ys @ zs" "buffer_inv b'" "contents b' @ concat cs = concat zs @ r"
    "zs = [] \<or> length (contents b') < length (hd zs)"
    "http_onMessage docRoot fs T conn (buf_append c b) = (None, fold (t_send T) (answers docRoot fs ys) conn, b')"
    by auto
  from Cons.IH [OF d(2) _ d(3,4), of "fold (t_send T) (answers docRoot fs ys) conn"] Cons.prems(2) d(1,5)
  show ?case by auto
qed

lemma request_text_is_request:
  assumes "path_ok path" and "query_ok query" and "list_all header_ok hs"
  shows "is_request (request_text path query hs)"
    and "hr_path (requested (request_text path query hs)) = (if path = ascii ''/'' then ascii ''/index.html'' else path)"
  using parseRequest_text [OF assms, of "[]"] search_crlf2_text(2) [OF assms(3,2), of path "[]"]
  by (simp_all add: is_request.simps requested_def del: std_search.simps ascii_simps)

lemma unfinished_Nil: "unfinished []"
proof -
  have "path_ok (ascii ''/'')" "query_ok []" by (simp_all add: path_ok_def query_ok_def)
  with request_text_is_request(1) [of "ascii ''/''" "[]" "[]"] show ?thesis
    unfolding unfinished_def by (intro exI [of _ "request_text (ascii ''/'') [] []"] exI [of _ 0])
      (simp add: request_text_def del: ascii_simps)
qed

lemma parseRequest_path:
  assumes "parseRequest xs newHttpRequest = Inr (True, req)"
  shows "std_search (ascii ''..'') (hr_path req) = None"
proof -
  from assms obtain m r where l: "parseRequestLine (take m xs) newHttpRequest = Inr (True, r)"
    and h: "parseHeaders (drop (m + 2) xs) r = (True, req)"
    by (rule parseRequest_True) blast
  have "hr_path (snd (parseHeaders ys r)) = hr_path r" for ys r
    by (induction ys r rule: parseHeaders.induct)
      (subst parseHeaders.simps, auto simp: parseHeaderLine_def split: option.splits)
  from this [of "drop (m + 2) xs" r] h have "hr_path req = hr_path r" by simp
  moreover have "std_search (ascii ''..'') (hr_path r) = None"
    using l by (auto simp: parseRequestLine_def Let_def parseVersion_def simp del: ascii_simps
        split: option.splits if_splits sum.splits) (simp_all add: ascii_def)
  ultimately show ?thesis by simp
qed

subsection \<open>Properties\<close>

text \<open>C15: the file server serves every request. Let clients' requests, with any paths the server
  accepts, any query strings and header fields, arrive one behind the other on a connection, cut into
  any pieces. The handler never throws, and what the peer receives is exactly the page of each path in
  the order of the requests: the file below the document root with its length and type, or the error
  page; no byte is left over.\<close>

theorem http_serves_requests:
  assumes "list_all (\<lambda>(path, query, hs). path_ok path \<and> query_ok query \<and> list_all header_ok hs) rs"
    and "concat chunks = concat (map (\<lambda>(path, query, hs). request_text path query hs) rs)"
    and "fs_ok fs" and "peer_alive k" and "conn_inv c" and "tcp_connected c"
  shows "\<exists>c' b'. http_feed docRoot fs (tcp_ops k) chunks c (newBuffer n) = (None, c', b') \<and> contents b' = []
    \<and> outbox c' = outbox c @ concat (map (\<lambda>(path, _). http_page docRoot fs
        (if path = ascii ''/'' then ascii ''/index.html'' else path)) rs)"
proof -
  let ?x = "\<lambda>(path, query, hs). request_text path query hs"
  have x: "list_all is_request (map ?x rs)"
    using assms(1) by (auto simp: list_all_iff intro!: request_text_is_request)
  have a: "answers docRoot fs (map ?x rs) = map (\<lambda>(path, _). http_page docRoot fs
      (if path = ascii ''/'' then ascii ''/index.html'' else path)) rs"
    using assms(1) by (auto simp: list_all_iff http_answer_page [OF assms(3)] request_text_is_request simp del: ascii_simps)
  have h: "map ?x rs = [] \<or> length (contents (newBuffer n)) < length (hd (map ?x rs))"
    by (cases rs) (auto simp: newBuffer_ok request_text_def)
  obtain b' where "contents b' = []"
    and f: "http_feed docRoot fs (tcp_ops k) chunks c (newBuffer n)
      = (None, fold (t_send (tcp_ops k)) (answers docRoot fs (map ?x rs)) c, b')"
    using feed_requests [OF newBuffer_ok(1) x unfinished_Nil _ h, of chunks docRoot fs "tcp_ops k" c] assms(2)
    by (auto simp: newBuffer_ok simp del: map_map)
  moreover have "t_connected (tcp_ops k) c" using assms(6) by (simp add: tcp_ops_def)
  ultimately show ?thesis using tcp.send_all [OF assms(4,5)] by (simp only: a) blast
qed

theorem http_serves_requests_witness:
  "\<exists>c' b'. http_feed (ascii ''/srv'') (\<lambda>f. if f = ascii ''/srv/a.txt'' then Some [7] else None)
       (tcp_ops (\<lambda>i. if i = 1 then Inl EAGAIN else Inr 3))
       [take 9 (request_text (ascii ''/a.txt'') [] []),
        drop 9 (request_text (ascii ''/a.txt'') [] []) @ request_text (ascii ''/b'') (ascii ''q'') [(ascii ''Host'', ascii ''h'')]]
       sample_connection (newBuffer 8) = (None, c', b')
     \<and> outbox c' = page_text ''200 OK'' (ascii ''text/plain'') [7]
         @ page_text ''404 Not Found'' (ascii ''text/html'') notFoundBody"
proof -
  let ?fs = "\<lambda>f. if f = ascii ''/srv/a.txt'' then Some [7] else None"
  let ?k = "\<lambda>i. if i = 1 then Inl EAGAIN else Inr 3"
  let ?rs = "[(ascii ''/a.txt'', [], []), (ascii ''/b'', ascii ''q'', [(ascii ''Host'', ascii ''h'')])]"
  have ok: "list_all (\<lambda>(path, query, hs). path_ok path \<and> query_ok query \<and> list_all header_ok hs) ?rs"
    by (simp add: path_ok_def query_ok_def header_ok_def isspace_def trim_def is_blank_def)
  have fs: "fs_ok ?fs" and k: "peer_alive ?k"
    by (auto simp: fs_ok_def peer_alive_def EAGAIN_def EPIPE_def ECONNRESET_def)
  have p: "http_page (ascii ''/srv'') ?fs (ascii ''/a.txt'') = page_text ''200 OK'' (ascii ''text/plain'') [7]"
    "http_page (ascii ''/srv'') ?fs (ascii ''/b'') = page_text ''404 Not Found'' (ascii ''text/html'') notFoundBody"
    by (simp_all add: http_page_def c_str_def getMimeType_def)
  have "ascii ''/a.txt'' \<noteq> ascii ''/''" "ascii ''/b'' \<noteq> ascii ''/''" by simp_all
  then show ?thesis
    using http_serves_requests [OF ok _ fs k reachable_inv [OF sample_reachable(1)] sample_reachable(2), of "[take 9 (request_text (ascii ''/a.txt'') [] []),
        drop 9 (request_text (ascii ''/a.txt'') [] []) @ request_text (ascii ''/b'') (ascii ''q'') [(ascii ''Host'', ascii ''h'')]]"
        "ascii ''/srv''" 8] sample_reachable(3,4) p by (auto simp: outbox_def simp del: ascii_simps)
qed

text \<open>C16: no request climbs out of a directory. Whatever bytes arrive on a connection, what the server
  does depends only on the files whose path is the document root followed by a path without two dots
  in a row: two file systems that agree on those are served alike.\<close>

theorem http_no_traversal:
  assumes "\<And>p. std_search (ascii ''..'') p = None \<Longrightarrow> fs (c_str (docRoot @ p)) = fs' (c_str (docRoot @ p))"
  shows "http_feed docRoot fs T chunks conn b = http_feed docRoot fs' T chunks conn b"
proof -
  have "http_answer docRoot fs req = http_answer docRoot fs' req"
    if "parseRequest xs newHttpRequest = Inr (True, req)" for xs req
    using assms [OF parseRequest_path [OF that]] by (simp add: http_answer_def http_response_def)
  then have "http_onMessage docRoot fs T conn b = http_onMessage docRoot fs' T conn b" for conn b
  proof (induction docRoot fs T conn b rule: http_onMessage.induct)
    case (1 docRoot fs T conn b)
    then show ?case
      by (subst (1 2) http_onMessage.simps) (auto simp: Let_def split: sum.splits option.splits)
  qed
  then show ?thesis by (induction chunks arbitrary: conn b) (simp_all split: prod.splits option.splits)
qed

theorem http_no_traversal_witness:
  "http_feed (ascii ''/srv'') (\<lambda>_. None) (tcp_ops (\<lambda>_. Inr 3)) [ascii ''GET /../etc/passwd HTTP/1.0'' @ crlf2]
       sample_connection (newBuffer 8)
     = http_feed (ascii ''/srv'') (\<lambda>p. if p = ascii ''/srv/../etc/passwd'' then Some [7] else None)
         (tcp_ops (\<lambda>_. Inr 3)) [ascii ''GET /../etc/passwd HTTP/1.0'' @ crlf2] sample_connection (newBuffer 8)"
proof (rule http_no_traversal)
  fix p
  assume p: "std_search (ascii ''..'') p = None"
  have "c_str p \<noteq> ascii ''/../etc/passwd''"
  proof
    assume "c_str p = ascii ''/../etc/passwd''"
    then have eq: "p = ascii ''/../etc/passwd'' @ dropWhile (\<lambda>c. c \<noteq> 0) p"
      by (metis c_str_def takeWhile_dropWhile_id)
    have "std_search (ascii ''..'') (ascii ''/../etc/passwd'') = Some 1" by code_simp
    from std_search_append [OF this, of "dropWhile (\<lambda>c. c \<noteq> 0) p"] p show False by (simp del: ascii_simps flip: eq)
  qed
  then show "None = (if c_str (ascii ''/srv'' @ p) = ascii ''/srv/../etc/passwd'' then Some [7] else None)"
    by (simp add: c_str_def)
qed

text \<open>The document root is only a prefix. The server neither demands that a path begins with a
  slash nor puts one in front: with a root that ends in a dot, a path that begins with a dot and a slash
  passes the check for two dots, and the page sent for it is a file of the parent directory.\<close>

theorem http_escapes_docRoot:
  assumes "path_ok (ascii ''./'' @ p)" and "fs_ok fs" and "0 \<notin> set d" and "0 \<notin> set p"
    and "fs (d @ ascii ''../'' @ p) = Some content"
  shows "http_onMessage (d @ ascii ''.'') fs T conn (buf_append (request_text (ascii ''./'' @ p) [] []) (newBuffer n))
    = (None, t_send T (page_text ''200 OK'' (getMimeType (ascii ''./'' @ p)) content) conn,
       retrieve (length (request_text (ascii ''./'' @ p) [] []))
         (buf_append (request_text (ascii ''./'' @ p) [] []) (newBuffer n)))"
proof -
  let ?x = "request_text (ascii ''./'' @ p) [] []"
  let ?b = "buf_append ?x (newBuffer n)"
  have x: "is_request ?x" "hr_path (requested ?x) = ascii ''./'' @ p"
    using request_text_is_request [OF assms(1), of "[]" "[]"] by (simp_all add: query_ok_def)
  have b: "contents ?b = ?x @ []" "contents (retrieve (length ?x) ?b) = []"
    by (simp_all add: buffer_simps)
  have e: "http_onMessage (d @ ascii ''.'') fs T conn' (retrieve (length ?x) ?b) = (None, conn', retrieve (length ?x) ?b)" for conn'
    using b(2) by (subst http_onMessage.simps) (simp add: parseRequest_def flip: contents_def)
  have "c_str ((d @ ascii ''.'') @ ascii ''./'' @ p) = d @ ascii ''../'' @ p"
    using assms(3,4) by (auto simp: c_str_def takeWhile_append2 takeWhile_eq_all_conv)
  then have a: "http_answer (d @ ascii ''.'') fs (requested ?x) = page_text ''200 OK'' (getMimeType (ascii ''./'' @ p)) content"
    using assms(5) by (simp add: http_answer_page [OF assms(2)] x(2) http_page_def del: ascii_simps)
  show ?thesis by (simp only: onMessage_request [OF b(1) x(1), of "d @ ascii ''.''" fs T conn] a e)
qed

theorem http_escapes_docRoot_witness:
  "\<exists>conn b. http_onMessage (ascii ''.'') (\<lambda>f. if f = ascii ''../secret.txt'' then Some [7] else None)
     (tcp_ops (\<lambda>_. Inr 3)) sample_connection (buf_append (request_text (ascii ''./secret.txt'') [] []) (newBuffer 8))
     = (None, t_send (tcp_ops (\<lambda>_. Inr 3)) (page_text ''200 OK'' (ascii ''text/plain'') [7]) sample_connection, b)"
proof -
  have "path_ok (ascii ''./'' @ ascii ''secret.txt'')" by (simp add: path_ok_def)
  moreover have "fs_ok (\<lambda>f. if f = ascii ''../secret.txt'' then Some [7] else None)" by (simp add: fs_ok_def)
  moreover have "getMimeType (ascii ''./secret.txt'') = ascii ''text/plain''" by code_simp
  ultimately show ?thesis
    using http_escapes_docRoot [of "ascii ''secret.txt''" _ "[]" "[7]" "tcp_ops (\<lambda>_. Inr 3)" sample_connection 8] by simp
qed

text \<open>A refused request line blocks the connection. When the line at the front of the input buffer
  is complete but refused, because it has too few words, another method than GET or a path with two
  dots, \<open>parseRequest\<close> reports it like an incomplete one: the handler answers nothing, consumes nothing
  and keeps every byte that arrives from then on, whatever follows.\<close>

theorem http_refused_line_stalls:
  assumes "buffer_inv b" and "std_search crlf (contents b) = Some m"
    and "parseRequestLine (take m (contents b)) newHttpRequest = Inr (False, req)"
  shows "\<exists>b'. http_feed docRoot fs T chunks conn b = (None, conn, b') \<and> contents b' = contents b @ concat chunks"
  using assms
proof (induction chunks arbitrary: b)
  case Nil
  then show ?case by simp
next
  case (Cons c cs)
  let ?b = "buf_append c b"
  have b: "buffer_inv ?b" "contents ?b = contents b @ c" using Cons.prems(1) by (simp_all add: buffer_simps)
  have m: "m + 2 \<le> length (contents b)" using std_search_Some [OF Cons.prems(2)] by simp
  have s: "std_search crlf (contents ?b) = Some m" using std_search_append [OF Cons.prems(2)] b(2) by simp
  moreover have l: "parseRequestLine (take m (contents ?b)) newHttpRequest = Inr (False, req)"
    using Cons.prems(3) m b(2) by simp
  ultimately have "parseRequest (contents ?b) newHttpRequest = Inr (False, req)"
    by (simp add: parseRequest_def del: std_search.simps)
  then have "http_onMessage docRoot fs T conn ?b = (None, conn, ?b)"
    by (subst http_onMessage.simps) (simp flip: contents_def)
  with Cons.IH [OF b(1) s l] b(2) show ?case by simp
qed

theorem http_refused_line_stalls_witness:
  "\<exists>b'. http_feed (ascii ''/srv'') (\<lambda>_. None) (tcp_ops (\<lambda>_. Inr 3))
     [request_text (ascii ''/'') [] [], request_text (ascii ''/a'') [] []] sample_connection
     (buf_append (ascii ''POST / HTTP/1.1'' @ crlf2) (newBuffer 8)) = (None, sample_connection, b')"
proof -
  let ?x = "ascii ''POST / HTTP/1.1'' @ crlf2" and ?b = "buf_append (ascii ''POST / HTTP/1.1'' @ crlf2) (newBuffer 8)"
  have c: "contents ?b = ?x" "buffer_inv ?b" by (simp_all add: buffer_simps)
  have "std_search crlf ?x = Some 15" by code_simp
  moreover have "parseRequestLine (take 15 ?x) newHttpRequest = Inr (False, newHttpRequest)"
    by code_simp
  ultimately show ?thesis
    using http_refused_line_stalls [OF c(2), of 15 newHttpRequest "ascii ''/srv''" "\<lambda>_. None" "tcp_ops (\<lambda>_. Inr 3)"
        "[request_text (ascii ''/'') [] [], request_text (ascii ''/a'') [] []]" sample_connection] c(1)
    by auto
qed

text \<open>A version that is not a number ends the process. If the text between \<open>HTTP/\<close> and the next dot
  is not the beginning of a decimal number of the range of \<open>int\<close>, the exception of \<open>std::stoi\<close> leaves the
  handler as soon as the request line is complete; nothing above the handler catches it.\<close>

theorem http_version_throws:
  assumes "buffer_inv b" and "contents b = ascii ''GET / HTTP/'' @ v @ ascii ''.'' @ w @ crlf @ rest"
    and "list_all (\<lambda>c. \<not> isspace c) (v @ w)" and "0x2E \<notin> set v" and "stoi v = Inl e"
  shows "http_onMessage docRoot fs T conn b = (Some e, conn, b)"
proof -
  let ?line = "ascii ''GET / HTTP/'' @ v @ ascii ''.'' @ w" and ?v = "ascii ''HTTP/'' @ v @ ascii ''.'' @ w"
  have sp: "isspace 0x20" by (simp add: isspace_def)
  have p: "list_all (\<lambda>c. \<not> isspace c) (ascii ''GET'')" "list_all (\<lambda>c. \<not> isspace c) (ascii ''/'')"
    "list_all (\<lambda>c. \<not> isspace c) ?v"
    using assms(3) by (simp_all add: isspace_def)
  have "isspace 0x0D" by (simp add: isspace_def)
  with assms(3) have "0x0D \<notin> set ?line" by (auto simp: list_all_iff)
  then have s: "std_search crlf (contents b) = Some (length ?line)" "take (length ?line) (contents b) = ?line"
    using search_line [of ?line rest] assms(2) by (simp_all del: std_search.simps)
  have "request_words ?line = Some (ascii ''GET'', ascii ''/'', ?v)"
    using stream_word_here(1) [OF _ p(1) sp, of "ascii ''/ '' @ ?v"]
      stream_word_here(3) [OF _ p(2) sp, of ?v] stream_word_here(2) [OF _ p(3) sp]
    by (simp add: request_words_def)
  moreover have "parseVersion ?v r = Inl e" for r
    using std_search_here [of "0x2E" v "[]" w] assms(4,5) by (simp add: parseVersion_def)
  moreover have "splitQuery (ascii ''/'') r = r\<lparr>hr_path := ascii ''/''\<rparr>" for r by (simp add: splitQuery_def)
  ultimately have "parseRequestLine ?line newHttpRequest = Inl e"
    by (simp add: parseRequestLine_def)
  then have "parseRequest (contents b) newHttpRequest = Inl e"
    using s by (simp add: parseRequest_def del: std_search.simps)
  then show ?thesis by (subst http_onMessage.simps) (simp flip: contents_def)
qed

theorem http_version_throws_witness:
  "\<exists>b. http_onMessage (ascii ''/srv'') (\<lambda>_. None) (tcp_ops (\<lambda>_. Inr 3)) sample_connection
     (buf_append (ascii ''GET / HTTP/x.1'' @ crlf) (newBuffer 8)) = (Some invalid_argument, sample_connection, b)"
proof -
  let ?b = "buf_append (ascii ''GET / HTTP/x.1'' @ crlf) (newBuffer 8)"
  have "buffer_inv ?b" "contents ?b = ascii ''GET / HTTP/'' @ ascii ''x'' @ ascii ''.'' @ ascii ''1'' @ crlf @ []"
    by (simp_all add: buffer_simps)
  moreover have "stoi (ascii ''x'') = Inl invalid_argument" by code_simp
  ultimately show ?thesis
    using http_version_throws [of ?b "ascii ''x''" "ascii ''1''" "[]" invalid_argument "ascii ''/srv''" "\<lambda>_. None"
        "tcp_ops (\<lambda>_. Inr 3)" sample_connection] by (simp add: isspace_def)
qed

text \<open>A long header field loses its line end. When the name and the value of a response's only field
  have at least 253 bytes together, \<open>snprintf\<close> cuts the line before its end, so that the line end meant
  for the empty line ends the field: the head of the response has no empty line, and a client that
  looks for one takes the body for header lines.\<close>

theorem http_long_field_unterminated:
  assumes "0 \<notin> set (k @ v)" and "0x0D \<notin> set (k @ v)" and "253 \<le> length (k @ v)" and "buffer_inv b"
    and "length body < 2 ^ 64"
  shows "\<exists>head. contents (appendToBuffer (setBody body (addHeader k v (newHttpResponse False))) b)
      = contents b @ head @ body \<and> std_search crlf2 head = None"
proof -
  let ?r = "setBody body (addHeader k v (newHttpResponse False))"
  let ?s = "ascii ''HTTP/1.1 200 OK''" and ?l = "ascii ''Content-Length: '' @ dec_digits (length body)"
    and ?f = "take 255 (k @ [0x3A, 0x20] @ v)"
  let ?head = "?s @ crlf @ ?l @ crlf @ ?f @ crlf"
  have c: "c_str k = k" "c_str v = v" using assms(1) by (auto simp: c_str_def takeWhile_eq_all_conv)
  have "take 255 ((k @ [0x3A, 0x20] @ v) @ crlf) = ?f" by (subst take_append) (use assms(3) in simp)
  then have f: "snprintf_buf (field_line (k, v)) = ?f" by (simp add: snprintf_buf_def field_line_def c)
  have "length (dec_digits (length body)) \<le> Suc 19" using assms(5) by (intro length_dec_digits) simp
  then have "snprintf_buf (status_line ?r) = ?s @ crlf" "snprintf_buf (length_line ?r) = ?l @ crlf"
    by (simp_all add: setBody_def addHeader_def newHttpResponse_def status_line_def length_line_def
        page_literals [simplified] snprintf_buf_def)
  then have w: "response_written ?r = ?head @ body"
    by (simp add: response_written_def f setBody_def addHeader_def newHttpResponse_def)
  have d: "0x0D \<notin> set ?s" "0x0D \<notin> set ?l" "0x0D \<notin> set ?f"
    using assms(2) dec_digits_isDigit [of "length body"] by (auto simp: list_all_iff isDigit_def dest!: in_set_takeD)
  have n: "?l \<noteq> []" "?f \<noteq> []" by simp_all
  have "std_search crlf2 (crlf @ ?f @ crlf @ []) = None" unfolding search_crlf2_after(2) [OF d(3) n(2)] by simp
  then have "std_search crlf2 (crlf @ ?l @ crlf @ ?f @ crlf) = None"
    unfolding search_crlf2_after(2) [OF d(2) n(1)] by (simp only: append_Nil2 option.map)
  then have "std_search crlf2 ?head = None"
    unfolding search_crlf2_after(1) [OF d(1)] by (simp only: option.map)
  moreover have "contents (appendToBuffer ?r b) = contents b @ ?head @ body"
    using appendToBuffer_ok [OF assms(4), of ?r] by (simp only: w)
  ultimately show ?thesis by (intro exI [of _ ?head] conjI)
qed

theorem http_long_field_unterminated_witness:
  "\<exists>head. contents (appendToBuffer (setBody [7] (addHeader (ascii ''X-Trace'') (replicate 250 0x61)
       (newHttpResponse False))) (newBuffer 8)) = head @ [7] \<and> std_search crlf2 head = None"
proof -
  have "0 \<notin> set (ascii ''X-Trace'' @ replicate 250 0x61)" "0x0D \<notin> set (ascii ''X-Trace'' @ replicate 250 0x61)"
    "253 \<le> length (ascii ''X-Trace'' @ replicate 250 (0x61 :: byte))"
    by simp_all
  from http_long_field_unterminated [OF this newBuffer_ok(1), of "[7]" 8] show ?thesis
    by (simp add: newBuffer_ok del: ascii_simps)
qed

end
