(* ===== verification/Echo_Examples.thy ===== *)
theory Echo_Examples
  imports Rpc_Call Http_Request Serializer
begin

section \<open>The echo examples\<close>

text \<open>
  \<open>example/echo_server.cpp\<close>, \<open>example/rpc_echo_server.cpp\<close> and \<open>example/rpc_echo_client.cpp\<close>: small programs that
  use the whole library. The first sends back what it receives; the other two do a remote call whose
  payload is JSON. The models hold the handlers, the configuration and what \<open>main\<close> does with its arguments
  (the list of arguments without the program's name); an exception of \<open>std::stoi\<close> leaves \<open>main\<close>. What is
  printed besides the result is left out.
\<close>

subsection \<open>The TCP echo server\<close>

definition echo_callback :: "kernel \<Rightarrow> tcp_connection \<Rightarrow> tcp_connection" where
  "echo_callback k c =
     (let (msg, b) = retrieveAllAsString (tc_input c) in t_send (tcp_ops k) msg (c\<lparr>tc_input := b\<rparr>))"

fun echo_reads :: "kernel \<Rightarrow> bytes list \<Rightarrow> tcp_connection \<Rightarrow> tcp_connection option" where
  "echo_reads k [] c = Some c"
| "echo_reads k (chunk # chunks) c =
     (case handleRead (\<lambda>_. Inr chunk) (echo_callback k) c of
        None \<Rightarrow> None
      | Some c' \<Rightarrow> echo_reads k chunks c')"

text \<open>The number of threads, \<^const>\<open>None\<close> when only the usage is printed.\<close>

definition echo_main_args :: "bytes list \<Rightarrow> stoi_error + int option" where
  "echo_main_args args =
     (case args of
        [] \<Rightarrow> Inr (Some 0)
      | arg # _ \<Rightarrow>
          if arg = ascii ''-h'' \<or> arg = ascii ''--help'' then Inr None
          else map_sum id Some (stoi arg))"

lemma send_input: "tc_input (t_send (tcp_ops k) m c) = tc_input c"
  by (auto simp: tcp_ops_def tcp_send_def sendInLoop_def conn_defs Let_def split: sum.splits prod.splits)

lemma echo_read:
  assumes "conn_inv c" and "tcp_connected c" and "peer_alive k" and "contents (tc_input c) = []" and "chunk \<noteq> []"
  shows "\<exists>c'. handleRead (\<lambda>_. Inr chunk) (echo_callback k) c = Some c' \<and> conn_inv c' \<and> tcp_connected c'
    \<and> contents (tc_input c') = [] \<and> outbox c' = outbox c @ chunk"
proof -
  from handleRead_data [OF assms(1,5), of "echo_callback k"] assms(4) obtain b where
    h: "handleRead (\<lambda>_. Inr chunk) (echo_callback k) c = Some (echo_callback k (c\<lparr>tc_input := b\<rparr>))"
    and b: "buffer_inv b" "contents b = chunk" by auto
  obtain msg b' where r: "retrieveAllAsString b = (msg, b')" by (cases "retrieveAllAsString b")
  from retrieveAllAsString_ok [OF b(1)] r b(2) have b': "msg = chunk" "contents b' = []" "buffer_inv b'" by simp_all
  let ?c = "c\<lparr>tc_input := b'\<rparr>"
  have "conn_inv ?c" "t_connected (tcp_ops k) ?c" using assms(1,2) b'(3) by simp_all
  with tcp.send_outbox [OF assms(3) this, of chunk] tcp.send_invar [of ?c k chunk] tcp.send_connected [of ?c k chunk]
  show ?thesis using h r b' by (auto simp: echo_callback_def send_input)
qed

subsection \<open>The RPC echo server\<close>

definition quoted :: "string \<Rightarrow> bytes" where
  "quoted s = [0x22] @ ascii s @ [0x22]"

definition error_text :: "string \<Rightarrow> bytes" where
  "error_text message = [0x7B] @ quoted ''error'' @ [0x3A] @ quoted message @ [0x7D]"

definition echo_handler :: "'d double_ops \<Rightarrow> ErasedMethod" where
  "echo_handler D payload =
     Some (case json_parse D kDefaultMaxDepth payload of
             None \<Rightarrow> error_text ''malformed json''
           | Some request \<Rightarrow>
               (case json_write D kDefaultMaxDepth request of
                  None \<Rightarrow> error_text ''unencodable value''
                | Some encoded \<Rightarrow> encoded))"

definition rpc_echo_server :: "'d double_ops \<Rightarrow> RpcServer" where
  "rpc_echo_server D =
     server_start (server_setSerializerId kSerializerJson (newRpcServer\<lparr>sv_registry :=
       snd (registerMethod (ascii ''Echo'') (ascii ''Echo'') (Some (echo_handler D)) newServiceRegistry)\<rparr>))"

definition rpc_echo_server_port :: "bytes list \<Rightarrow> stoi_error + 16 word option" where
  "rpc_echo_server_port args =
     (case args of
        [] \<Rightarrow> Inr (Some 9000)
      | arg # _ \<Rightarrow>
          if arg = ascii ''-h'' \<or> arg = ascii ''--help'' then Inr None
          else map_sum id (\<lambda>n. Some (word_of_int n)) (stoi arg))"

subsection \<open>The RPC echo client\<close>

definition rpc_echo_client_args :: "bytes list \<Rightarrow> stoi_error + (16 word \<times> bytes) option" where
  "rpc_echo_client_args args =
     (let payload = (if 2 \<le> length args then args ! 1 else ascii ''hello rpc'')
      in case args of
           [] \<Rightarrow> Inr (Some (9000, payload))
         | arg # _ \<Rightarrow>
             if arg = ascii ''-h'' \<or> arg = ascii ''--help'' then Inr None
             else map_sum id (\<lambda>n. Some (word_of_int n, payload)) (stoi arg))"

definition echo_value :: "bytes \<Rightarrow> 'd JsonValue option" where
  "echo_value payload =
     Option.bind (json_assign (ascii ''message'') (kString payload) (kObject []))
       (json_assign (ascii ''client'') (kString (ascii ''rpc_echo_client'')))"

definition echo_call :: "'d double_ops \<Rightarrow> bytes \<Rightarrow> Request option" where
  "echo_call D payload =
     map_option (\<lambda>encoded. \<lparr>rq_service = ascii ''Echo'', rq_method = ascii ''Echo'', rq_payload = encoded\<rparr>)
       (Option.bind (echo_value payload) (json_encode D kDefaultMaxDepth))"

text \<open>The message the client prints. \<open>find\<close> on a value that is not an object is an assertion; the
  programs never get there, since the server answers with an object.\<close>

definition echo_message :: "'d double_ops \<Rightarrow> Response \<Rightarrow> bytes option" where
  "echo_message D response =
     (if rs_status response = kOk then
        (case json_decode D kDefaultMaxDepth (rs_payload response) of
           None \<Rightarrow> None
         | Some decoded \<Rightarrow>
             (case json_find (ascii ''message'') decoded of
                None \<Rightarrow> None
              | Some m \<Rightarrow> if isString m then asString m else None))
      else None)"

subsection \<open>What the examples do\<close>

lemma echo_value_eq:
  "echo_value payload =
     Some (kObject [(ascii ''message'', kString payload), (ascii ''client'', kString (ascii ''rpc_echo_client''))])"
  by (simp add: echo_value_def json_assign_def json_index_def)

lemma echo_call_defined:
  assumes "to_chars_decimal D"
  shows "echo_call D payload = None \<longleftrightarrow> \<not> isValidUtf8 payload \<or>
    (\<exists>w. Option.bind (echo_value payload) (json_write D kDefaultMaxDepth) = Some w \<and> length w > kMaxBodyLen)"
proof -
  have u: "isValidUtf8 (ascii ''message'')" "isValidUtf8 (ascii ''client'')" "isValidUtf8 (ascii ''rpc_echo_client'')"
    by code_simp+
  have "json_write D kDefaultMaxDepth (kObject [(ascii ''message'', kString payload),
      (ascii ''client'', kString (ascii ''rpc_echo_client''))]) \<noteq> None \<longleftrightarrow> isValidUtf8 payload"
    unfolding json_write_def write_defined(1) [OF assms le0]
    using u by (simp add: kDefaultMaxDepth_def)
  then show ?thesis
    by (auto simp: echo_call_def echo_value_eq json_encode_def split: option.splits if_splits)
qed

lemma echo_server_result:
  assumes "double_io D" and "echo_call D payload = Some request"
  shows "service_result (rpc_echo_server D) request = mkResponse kOk (rq_payload request)"
    and "json_decode D kDefaultMaxDepth (rq_payload request) = echo_value payload"
proof -
  obtain v where v: "echo_value payload = Some v" "json_encode D kDefaultMaxDepth v = Some (rq_payload request)"
    and q: "rq_service request = ascii ''Echo''" "rq_method request = ascii ''Echo''"
    using assms(2) by (auto simp: echo_call_def echo_value_eq)
  show d: "json_decode D kDefaultMaxDepth (rq_payload request) = echo_value payload"
    using json_decode_encode [OF assms(1) v(2)] v(1) by simp
  then have "json_parse D kDefaultMaxDepth (rq_payload request) = Some v"
    using v(1) by (auto simp: json_decode_def split: if_splits)
  moreover have "json_write D kDefaultMaxDepth v = Some (rq_payload request)"
    using v(2) by (auto simp: json_encode_def split: option.splits if_splits)
  ultimately show "service_result (rpc_echo_server D) request = mkResponse kOk (rq_payload request)"
    using q by (simp add: service_result_def rpc_echo_server_def server_start_def server_setSerializerId_def newRpcServer_def
        freeze_def registerMethod_def newServiceRegistry_def dispatch_def mkResponse_def echo_handler_def Let_def)
qed

lemma echo_message_printed:
  assumes "double_io D" and "echo_call D payload = Some request" and "rs_status r = kOk" and "rs_payload r = rq_payload request"
  shows "echo_message D r = Some payload"
  using assms(3,4) echo_server_result(2) [OF assms(1,2)]
  by (simp add: echo_message_def echo_value_eq json_find_def)

lemma rpc_echo_reader:
  "sv_serializerId (rpc_echo_server D) = kSerializerJson" "reader_inv (sv_frameReader (rpc_echo_server D))"
  "fr_maxFrameSize (sv_frameReader (rpc_echo_server D)) \<le> input_limit (rpc_echo_server D)"
  "sv_frameReader (rpc_echo_server D) = newFrameReader kDefaultMaxFrameSize"
  by (simp_all add: rpc_echo_server_def server_start_def server_setSerializerId_def newRpcServer_def reader_inv_set input_limit_def)

text \<open>The TCP echo server sends back exactly the bytes it receives, in order, however they are cut into
  reads.\<close>

theorem echo_server_echoes:
  assumes "tcp_reachable k prog c" and "tcp_connected c" and "peer_alive k" and "contents (tc_input c) = []"
    and "[] \<notin> set chunks"
  shows "\<exists>c'. echo_reads k chunks c = Some c' \<and> tcp_connected c' \<and> outbox c' = outbox c @ concat chunks"
proof -
  have "\<exists>c'. echo_reads k chunks c = Some c' \<and> tcp_connected c' \<and> outbox c' = outbox c @ concat chunks" if "conn_inv c"
    using that assms(2,4,5)
  proof (induction chunks arbitrary: c)
    case (Cons chunk chunks)
    with echo_read [OF Cons.prems(1,2) assms(3) Cons.prems(3), of chunk] show ?case by fastforce
  qed simp
  with reachable_inv [OF assms(1)] show ?thesis by blast
qed

text \<open>C4: the RPC example prints the message it was given. The client encodes the message as JSON and calls
  the server; whatever the reads the bytes arrive in, on either side, the server parses the request, writes
  it again and answers, and the client completes the call with a response from which it prints that very
  message.\<close>

theorem rpc_echo_example:
  assumes "double_io D" and "echo_call D payload = Some request" and "encodeRequest request = Some body"
    and "client_reachable T st" and "rc_connection st = Some conn" and "rc_connected st"
    and "rc_serializerId st = kSerializerJson" and "length (rc_pendings st) < 2 ^ 32 - 1 - 1024"
    and "length body \<le> maxBodyOf (newFrameReader kDefaultMaxFrameSize)"
    and "length (rq_payload request) \<le> maxBodyOf (rc_frameReader st)"
    and "tcp_reachable k prog c" and "tcp_connected c" and "peer_alive k" and "contents (tc_input c) = []"
  shows "\<exists>st1 sent. CallAsync T request n deadline st = Some st1 \<and> rc_connection st1 = Some (t_send T sent conn)
    \<and> (\<forall>chunks. concat chunks = sent \<and> [] \<notin> set chunks \<longrightarrow>
        (\<exists>c' reply. server_reads (rpc_echo_server D) k chunks c = Some c' \<and> outbox c' = outbox c @ reply
          \<and> (\<forall>b rchunks. buffer_inv b \<and> contents b = [] \<and> concat rchunks = reply \<and> [] \<notin> set rchunks \<longrightarrow>
              (\<exists>st2 b' response. client_reads T rchunks st1 b = Some (st2, b') \<and> rc_pendings st2 = rc_pendings st
                \<and> rc_log st2 = rc_log st @ [(n, response)] \<and> echo_message D response = Some payload))))"
proof -
  let ?r = "(service_result (rpc_echo_server D) request)\<lparr>rs_serializerId := rc_serializerId st\<rparr>"
  note res = echo_server_result(1) [OF assms(1,2)]
  have m: "echo_message D ?r = Some payload"
    by (rule echo_message_printed [OF assms(1,2)]) (simp_all add: res mkResponse_def)
  have "length (rs_payload (service_result (rpc_echo_server D) request)) \<le> maxBodyOf (rc_frameReader st)"
    "length body \<le> maxBodyOf (sv_frameReader (rpc_echo_server D))"
    "sv_serializerId (rpc_echo_server D) = rc_serializerId st"
    using assms(7,9,10) by (simp_all add: res mkResponse_def rpc_echo_reader)
  from call_completes [OF assms(4-6,8,3) this(3) rpc_echo_reader(2,3) this(2,1) assms(11-14), of n deadline]
  show ?thesis using m by metis
qed

definition json_client :: "bytes list RpcClient" where
  "json_client = (newRpcClient kSerializerJson)\<lparr>rc_connection := Some [], rc_connected := True, rc_everConnected := True\<rparr>"

lemma json_client_reachable: "client_reachable memory_ops json_client"
  by (rule client_reachable.step [OF client_reachable.start, where ev = "ConnectionEvent []"])
    (simp add: client_onConnection_def memory_ops_def resolve_connect_def json_client_def newRpcClient_def)

lemma hi_call:
  shows "\<exists>request body. echo_call integral_doubles (ascii ''hi'') = Some request \<and> encodeRequest request = Some body
    \<and> length body \<le> 100 \<and> length (rq_payload request) \<le> 100"
proof -
  let ?v = "kObject [(ascii ''message'', kString (ascii ''hi'')), (ascii ''client'', kString (ascii ''rpc_echo_client''))]"
  have "map_option length (json_write integral_doubles kDefaultMaxDepth ?v) = Some 43" by code_simp
  then obtain w where w: "json_write integral_doubles kDefaultMaxDepth ?v = Some w" "length w = 43" by blast
  then show ?thesis
    by (simp add: echo_call_def echo_value_eq json_encode_def kMaxBodyLen_def encodeRequest_def nameFits_def kMaxNameLen_def
        putU16_def)
qed

theorem rpc_echo_example_witness:
  "\<exists>request. echo_call integral_doubles (ascii ''hi'') = Some request \<and> (\<exists>st1 sent.
    CallAsync memory_ops request 5 True json_client = Some st1 \<and> rc_connection st1 = Some (t_send memory_ops sent [])
    \<and> (\<forall>chunks. concat chunks = sent \<and> [] \<notin> set chunks \<longrightarrow>
        (\<exists>c' reply. server_reads (rpc_echo_server integral_doubles) (\<lambda>_. Inr 1) chunks sample_connection = Some c'
          \<and> outbox c' = reply \<and> (\<forall>b rchunks. buffer_inv b \<and> contents b = [] \<and> concat rchunks = reply \<and> [] \<notin> set rchunks \<longrightarrow>
              (\<exists>st2 b' response. client_reads memory_ops rchunks st1 b = Some (st2, b') \<and> rc_pendings st2 = []
                \<and> rc_log st2 = [(5, response)] \<and> echo_message integral_doubles response = Some (ascii ''hi''))))))"
proof -
  obtain request body where q: "echo_call integral_doubles (ascii ''hi'') = Some request" "encodeRequest request = Some body"
    "length body \<le> 100" "length (rq_payload request) \<le> 100" using hi_call by blast
  have m: "100 \<le> maxBodyOf (newFrameReader kDefaultMaxFrameSize)"
    by (simp add: maxBodyOf_def newFrameReader_def setMaxFrameSize_def kDefaultMaxFrameSize_def kHeaderSize_def kMaxBodyLen_def)
  have c: "rc_connection json_client = Some []" "rc_connected json_client" "rc_serializerId json_client = kSerializerJson"
    "length (rc_pendings json_client) < 2 ^ 32 - 1 - 1024" "rc_log json_client = []"
    "rc_pendings json_client = []"
    by (simp_all add: json_client_def newRpcClient_def)
  have l: "length (rq_payload request) \<le> maxBodyOf (rc_frameReader json_client)"
    using le_trans [OF q(4) m] by (simp add: json_client_def newRpcClient_def)
  have "peer_alive (\<lambda>_. Inr 1)" by (simp add: peer_alive_def)
  note e = rpc_echo_example [OF integral_doubles_io q(1,2) json_client_reachable c(1-4) le_trans [OF q(3) m] l
      sample_reachable(1,2) this sample_input(1), where n = 5 and deadline = True,
      unfolded c(5,6) sample_input(2) append_Nil]
  show ?thesis by (rule exI [of _ request], rule conjI [OF q(1) e])
qed

end
