(* ===== verification/Bench_Codecs.thy ===== *)
theory Bench_Codecs
  imports Prelude
begin

unbundle bit_operations_syntax

section \<open>The codecs of the serialization benchmark\<close>

text \<open>
  \<open>bench/serialization_bench.cpp\<close> compares five wire formats of one record and checks that each of them
  gives the record back. This theory holds the record, the little-endian integers, the raw format and
  the FlatBuffers-style layout; the other formats have their own theories.

  A decoder writes through its second argument and returns whether it succeeded: it is a function of
  the previous value that returns the new one, \<^const>\<open>None\<close> for \<open>false\<close>. What a failed call leaves
  behind is not modelled. A pointer into the input is the rest of the input from there. \<open>int32_t\<close> and
  \<open>uint64_t\<close> are words; \<open>memcpy\<close> of an integer is that of a little-endian machine.
\<close>

subsection \<open>The record and its integers\<close>

record User =
  us_id :: "64 word"
  us_score :: "32 word"
  us_active :: bool
  us_tags :: "32 word list"
  us_name :: bytes
  us_email :: bytes

definition defaultUser :: User where
  "defaultUser =
     \<lparr>us_id = 42, us_score = 87, us_active = True, us_tags = [1, 2, 3, 4],
      us_name = ascii ''alice'', us_email = ascii ''alice@example.com''\<rparr>"

text \<open>\<open>putU32\<close> and \<open>putU64\<close>, \<open>getU32\<close> and \<open>getU64\<close> differ only in the number of bytes.\<close>

definition putLE :: "nat \<Rightarrow> 'a::len word \<Rightarrow> bytes" where
  "putLE n v = map (\<lambda>i. ucast (drop_bit (8 * i) v AND 0xFF)) [0..<n]"

definition getLE :: "nat \<Rightarrow> bytes \<Rightarrow> 'a::len word" where
  "getLE n p = foldl (\<lambda>v i. v OR push_bit (8 * i) (ucast (p ! i))) 0 [0..<n]"

lemma length_putLE [simp]: "length (putLE n v) = n"
  by (simp add: putLE_def)

lemma bit_getLE:
  "n \<le> length p \<Longrightarrow> 8 * n \<le> LENGTH('a) \<Longrightarrow>
     bit (getLE n p :: 'a::len word) k \<longleftrightarrow> k div 8 < n \<and> bit (p ! (k div 8)) (k mod 8)"
proof (induction n)
  case 0
  then show ?case by (simp add: getLE_def)
next
  case (Suc n)
  have g: "getLE (Suc n) p = (getLE n p OR push_bit (8 * n) (ucast (p ! n)) :: 'a word)" by (simp add: getLE_def)
  have b: "bit (push_bit (8 * n) (ucast (p ! n)) :: 'a word) k \<longleftrightarrow> k div 8 = n \<and> bit (p ! n) (k mod 8)"
  proof (cases "8 * n \<le> k \<and> k < 8 * n + 8")
    case True
    then have "k div 8 = n" "k mod 8 = k - 8 * n" by (auto simp: div_nat_eqI modulo_nat_def)
    then show ?thesis using True Suc.prems(2) by (auto simp: bit_simps)
  next
    case False
    then have "k div 8 \<noteq> n" by (auto simp: dvd_div_eq_mult)
    moreover have "\<not> bit (push_bit (8 * n) (ucast (p ! n)) :: 'a word) k"
      using False bit_byte_bound [of "p ! n" "k - 8 * n"] by (auto simp: bit_simps)
    ultimately show ?thesis by simp
  qed
  from Suc b show ?case unfolding g by (auto simp: bit_or_iff less_Suc_eq)
qed

lemma getLE_putLE:
  fixes v :: "'a::len word"
  assumes "8 * n = LENGTH('a)"
  shows "getLE n (putLE n v @ rest) = v"
proof (rule bit_eqI)
  fix k
  assume "possible_bit TYPE('a word) k"
  then have "k < 8 * n" using assms by simp
  then have k: "k div 8 < n" "8 * (k div 8) + k mod 8 = k" by auto
  have "bit (putLE n v ! (k div 8)) (k mod 8) = bit v k"
    using k mod_less_divisor [of 8 k] by (auto simp: putLE_def bit_simps and_0xFF add.commute)
  then show "bit (getLE n (putLE n v @ rest) :: 'a word) k = bit v k"
    using k(1) assms bit_getLE [where 'a = 'a, of n "putLE n v @ rest" k] by (simp add: nth_append)
qed

text \<open>Words that fit seven bits, as bytes.\<close>

lemma small_word_uint: "v < 0x80 \<Longrightarrow> uint v < 128" for v :: "'a::len word"
proof -
  assume "v < 0x80"
  then have "uint v < uint (0x80 :: 'a word)" by (simp only: word_less_def)
  also have "\<dots> \<le> 128" by (simp add: take_bit_int_less_eq_self_iff)
  finally show ?thesis .
qed

lemma small_word_bit: "v < 0x80 \<Longrightarrow> bit v k \<Longrightarrow> k < 7" for v :: "'a::len word"
proof -
  assume v: "v < 0x80" "bit v k"
  from small_word_uint [OF v(1)] have "take_bit 7 (uint v) = uint v" by (intro take_bit_int_eq_self) simp_all
  moreover have "bit (uint v) k" using v(2) by (auto simp: bit_uint_iff dest: bit_imp_le_length)
  ultimately show ?thesis by (metis bit_take_bit_iff)
qed

lemma small_word_byte:
  fixes v :: "'a::len word"
  assumes "v < 0x80" and "8 \<le> LENGTH('a)"
  shows "ucast (ucast v :: byte) = v" and "uint (ucast v :: byte) = uint v"
proof -
  show e: "ucast (ucast v :: byte) = v"
    by (rule bit_word_eqI) (auto simp: bit_simps dest: small_word_bit [OF assms(1)] intro: less_trans [of _ 7])
  have "uint (ucast (ucast v :: byte) :: 'a word) = uint (ucast v :: byte)"
    using assms(2) by (intro uint_up_ucast) (simp add: is_up)
  with e show "uint (ucast v :: byte) = uint v" by simp
qed

subsection \<open>What the benchmark asks of a format\<close>

text \<open>A format supports some records, and gives those back whatever the target of the decoder held.\<close>

locale record_codec =
  fixes encode :: "User \<Rightarrow> bytes"
    and decode :: "bytes \<Rightarrow> User \<Rightarrow> User option"
    and supports :: "User \<Rightarrow> bool"
  assumes gives_back: "supports u \<Longrightarrow> decode (encode u) v = Some u"
begin

unbundle bit_operations_syntax

lemma encode_inj: "supports u \<Longrightarrow> supports w \<Longrightarrow> encode u = encode w \<Longrightarrow> u = w"
  using gives_back by (metis option.inject)

end

subsection \<open>The raw format\<close>

definition rawEncode :: "User \<Rightarrow> bytes" where
  "rawEncode u =
     putLE 8 (us_id u) @ putLE 4 (us_score u) @ [if us_active u then 1 else 0]
     @ [of_nat (length (us_tags u))] @ concat (map (putLE 4) (us_tags u))
     @ putLE 4 (of_nat (length (us_name u)) :: 32 word) @ us_name u
     @ putLE 4 (of_nat (length (us_email u)) :: 32 word) @ us_email u"

definition rawDecode :: "bytes \<Rightarrow> User \<Rightarrow> User option" where
  "rawDecode p u =
     (if length p < 14 \<or> p ! 12 > 64 then None
      else
        (let u1 = u\<lparr>us_id := getLE 8 p, us_score := getLE 4 (drop 8 p), us_active := p ! 12 \<noteq> 0\<rparr>;
             tagCount = unat (p ! 13);
             q = drop 14 p
         in if length q < tagCount * 4 + 4 then None
            else
              (let u2 = u1\<lparr>us_tags := map (\<lambda>i. getLE 4 (drop (4 * i) q)) [0..<tagCount]\<rparr>;
                   q1 = drop (4 * tagCount) q;
                   nameLen = unat (getLE 4 q1 :: 32 word);
                   q2 = drop 4 q1
               in if length q2 < nameLen + 4 then None
                  else
                    (let u3 = u2\<lparr>us_name := take nameLen q2\<rparr>;
                         q3 = drop nameLen q2;
                         emailLen = unat (getLE 4 q3 :: 32 word);
                         q4 = drop 4 q3
                     in if length q4 < emailLen then None
                        else Some (u3\<lparr>us_email := take emailLen q4\<rparr>)))))"

lemma length_concat_putLE: "length (concat (map (putLE n) ts)) = n * length ts"
  by (induction ts) (simp_all add: algebra_simps)

lemma tag_putLE:
  assumes "i < length ts"
  shows "getLE 4 (drop (4 * i) (concat (map (putLE 4) ts) @ rest)) = (ts ! i :: 32 word)"
proof -
  have "concat (map (putLE 4) ts) = concat (map (putLE 4) (take i ts)) @ putLE 4 (ts ! i) @ concat (map (putLE 4) (drop (Suc i) ts))"
    using assms by (metis append_take_drop_id concat.simps(2) concat_append list.map(2) map_append Cons_nth_drop_Suc)
  with assms show ?thesis by (simp add: length_concat_putLE getLE_putLE)
qed

lemma tags_putLE:
  "map (\<lambda>i. getLE 4 (drop (4 * i) (concat (map (putLE 4) ts) @ rest))) [0..<length ts] = (ts :: 32 word list)"
  by (rule nth_equalityI) (simp_all add: tag_putLE del: drop_append)

subsection \<open>The FlatBuffers-style layout\<close>

definition kFlatTagsOffset :: nat where "kFlatTagsOffset = 16"
definition kFlatOffsets :: nat where "kFlatOffsets = 32"
definition kFlatHeader :: nat where "kFlatHeader = 40"

record FlatView =
  fv_id :: "64 word"
  fv_score :: "32 word"
  fv_active :: bool
  fv_tagsBytes :: bytes
  fv_tagCount :: byte
  fv_name :: bytes
  fv_email :: bytes

definition flat_tags :: "32 word list \<Rightarrow> bytes \<Rightarrow> bytes" where
  "flat_tags tags out =
     fold (\<lambda>(i, tag). copy_to (kFlatTagsOffset + i * 4) (putLE 4 tag)) (enumerate 0 (take 4 tags)) out"

definition flatEncode :: "User \<Rightarrow> bytes" where
  "flatEncode u =
     (let out0 = replicate kFlatHeader 0;
          out1 = copy_to 8 (putLE 4 (us_score u)) (copy_to 0 (putLE 8 (us_id u)) out0);
          out2 = out1[12 := (if us_active u then 1 else 0), 13 := of_nat (length (us_tags u))];
          out3 = flat_tags (us_tags u) out2;
          nameOff = of_nat (length out3) :: 32 word;
          out4 = out3 @ us_name u;
          emailOff = of_nat (length out4) :: 32 word;
          out5 = out4 @ us_email u
      in copy_to (kFlatOffsets + 4) (putLE 4 emailOff) (copy_to kFlatOffsets (putLE 4 nameOff) out5))"

definition flatDecode :: "bytes \<Rightarrow> FlatView \<Rightarrow> FlatView option" where
  "flatDecode inp v =
     (if length inp < kFlatHeader then None
      else
        (let v1 = v\<lparr>fv_id := getLE 8 inp, fv_score := getLE 4 (drop 8 inp), fv_active := inp ! 12 \<noteq> 0\<rparr>;
             tagCount = inp ! 13
         in if tagCount > 4 then None
            else
              (let v2 = v1\<lparr>fv_tagsBytes := drop kFlatTagsOffset inp, fv_tagCount := tagCount\<rparr>;
                   nameOff = unat (getLE 4 (drop kFlatOffsets inp) :: 32 word);
                   emailOff = unat (getLE 4 (drop (kFlatOffsets + 4) inp) :: 32 word)
               in if nameOff > length inp \<or> emailOff > length inp \<or> emailOff < nameOff then None
                  else Some (v2\<lparr>fv_name := take (emailOff - nameOff) (drop nameOff inp),
                                fv_email := drop emailOff inp\<rparr>))))"

definition sameUser_flat :: "FlatView \<Rightarrow> User \<Rightarrow> bool" where
  "sameUser_flat a b =
     (if fv_id a \<noteq> us_id b \<or> fv_score a \<noteq> us_score b \<or> fv_active a \<noteq> us_active b
         \<or> unat (fv_tagCount a) \<noteq> length (us_tags b) \<or> fv_name a \<noteq> us_name b \<or> fv_email a \<noteq> us_email b
      then False
      else list_all (\<lambda>i. getLE 4 (drop (i * 4) (fv_tagsBytes a)) = us_tags b ! i) [0..<length (us_tags b)])"

lemma copy_to_here: "length a = i \<Longrightarrow> length b = length xs \<Longrightarrow> copy_to i xs (a @ b @ c) = a @ xs @ c"
  by (simp add: copy_to_def)

lemma flat_tags_layout:
  "length a = kFlatTagsOffset + 4 * k \<Longrightarrow> 4 * length ts \<le> length b \<Longrightarrow>
     fold (\<lambda>(i, tag). copy_to (kFlatTagsOffset + i * 4) (putLE 4 tag)) (enumerate k ts) (a @ b)
       = a @ concat (map (putLE 4) ts) @ drop (4 * length ts) b"
proof (induction ts arbitrary: k a b)
  case (Cons t ts)
  have "copy_to (kFlatTagsOffset + k * 4) (putLE 4 t) (a @ b) = (a @ putLE 4 t) @ drop 4 b"
    using copy_to_here [of a "kFlatTagsOffset + k * 4" "take 4 b" "putLE 4 t" "drop 4 b"] Cons.prems by simp
  moreover from Cons.IH [of "a @ putLE 4 t" "Suc k" "drop 4 b"] Cons.prems
  have "fold (\<lambda>(i, tag). copy_to (kFlatTagsOffset + i * 4) (putLE 4 tag)) (enumerate (Suc k) ts) ((a @ putLE 4 t) @ drop 4 b)
      = (a @ putLE 4 t) @ concat (map (putLE 4) ts) @ drop (4 * length ts) (drop 4 b)" by simp
  ultimately show ?case by (simp add: add.commute)
qed simp

lemma flatEncode_layout:
  assumes "length (us_tags u) \<le> 4"
  shows "flatEncode u = putLE 8 (us_id u) @ putLE 4 (us_score u)
    @ [if us_active u then 1 else 0, of_nat (length (us_tags u)), 0, 0]
    @ concat (map (putLE 4) (us_tags u)) @ replicate (16 - 4 * length (us_tags u)) 0
    @ putLE 4 (40 :: 32 word) @ putLE 4 (of_nat (40 + length (us_name u)) :: 32 word) @ us_name u @ us_email u"
proof -
  let ?i = "putLE 8 (us_id u)" and ?s = "putLE 4 (us_score u)"
    and ?t = "concat (map (putLE 4) (us_tags u)) @ replicate (16 - 4 * length (us_tags u)) 0"
    and ?f = "[if us_active u then 1 else 0, of_nat (length (us_tags u)), 0, 0] :: bytes"
  have r: "replicate kFlatHeader (0 :: byte) = [] @ replicate 8 0 @ replicate 4 0 @ replicate 4 0 @ replicate 24 0"
    by (simp add: kFlatHeader_def flip: replicate_add)
  have "copy_to 0 ?i (replicate kFlatHeader 0) = ?i @ replicate 4 0 @ replicate 4 0 @ replicate 24 0"
    unfolding r by (subst copy_to_here) simp_all
  moreover have "copy_to 8 ?s (?i @ replicate 4 0 @ replicate 4 0 @ replicate 24 0) = ?i @ ?s @ replicate 4 0 @ replicate 24 0"
    by (subst copy_to_here) simp_all
  moreover have "(?i @ ?s @ replicate 4 0 @ replicate 24 0)[12 := (if us_active u then 1 else 0), 13 := of_nat (length (us_tags u))]
      = (?i @ ?s @ ?f) @ replicate 24 0"
    by (simp add: list_update_append numeral_eq_Suc)
  moreover have "flat_tags (us_tags u) ((?i @ ?s @ ?f) @ replicate 24 0) = (?i @ ?s @ ?f @ ?t) @ replicate 8 0"
    using flat_tags_layout [of "?i @ ?s @ ?f" 0 "us_tags u" "replicate 24 0"] assms
    by (simp add: flat_tags_def kFlatTagsOffset_def flip: replicate_add)
  moreover have l: "length (?i @ ?s @ ?f @ ?t) = 32" using assms by (simp add: length_concat_putLE)
  moreover have "copy_to 36 e (copy_to 32 n ((?i @ ?s @ ?f @ ?t) @ replicate 8 0 @ rest)) = (?i @ ?s @ ?f @ ?t) @ n @ e @ rest"
    if "length n = 4" "length e = 4" for n e rest
  proof -
    have "replicate 8 (0 :: byte) = replicate 4 0 @ replicate 4 0" by (simp flip: replicate_add)
    then have "copy_to 32 n ((?i @ ?s @ ?f @ ?t) @ replicate 8 0 @ rest) = (?i @ ?s @ ?f @ ?t) @ n @ replicate 4 0 @ rest"
      using copy_to_here [OF l, of "replicate 4 0" n "replicate 4 0 @ rest"] that by simp
    then show ?thesis
      using copy_to_here [of "(?i @ ?s @ ?f @ ?t) @ n" 36 "replicate 4 0" e rest] that l by simp
  qed
  ultimately show ?thesis
    by (simp add: flatEncode_def Let_def kFlatOffsets_def)
qed

text \<open>The raw format gives back every record with fewer than 256 tags and strings of fewer than
  \<open>2\<^sup>3\<^sup>2\<close> bytes, whatever the decoder's target held before and whatever follows the record.\<close>

lemma raw_roundtrip:
  assumes "length (us_tags u) < 256" and "length (us_name u) < 2 ^ 32" and "length (us_email u) < 2 ^ 32"
  shows "rawDecode (rawEncode u @ rest) v = Some u"
proof -
  let ?tags = "concat (map (putLE 4) (us_tags u))"
  let ?e = "putLE 4 (of_nat (length (us_email u)) :: 32 word) @ us_email u @ rest"
  let ?q = "?tags @ putLE 4 (of_nat (length (us_name u)) :: 32 word) @ us_name u @ ?e"
  let ?p = "putLE 8 (us_id u) @ putLE 4 (us_score u) @ [if us_active u then 1 else 0] @ [of_nat (length (us_tags u))] @ ?q"
  have p: "rawEncode u @ rest = ?p" by (simp add: rawEncode_def)
  have "getLE 8 ?p = us_id u" "getLE 4 (drop 8 ?p) = us_score u" by (simp_all add: getLE_putLE)
  moreover have "?p ! 12 = (if us_active u then 1 else 0)" "?p ! 13 = of_nat (length (us_tags u))" "drop 14 ?p = ?q"
    by (simp_all add: nth_append)
  moreover have "unat (of_nat (length (us_tags u)) :: byte) = length (us_tags u)" using assms(1) by (simp add: unat_of_nat)
  moreover have "drop (4 * length (us_tags u)) ?q = putLE 4 (of_nat (length (us_name u)) :: 32 word) @ us_name u @ ?e"
    by (simp add: length_concat_putLE)
  moreover have "unat (of_nat (length (us_name u)) :: 32 word) = length (us_name u)"
    "unat (of_nat (length (us_email u)) :: 32 word) = length (us_email u)"
    using assms(2,3) by (simp_all add: unat_of_nat)
  moreover note tags_putLE [of "us_tags u" "putLE 4 (of_nat (length (us_name u)) :: 32 word) @ us_name u @ ?e"]
  ultimately show ?thesis
    unfolding p rawDecode_def Let_def by (simp add: getLE_putLE length_concat_putLE del: append_assoc)
qed

text \<open>The FlatBuffers-style layout gives a view of every record with at most four tags that fits
  32-bit offsets: the view agrees with the record in every field.\<close>

lemma flat_roundtrip:
  assumes "length (us_tags u) \<le> 4" and "40 + length (us_name u) + length (us_email u) < 2 ^ 32"
  shows "\<exists>w. flatDecode (flatEncode u) v = Some w \<and> sameUser_flat w u"
proof -
  note l = flatEncode_layout [OF assms(1)]
  let ?x = "flatEncode u"
  let ?o = "of_nat (40 + length (us_name u)) :: 32 word"
  have f: "getLE 8 ?x = us_id u" "getLE 4 (drop 8 ?x) = us_score u" "?x ! 12 = (if us_active u then 1 else 0)"
    "?x ! 13 = of_nat (length (us_tags u))"
    by (simp_all add: l getLE_putLE nth_append)
  have t: "drop 16 ?x = concat (map (putLE 4) (us_tags u)) @ replicate (16 - 4 * length (us_tags u)) 0
      @ putLE 4 (40 :: 32 word) @ putLE 4 ?o @ us_name u @ us_email u" by (simp add: l)
  have d: "drop 32 ?x = putLE 4 (40 :: 32 word) @ putLE 4 ?o @ us_name u @ us_email u"
    "drop 36 ?x = putLE 4 ?o @ us_name u @ us_email u" "drop 40 ?x = us_name u @ us_email u"
    "length ?x = 40 + length (us_name u) + length (us_email u)"
    using assms(1) by (simp_all add: l length_concat_putLE)
  have e: "drop (40 + length (us_name u)) ?x = us_email u" using d(3) by (metis append_eq_conv_conj drop_drop add.commute)
  have o: "unat ?o = 40 + length (us_name u)" using assms(2) by (simp add: unat_of_nat del: of_nat_add)
  have c: "unat (of_nat (length (us_tags u)) :: byte) = length (us_tags u)"
    using assms(1) by (simp add: unat_of_nat)
  then have "\<not> (of_nat (length (us_tags u)) :: byte) > 4" using assms(1) by (simp add: word_less_nat_alt)
  then have "flatDecode ?x v = Some (v\<lparr>fv_id := us_id u, fv_score := us_score u, fv_active := us_active u,
      fv_tagsBytes := drop 16 ?x, fv_tagCount := of_nat (length (us_tags u)), fv_name := us_name u, fv_email := us_email u\<rparr>)"
    using o e by (simp add: flatDecode_def Let_def kFlatHeader_def kFlatTagsOffset_def kFlatOffsets_def f d getLE_putLE)
  moreover have "getLE 4 (drop (i * 4) (drop 16 ?x)) = us_tags u ! i" if "i < length (us_tags u)" for i
    by (simp only: t mult.commute [of i 4] tag_putLE [OF that])
  ultimately show ?thesis using c by (simp add: sameUser_flat_def list_all_iff)
qed

definition raw_supports :: "User \<Rightarrow> bool" where
  "raw_supports u \<longleftrightarrow> length (us_tags u) < 256 \<and> length (us_name u) < 2 ^ 32 \<and> length (us_email u) < 2 ^ 32"

interpretation benchraw: record_codec rawEncode rawDecode raw_supports
  using raw_roundtrip [where rest = "[]"] by unfold_locales (simp add: raw_supports_def)

definition flat_supports :: "User \<Rightarrow> bool" where
  "flat_supports u \<longleftrightarrow> length (us_tags u) \<le> 4 \<and> 40 + length (us_name u) + length (us_email u) < 2 ^ 32"

end
