(* ===== verification/Bench_Json.thy ===== *)
theory Bench_Json
  imports Bench_Codecs Charconv
begin

unbundle bit_operations_syntax

section \<open>The JSON codec of the benchmark\<close>

text \<open>
  The hand-written JSON writer of \<open>bench/serialization_bench.cpp\<close> and its scanner, which looks for the keys
  anywhere in the text. A position in the input is the rest of the input from there. The scanner
  accumulates \<open>int64_t\<close> numbers without a check; the model wraps them around, and the theorems keep to
  numbers for which it does not come to that.
\<close>

subsection \<open>Encoding\<close>

definition to_string_signed :: "32 word \<Rightarrow> bytes" where
  "to_string_signed w =
     (if sint w < 0 then 0x2D # dec_digits (nat (- sint w)) else dec_digits (nat (sint w)))"

fun tags_text :: "32 word list \<Rightarrow> bytes" where
  "tags_text [] = []"
| "tags_text [t] = to_string_signed t"
| "tags_text (t # ts) = to_string_signed t @ [0x2C] @ tags_text ts"

definition key_text :: "string \<Rightarrow> bytes" where
  "key_text k = [0x22] @ ascii k @ [0x22, 0x3A]"

definition bench_jsonEncode :: "User \<Rightarrow> bytes" where
  "bench_jsonEncode u =
     [0x7B] @ key_text ''id'' @ dec_digits (unat (us_id u))
     @ [0x2C] @ key_text ''score'' @ to_string_signed (us_score u)
     @ [0x2C] @ key_text ''active'' @ ascii (if us_active u then ''true'' else ''false'')
     @ [0x2C] @ key_text ''tags'' @ [0x5B] @ tags_text (us_tags u)
     @ [0x5D, 0x2C] @ key_text ''name'' @ [0x22] @ us_name u
     @ [0x22, 0x2C] @ key_text ''email'' @ [0x22] @ us_email u @ [0x22, 0x7D]"

subsection \<open>Decoding\<close>

definition after :: "bytes \<Rightarrow> bytes \<Rightarrow> bytes option" where
  "after key inp = map_option (\<lambda>at. drop (at + length key) inp) (std_search key inp)"

definition scan_digits :: "bytes \<Rightarrow> 64 word" where
  "scan_digits ds = foldl (\<lambda>v c. v * 10 + ucast (c - 0x30)) 0 ds"

definition readInt :: "bytes \<Rightarrow> bytes \<Rightarrow> 64 word option" where
  "readInt key inp =
     (case after key inp of
        None \<Rightarrow> None
      | Some s \<Rightarrow>
          if s = [] then None
          else
            (let negative = (hd s = 0x2D);
                 v = scan_digits (takeWhile isDigit (if negative then tl s else s))
             in Some (if negative then - v else v)))"

definition readString :: "bytes \<Rightarrow> bytes \<Rightarrow> bytes option" where
  "readString key inp =
     (case after key inp of
        None \<Rightarrow> None
      | Some s \<Rightarrow>
          if s = [] \<or> hd s \<noteq> 0x22 then None
          else map_option (\<lambda>close. take close (tl s)) (std_search [0x22] (tl s)))"

function scan_tags :: "bytes \<Rightarrow> 32 word list \<Rightarrow> 32 word list" where
  "scan_tags s tags =
     (if s = [] \<or> hd s = 0x5D then tags
      else if isDigit (hd s)
      then scan_tags (dropWhile isDigit s) (tags @ [ucast (scan_digits (takeWhile isDigit s))])
      else scan_tags (tl s) tags)"
  by pat_completeness auto
termination
proof (relation "measure (length \<circ> fst)")
  fix s :: bytes and tags :: "32 word list"
  assume "\<not> (s = [] \<or> hd s = 0x5D)" "isDigit (hd s)"
  then show "((dropWhile isDigit s, tags @ [ucast (scan_digits (takeWhile isDigit s))]), (s, tags)) \<in> measure (length \<circ> fst)"
    by (cases s) (auto simp: less_Suc_eq_le length_dropWhile_le)
qed auto

declare scan_tags.simps [simp del]

definition bench_jsonDecode :: "bytes \<Rightarrow> User \<Rightarrow> User option" where
  "bench_jsonDecode inp u =
     (case (readInt (key_text ''id'') inp, readInt (key_text ''score'') inp) of
        (Some i, Some score) \<Rightarrow>
          (let u1 = u\<lparr>us_id := i, us_score := ucast score,
                      us_active := std_search (key_text ''active'' @ ascii ''true'') inp \<noteq> None\<rparr>
           in case after (key_text ''tags'' @ [0x5B]) inp of
                None \<Rightarrow> None
              | Some s \<Rightarrow>
                  (let u2 = u1\<lparr>us_tags := scan_tags s []\<rparr>
                   in case (readString (key_text ''name'') inp, readString (key_text ''email'') inp) of
                        (Some name, Some email) \<Rightarrow> Some (u2\<lparr>us_name := name, us_email := email\<rparr>)
                      | _ \<Rightarrow> None))
      | _ \<Rightarrow> None)"

subsection \<open>Looking for keys\<close>

lemma after_skip: "q \<notin> set s \<Longrightarrow> after (q # pat) (s @ t) = after (q # pat) t"
proof (induction s)
  case (Cons x s)
  then have "after (q # pat) (x # s @ t) = after (q # pat) (s @ t)"
    by (auto simp: after_def option.map_comp comp_def)
  with Cons show ?case by simp
qed simp

lemma after_miss: "take (length pat) t \<noteq> pat \<Longrightarrow> after (q # pat) (q # t) = after (q # pat) t"
  by (simp add: after_def option.map_comp comp_def)

lemma after_hit: "after (q # pat) (q # pat @ t) = Some t"
  by (simp add: after_def)

lemma value_miss:
  fixes name :: bytes
  assumes "0x22 \<notin> set name" and "0x22 \<notin> set k" and "d \<noteq> 0x3A"
  shows "take n (name @ 0x22 # d # t) \<noteq> k @ 0x22 # 0x3A # tl0"
proof
  assume "take n (name @ 0x22 # d # t) = k @ 0x22 # 0x3A # tl0"
  then have e: "name @ 0x22 # d # t = k @ 0x22 # 0x3A # tl0 @ drop n (name @ 0x22 # d # t)"
    by (metis append_take_drop_id append_assoc append_Cons)
  have w: "takeWhile (\<lambda>c. c \<noteq> 0x22) (xs @ 0x22 # ys) = xs" if "0x22 \<notin> set xs" for xs ys :: bytes
    using that by (subst takeWhile_append2) auto
  from w [OF assms(1), of "d # t"] w [OF assms(2), of "0x3A # tl0 @ drop n (name @ 0x22 # d # t)"] e
  have "name = k" by simp
  with e assms(3) show False by simp
qed

lemma search_after: "std_search key inp \<noteq> None \<longleftrightarrow> after key inp \<noteq> None"
  by (simp add: after_def)

subsection \<open>Numbers\<close>

lemma scan_digits_value: "scan_digits ds = of_nat (dec_value ds)"
proof (induction ds rule: rev_induct)
  case (snoc c ds)
  have "ucast (c - 0x30) = (of_nat (unat (c - 0x30)) :: 64 word)" by simp
  with snoc show ?case by (simp add: scan_digits_def dec_value_snoc)
qed (simp add: scan_digits_def dec_value_def)

lemma scan_digits_dec: "scan_digits (dec_digits n) = of_nat n"
  by (simp add: scan_digits_value dec_value_digits)

lemma digits_then:
  assumes "\<not> isDigit c"
  shows "takeWhile isDigit (dec_digits n @ c # t) = dec_digits n" and "dropWhile isDigit (dec_digits n @ c # t) = c # t"
    and "isDigit (hd (dec_digits n @ t'))"
proof -
  have d: "\<forall>x \<in> set (dec_digits n). isDigit x" using dec_digits_isDigit [of n] by (simp add: list_all_iff)
  with assms show "takeWhile isDigit (dec_digits n @ c # t) = dec_digits n" "dropWhile isDigit (dec_digits n @ c # t) = c # t"
    by (simp_all add: takeWhile_append2 dropWhile_append2)
  show "isDigit (hd (dec_digits n @ t'))" using d by (metis dec_digits_nonempty hd_append2 hd_in_set)
qed

lemma readInt_unsigned:
  assumes "after key inp = Some (dec_digits n @ c # t)" and "\<not> isDigit c"
  shows "readInt key inp = Some (of_nat n)"
proof -
  have "hd (dec_digits n @ c # t) \<noteq> 0x2D" using digits_then(3) [OF assms(2), of n "c # t"] by (auto simp: isDigit_def)
  then show ?thesis using assms digits_then(1) [OF assms(2), of n t] by (simp add: readInt_def scan_digits_dec)
qed

lemma ucast_sint: "ucast (word_of_int (sint w) :: 64 word) = w" for w :: "32 word"
  by (rule bit_word_eqI) (simp add: bit_simps)

lemma readInt_signed:
  assumes "after key inp = Some (to_string_signed w @ c # t)" and "\<not> isDigit c"
  shows "readInt key inp = Some (word_of_int (sint w))"
proof (cases "sint w < 0")
  case True
  then show ?thesis
    using assms digits_then(1) [OF assms(2), of "nat (- sint w)" t]
    by (simp add: readInt_def to_string_signed_def scan_digits_dec)
next
  case False
  then show ?thesis
    using assms readInt_unsigned [of key inp "nat (sint w)" c t] by (simp add: to_string_signed_def)
qed

lemma scan_tags_number:
  assumes "0 \<le> sint t" and "\<not> isDigit c"
  shows "scan_tags (to_string_signed t @ c # s) tags = scan_tags (c # s) (tags @ [t])"
proof -
  let ?ds = "dec_digits (nat (sint t))"
  have h: "isDigit (hd (?ds @ c # s))" using digits_then(3) [OF assms(2)] by blast
  then have "hd (?ds @ c # s) \<noteq> 0x5D" by (auto simp: isDigit_def)
  moreover have "ucast (of_nat (nat (sint t)) :: 64 word) = t" using assms(1) ucast_sint [of t] by simp
  ultimately show ?thesis
    using h digits_then(1,2) [OF assms(2), of "nat (sint t)" s] assms(1)
    by (subst scan_tags.simps) (simp add: to_string_signed_def scan_digits_dec)
qed

lemma scan_tags_text:
  "list_all (\<lambda>t. 0 \<le> sint t) ts \<Longrightarrow> scan_tags (tags_text ts @ 0x5D # rest) tags = tags @ ts"
proof (induction ts arbitrary: tags rule: tags_text.induct)
  case 1
  show ?case by (subst scan_tags.simps) simp
next
  case (2 t)
  have e: "scan_tags (0x5D # rest) ts = ts" for ts by (subst scan_tags.simps) simp
  from 2 show ?case by (simp add: scan_tags_number isDigit_def e)
next
  case (3 t v ts)
  have "scan_tags (0x2C # s) ts = scan_tags s ts" for s ts by (subst scan_tags.simps) (simp add: isDigit_def)
  with 3 show ?case by (simp add: scan_tags_number isDigit_def)
qed

subsection \<open>Round trip\<close>

lemma no_quotes: "0x22 \<notin> set (dec_digits n)" "0x22 \<notin> set (to_string_signed w)" "0x22 \<notin> set (tags_text ts)"
proof -
  show d: "0x22 \<notin> set (dec_digits n)" for n
    using dec_digits_isDigit [of n] by (auto simp: list_all_iff isDigit_def)
  then show s: "0x22 \<notin> set (to_string_signed w)" for w by (simp add: to_string_signed_def)
  then show "0x22 \<notin> set (tags_text ts)" by (induction ts rule: tags_text.induct) simp_all
qed

lemma after_Cons:
  "x \<noteq> q \<Longrightarrow> after (q # pat) (x # t) = after (q # pat) t"
  "after (q # pat) (q # t) = (if take (length pat) t = pat then Some (drop (length pat) t) else after (q # pat) t)"
  "after (q # pat) [] = None"
  by (auto simp: after_def option.map_comp comp_def)

text \<open>The JSON codec of the benchmark gives back every record whose strings contain no quotation mark,
  whose tags are not negative and whose identifier is below \<open>2\<^sup>6\<^sup>3\<close>, whatever its score.\<close>

lemma bench_json_roundtrip:
  assumes "0x22 \<notin> set (us_name u)" and "0x22 \<notin> set (us_email u)" and "list_all (\<lambda>t. 0 \<le> sint t) (us_tags u)"
    and "unat (us_id u) < 2 ^ 63"
  shows "bench_jsonDecode (bench_jsonEncode u) v = Some u"
proof -
  let ?T = "bench_jsonEncode u"
  have nd: "\<not> isDigit 0x2C" by (simp add: isDigit_def)
  note skip = after_skip after_Cons no_quotes assms(1,2)
  note miss = value_miss [OF assms(1), of "ascii ''active''", simplified] value_miss [OF assms(1), of "ascii ''email''", simplified]
    value_miss [OF assms(2), of "ascii ''active''", simplified]
  have "\<exists>t. after (key_text ''id'') ?T = Some (dec_digits (unat (us_id u)) @ 0x2C # t)"
    by (simp add: bench_jsonEncode_def key_text_def skip)
  then have i: "readInt (key_text ''id'') ?T = Some (us_id u)" using readInt_unsigned [OF _ nd] by fastforce
  have "\<exists>t. after (key_text ''score'') ?T = Some (to_string_signed (us_score u) @ 0x2C # t)"
    by (simp add: bench_jsonEncode_def key_text_def skip)
  then have s: "readInt (key_text ''score'') ?T = Some (word_of_int (sint (us_score u)))"
    using readInt_signed [OF _ nd] by fastforce
  have a: "std_search (key_text ''active'' @ ascii ''true'') ?T \<noteq> None \<longleftrightarrow> us_active u"
    unfolding search_after by (simp add: bench_jsonEncode_def key_text_def skip miss)
  have "\<exists>t. after (key_text ''tags'' @ [0x5B]) ?T = Some (tags_text (us_tags u) @ 0x5D # t)"
    by (simp add: bench_jsonEncode_def key_text_def skip)
  then obtain t where g: "after (key_text ''tags'' @ [0x5B]) ?T = Some (tags_text (us_tags u) @ 0x5D # t)" ..
  have "\<exists>t. after (key_text ''name'') ?T = Some (0x22 # us_name u @ 0x22 # t)"
    by (simp add: bench_jsonEncode_def key_text_def skip)
  then have n: "readString (key_text ''name'') ?T = Some (us_name u)"
    using std_search_here [OF assms(1), of "[]"] by (auto simp: readString_def)
  have "\<exists>t. after (key_text ''email'') ?T = Some (0x22 # us_email u @ 0x22 # t)"
    by (simp add: bench_jsonEncode_def key_text_def skip miss)
  then have e: "readString (key_text ''email'') ?T = Some (us_email u)"
    using std_search_here [OF assms(2), of "[]"] by (auto simp: readString_def)
  show ?thesis
    unfolding bench_jsonDecode_def a i s ucast_sint prod.case option.case Let_def g n e
    by (simp add: scan_tags_text [OF assms(3)])
qed

definition json_supports :: "User \<Rightarrow> bool" where
  "json_supports u \<longleftrightarrow>
     0x22 \<notin> set (us_name u) \<and> 0x22 \<notin> set (us_email u) \<and> list_all (\<lambda>t. 0 \<le> sint t) (us_tags u)
     \<and> unat (us_id u) < 2 ^ 63"

interpretation bench_json: record_codec bench_jsonEncode bench_jsonDecode json_supports
  using bench_json_roundtrip by unfold_locales (simp add: json_supports_def)

end
