(* ===== verification/Bench_Msgpack.thy ===== *)
theory Bench_Msgpack
  imports Bench_Codecs
begin

unbundle bit_operations_syntax

section \<open>The MessagePack subset of the benchmark\<close>

text \<open>
  The MessagePack codec of \<open>bench/serialization_bench.cpp\<close>: fixed maps, arrays, strings and integers. The
  position in the input is the rest of the input. \<open>mpSkip\<close> calls itself for the elements of an array; the
  model counts the values that are still to be skipped, which the pending loops amount to.
\<close>

subsection \<open>Encoding\<close>

definition mpPutStr :: "bytes \<Rightarrow> bytes" where
  "mpPutStr s = ucast (0xA0 OR of_nat (length s) :: 64 word) # s"

definition mpPutUint :: "64 word \<Rightarrow> bytes" where
  "mpPutUint v =
     (if v < 128 then [ucast v]
      else 0xCF # map (\<lambda>i. ucast (drop_bit (8 * i) v AND 0xFF)) [7, 6, 5, 4, 3, 2, 1, 0])"

definition mpPutScore :: "32 word \<Rightarrow> bytes" where
  "mpPutScore score =
     [if (ucast score :: byte) < 128 then ucast score else 0xD0]
     @ (if 128 \<le> (ucast score :: byte) then [ucast score] else [])"

definition mpEncode :: "User \<Rightarrow> bytes" where
  "mpEncode u =
     [0x86] @ mpPutStr (ascii ''id'') @ mpPutUint (us_id u)
     @ mpPutStr (ascii ''score'') @ mpPutScore (us_score u)
     @ mpPutStr (ascii ''active'') @ [if us_active u then 0xC3 else 0xC2]
     @ mpPutStr (ascii ''tags'') @ [0x94] @ map ucast (us_tags u)
     @ mpPutStr (ascii ''name'') @ mpPutStr (us_name u)
     @ mpPutStr (ascii ''email'') @ mpPutStr (us_email u)"

subsection \<open>Decoding\<close>

fun mpReadStr :: "bytes \<Rightarrow> (bytes \<times> bytes) option" where
  "mpReadStr [] = None"
| "mpReadStr (marker # xs) =
     (if marker AND 0xE0 \<noteq> 0xA0 then None
      else
        (let len = unat (marker AND 0x1F)
         in if length xs < len then None else Some (take len xs, drop len xs)))"

fun mpReadUint :: "bytes \<Rightarrow> (64 word \<times> bytes) option" where
  "mpReadUint [] = None"
| "mpReadUint (marker # xs) =
     (if marker \<le> 0x7F then Some (ucast marker, xs)
      else if marker = 0xCF then
        (if length xs < 8 then None
         else Some (foldl (\<lambda>v b. push_bit 8 v OR ucast b) 0 (take 8 xs), drop 8 xs))
      else None)"

fun mpReadScore :: "bytes \<Rightarrow> (32 word \<times> bytes) option" where
  "mpReadScore [] = None"
| "mpReadScore (marker # xs) =
     (if marker \<le> 0x7F then Some (ucast marker, xs)
      else if marker = 0xD0 \<and> xs \<noteq> [] then Some (scast (hd xs), tl xs)
      else None)"

fun mpReadActive :: "bytes \<Rightarrow> (bool \<times> bytes) option" where
  "mpReadActive [] = None"
| "mpReadActive (c # xs) = (if c \<noteq> 0xC2 \<and> c \<noteq> 0xC3 then None else Some (c = 0xC3, xs))"

fun mpTags :: "nat \<Rightarrow> bytes \<Rightarrow> (32 word list \<times> bytes) option" where
  "mpTags 0 xs = Some ([], xs)"
| "mpTags (Suc n) [] = None"
| "mpTags (Suc n) (c # xs) =
     (if c > 0x7F then None
      else case mpTags n xs of None \<Rightarrow> None | Some (tags, ys) \<Rightarrow> Some (ucast c # tags, ys))"

fun mpReadTags :: "bytes \<Rightarrow> (32 word list \<times> bytes) option" where
  "mpReadTags [] = None"
| "mpReadTags (marker # xs) =
     (if marker AND 0xF0 \<noteq> 0x90 then None else mpTags (unat (marker AND 0x0F)) xs)"

function mpSkip :: "nat \<Rightarrow> bytes \<Rightarrow> bytes option" where
  "mpSkip 0 xs = Some xs"
| "mpSkip (Suc n) [] = None"
| "mpSkip (Suc n) (marker # xs) =
     (if marker \<le> 0x7F then mpSkip n xs
      else if marker AND 0xE0 = 0xA0 then
        (if length xs < unat (marker AND 0x1F) then None else mpSkip n (drop (unat (marker AND 0x1F)) xs))
      else if marker = 0xC2 \<or> marker = 0xC3 then mpSkip n xs
      else if marker = 0xCF then (if length xs < 8 then None else mpSkip n (drop 8 xs))
      else if marker = 0xD0 then (if xs = [] then None else mpSkip n (tl xs))
      else if marker AND 0xF0 = 0x90 then mpSkip (unat (marker AND 0x0F) + n) xs
      else None)"
  by pat_completeness auto
termination
  by (relation "measure (\<lambda>(n, xs). length xs)") auto

definition mpField :: "bytes \<Rightarrow> bytes \<Rightarrow> User \<Rightarrow> (User \<times> bytes) option" where
  "mpField key xs u =
     (if key = ascii ''id'' then map_option (\<lambda>(v, ys). (u\<lparr>us_id := v\<rparr>, ys)) (mpReadUint xs)
      else if key = ascii ''score'' then map_option (\<lambda>(v, ys). (u\<lparr>us_score := v\<rparr>, ys)) (mpReadScore xs)
      else if key = ascii ''active'' then map_option (\<lambda>(v, ys). (u\<lparr>us_active := v\<rparr>, ys)) (mpReadActive xs)
      else if key = ascii ''tags'' then map_option (\<lambda>(v, ys). (u\<lparr>us_tags := v\<rparr>, ys)) (mpReadTags xs)
      else if key = ascii ''name'' then map_option (\<lambda>(v, ys). (u\<lparr>us_name := v\<rparr>, ys)) (mpReadStr xs)
      else if key = ascii ''email'' then map_option (\<lambda>(v, ys). (u\<lparr>us_email := v\<rparr>, ys)) (mpReadStr xs)
      else map_option (\<lambda>ys. (u, ys)) (mpSkip 1 xs))"

primrec mpFields :: "nat \<Rightarrow> bytes \<Rightarrow> User \<Rightarrow> User option" where
  "mpFields 0 xs u = Some u"
| "mpFields (Suc n) xs u =
     (case mpReadStr xs of
        None \<Rightarrow> None
      | Some (key, ys) \<Rightarrow> (case mpField key ys u of None \<Rightarrow> None | Some (u1, zs) \<Rightarrow> mpFields n zs u1))"

definition mpDecode :: "bytes \<Rightarrow> User \<Rightarrow> User option" where
  "mpDecode inp u = (if inp = [] \<or> hd inp \<noteq> 0x86 then None else mpFields 6 (tl inp) u)"

subsection \<open>Round trip\<close>

lemma str_markers:
  "list_all (\<lambda>n. (ucast (0xA0 OR of_nat n :: 64 word) :: byte) AND 0xE0 = 0xA0
     \<and> unat ((ucast (0xA0 OR of_nat n :: 64 word) :: byte) AND 0x1F) = n) [0..<32]"
  by code_simp

lemma mpReadStr_put: "length s \<le> 31 \<Longrightarrow> mpReadStr (mpPutStr s @ rest) = Some (s, rest)"
  using str_markers by (simp add: mpPutStr_def list_all_iff Let_def)

lemma foldl_big_endian:
  fixes v w :: "64 word"
  shows "foldl (\<lambda>w b. push_bit 8 w OR ucast b) w (map (\<lambda>i. ucast (drop_bit (8 * i) v AND 0xFF) :: byte) (rev [0..<n]))
    = push_bit (8 * n) w OR take_bit (8 * n) v"
proof (induction n arbitrary: w)
  case (Suc n)
  have u: "ucast (ucast (drop_bit (8 * n) v AND 0xFF) :: byte) = take_bit 8 (drop_bit (8 * n) v)"
    by (rule bit_word_eqI) (auto simp: bit_simps and_0xFF)
  have "push_bit (8 * n) (push_bit 8 w OR take_bit 8 (drop_bit (8 * n) v)) OR take_bit (8 * n) v
      = push_bit (8 * Suc n) w OR take_bit (8 * Suc n) v"
  proof (rule bit_word_eqI)
    fix k
    assume "k < LENGTH(64)"
    then show "bit (push_bit (8 * n) (push_bit 8 w OR take_bit 8 (drop_bit (8 * n) v)) OR take_bit (8 * n) v) k
        = bit (push_bit (8 * Suc n) w OR take_bit (8 * Suc n) v) k"
      by (cases "8 * n \<le> k"; cases "8 * n + 8 \<le> k") (auto simp: bit_simps add.commute [of 8])
  qed
  with Suc.IH show ?case by (simp add: u)
qed simp

lemma mpReadUint_put: "mpReadUint (mpPutUint v @ rest) = Some (v, rest)"
proof (cases "v < 128")
  case True
  then have "(ucast v :: byte) \<le> 0x7F" using small_word_byte(2) [of v] small_word_uint [of v] by (simp add: word_le_def)
  moreover have "ucast (ucast v :: byte) = v" using True by (intro small_word_byte) simp_all
  ultimately show ?thesis using True by (simp add: mpPutUint_def)
next
  case False
  have "[7, 6, 5, 4, 3, 2, 1, 0] = rev [0..<8]" by (simp add: upt_rec)
  moreover have "take_bit 64 v = v" by (rule bit_word_eqI) (simp add: bit_simps)
  ultimately show ?thesis using False foldl_big_endian [of 0 v 8]
    by (simp add: mpPutUint_def del: upt_Suc)
qed

lemma mpReadScore_put:
  assumes "- 128 \<le> sint score" and "sint score < 128"
  shows "mpReadScore (mpPutScore score @ rest) = Some (score, rest)"
proof -
  let ?b = "ucast score :: byte"
  have "signed_take_bit 7 (sint score) = sint score" by (intro signed_take_bit_int_eq_self) (use assms in simp_all)
  then have m: "bit (sint score) k = bit (sint score) (min 7 k)" for k by (metis bit_signed_take_bit_iff possible_bit_int)
  have s: "bit score k = bit score (min 7 k)" if "k < 32" for k
    using m [of k] that by (auto simp: bit_sint_iff)
  show ?thesis
  proof (cases "?b < 128")
    case True
    have "\<not> bit score 7" using small_word_bit [OF True, of 7] by (auto simp: bit_simps)
    then have "k < 7" if "bit score k" "k < 32" for k using s [OF that(2)] that(1) by (auto simp: min_def split: if_splits)
    then have "ucast ?b = score" by (intro bit_word_eqI) (auto simp: bit_simps intro: less_trans [of _ 7])
    moreover have "?b \<le> 0x7F" using small_word_uint [OF True] by (simp add: word_le_def)
    ultimately show ?thesis using True by (simp add: mpPutScore_def)
  next
    case False
    have "scast ?b = score"
    proof (rule bit_word_eqI)
      fix k
      assume k: "k < LENGTH(32)"
      have "bit (scast ?b :: 32 word) k = bit ?b (min 7 k)" using k by (simp add: bit_signed_iff)
      also have "\<dots> = bit score (min 7 k)" by (simp add: bit_unsigned_iff min_def)
      finally show "bit (scast ?b :: 32 word) k = bit score k" using s [of k] k by simp
    qed
    moreover have "\<not> (0xD0 :: byte) \<le> 0x7F" by simp
    ultimately show ?thesis using False by (auto simp: mpPutScore_def not_less)
  qed
qed

lemma mpTags_put:
  "list_all (\<lambda>t. t < 128) ts \<Longrightarrow> mpTags (length ts) (map ucast ts @ rest) = Some (ts, rest)"
proof (induction ts)
  case (Cons t ts)
  then have "\<not> (ucast t :: byte) > 0x7F" "ucast (ucast t :: byte) = t"
    using small_word_byte [of t] small_word_uint [of t] by (simp_all add: word_less_def)
  with Cons show ?case by simp
qed simp

lemma mpFields_step:
  assumes "length key \<le> 31" and "mpField key xs u = Some (u1, ys)"
  shows "mpFields (Suc n) (mpPutStr key @ xs) u = mpFields n ys u1"
  using assms by (simp add: mpReadStr_put)

text \<open>The MessagePack subset gives back the records it is made for: four tags below 128, a score that
  fits eight bits and strings of at most 31 bytes; the identifier is any 64-bit number.\<close>

lemma msgpack_roundtrip:
  assumes "length (us_tags u) = 4" and "list_all (\<lambda>t. t < 128) (us_tags u)"
    and "- 128 \<le> sint (us_score u)" and "sint (us_score u) < 128"
    and "length (us_name u) \<le> 31" and "length (us_email u) \<le> 31"
  shows "mpDecode (mpEncode u @ rest) v = Some u"
proof -
  have t: "mpReadTags (0x94 # map ucast (us_tags u) @ xs) = Some (us_tags u, xs)" for xs
    using mpTags_put [OF assms(2), of xs] assms(1) by simp
  note f = mpReadUint_put mpReadScore_put [OF assms(3,4)] mpReadStr_put [OF assms(5)] mpReadStr_put [OF assms(6)] t
  have six: "mpFields 6 xs v = mpFields (Suc (Suc (Suc (Suc (Suc (Suc 0)))))) xs v" for xs
    by (simp only: eval_nat_numeral BitM.simps)
  have "mpDecode (mpEncode u @ rest) v = mpFields 6 (tl (mpEncode u @ rest)) v"
    by (simp add: mpDecode_def mpEncode_def)
  also have "\<dots> = Some (v\<lparr>us_id := us_id u, us_score := us_score u, us_active := us_active u, us_tags := us_tags u,
      us_name := us_name u, us_email := us_email u\<rparr>)"
    unfolding mpEncode_def six
    by (simp add: mpFields_step mpField_def f del: mpFields.simps(2) mpReadUint.simps mpReadScore.simps mpReadTags.simps
        mpReadStr.simps)
  finally show ?thesis by simp
qed

definition mp_supports :: "User \<Rightarrow> bool" where
  "mp_supports u \<longleftrightarrow>
     length (us_tags u) = 4 \<and> list_all (\<lambda>t. t < 128) (us_tags u)
     \<and> - 128 \<le> sint (us_score u) \<and> sint (us_score u) < 128
     \<and> length (us_name u) \<le> 31 \<and> length (us_email u) \<le> 31"

interpretation msgpack: record_codec mpEncode mpDecode mp_supports
  using msgpack_roundtrip [where rest = "[]"] by unfold_locales (simp add: mp_supports_def)

end
