(* ===== verification/Bench_Protobuf.thy ===== *)
theory Bench_Protobuf
  imports Bench_Codecs
begin

unbundle bit_operations_syntax

section \<open>The protobuf wire format of the benchmark\<close>

text \<open>
  The third hand-written format of \<open>bench/serialization_bench.cpp\<close>. The decoder keeps a \<open>size_t\<close>
  position in the input, and its sums wrap around at \<open>2\<^sup>6\<^sup>4\<close>; positions are kept as numbers below
  that with the reduction written out. Its loop need not end, so it is a partial function whose value
  \<^const>\<open>None\<close> stands for not returning.
\<close>

subsection \<open>Varints\<close>

function pbVarint :: "64 word \<Rightarrow> bytes" where
  "pbVarint v =
     (if 0x80 \<le> v then ucast ((v AND 0x7F) OR 0x80) # pbVarint (drop_bit 7 v) else [ucast v])"
  by pat_completeness auto
termination
proof (relation "measure unat")
  fix v :: "64 word"
  assume "0x80 \<le> v"
  then have "0 < unat v" by (simp add: word_le_nat_alt)
  then show "(drop_bit 7 v, v) \<in> measure unat"
    by (simp add: drop_bit_eq_div unat_div_distrib)
qed simp

declare pbVarint.simps [simp del]

text \<open>The value and the rest of the input, or why there is none: the input ends, or it goes on after
  ten bytes.\<close>

datatype varint_error = Truncated | TooLong

function pbReadVarint_loop :: "bytes \<Rightarrow> nat \<Rightarrow> 64 word \<Rightarrow> varint_error + 64 word \<times> bytes" where
  "pbReadVarint_loop xs shift v =
     (if 63 < shift then Inl TooLong
      else case xs of
        [] \<Rightarrow> Inl Truncated
      | b # ys \<Rightarrow>
          (let v1 = v OR push_bit shift (ucast (b AND 0x7F))
           in if b AND 0x80 = 0 then Inr (v1, ys) else pbReadVarint_loop ys (shift + 7) v1))"
  by pat_completeness auto
termination
  by (relation "measure (\<lambda>(xs, shift, v). length xs)") auto

declare pbReadVarint_loop.simps [simp del]

definition pbReadVarint :: "bytes \<Rightarrow> varint_error + 64 word \<times> bytes" where
  "pbReadVarint xs = pbReadVarint_loop xs 0 0"

lemma pbReadVarint_loop_shorter: "pbReadVarint_loop xs shift v = Inr (w, ys) \<Longrightarrow> length ys < length xs"
proof (induction xs arbitrary: shift v)
  case Nil
  then show ?case by (subst (asm) pbReadVarint_loop.simps) (simp split: if_splits)
next
  case (Cons b xs)
  from Cons.prems show ?case
    by (subst (asm) pbReadVarint_loop.simps) (auto simp: Let_def dest!: Cons.IH split: if_splits)
qed

lemma pbReadVarint_shorter: "pbReadVarint xs = Inr (w, ys) \<Longrightarrow> length ys < length xs"
  by (simp add: pbReadVarint_def pbReadVarint_loop_shorter)

subsection \<open>Encoding\<close>

definition pbTag :: "64 word \<Rightarrow> 64 word \<Rightarrow> bytes" where
  "pbTag field wireType = pbVarint (push_bit 3 field OR wireType)"

definition pbString :: "64 word \<Rightarrow> bytes \<Rightarrow> bytes" where
  "pbString field s = pbTag field 2 @ pbVarint (of_nat (length s)) @ s"

definition pbPacked :: "32 word list \<Rightarrow> bytes" where
  "pbPacked tags = concat (map (\<lambda>tag. pbVarint (ucast tag)) tags)"

definition pbEncode :: "User \<Rightarrow> bytes" where
  "pbEncode u =
     pbTag 1 0 @ pbVarint (us_id u) @ pbString 2 (us_name u) @ pbString 3 (us_email u)
     @ pbTag 4 0 @ pbVarint (if us_active u then 1 else 0) @ pbTag 5 0 @ pbVarint (ucast (us_score u))
     @ pbTag 6 2 @ pbVarint (of_nat (length (pbPacked (us_tags u)))) @ pbPacked (us_tags u)"

subsection \<open>Decoding\<close>

text \<open>How a call ends: it returns, it throws because a string would be longer than a string can be, or
  it reads behind the input.\<close>

datatype pb_result = PbTrue User | PbFalse | PbThrow | PbOverread

function pbTags :: "bytes \<Rightarrow> 32 word list \<Rightarrow> varint_error + 32 word list" where
  "pbTags bs tags =
     (if bs = [] then Inr tags
      else case pbReadVarint bs of
        Inl e \<Rightarrow> Inl e
      | Inr (v, rest) \<Rightarrow> pbTags rest (tags @ [ucast v]))"
  by pat_completeness auto
termination
  by (relation "measure (\<lambda>(bs, tags). length bs)") (auto simp: pbReadVarint_shorter)

declare pbTags.simps [simp del]

definition pbSetInt :: "32 word \<Rightarrow> 64 word \<Rightarrow> User \<Rightarrow> User" where
  "pbSetInt field v u =
     (if field = 1 then u\<lparr>us_id := v\<rparr>
      else if field = 4 then u\<lparr>us_active := v \<noteq> 0\<rparr>
      else if field = 5 then u\<lparr>us_score := ucast v\<rparr>
      else u)"

definition pbSetBytes :: "32 word \<Rightarrow> bytes \<Rightarrow> User \<Rightarrow> pb_result + User" where
  "pbSetBytes field bs u =
     (if field = 2 then Inr (u\<lparr>us_name := bs\<rparr>)
      else if field = 3 then Inr (u\<lparr>us_email := bs\<rparr>)
      else if field = 6 then (case pbTags bs [] of Inl e \<Rightarrow> Inl PbFalse | Inr tags \<Rightarrow> Inr (u\<lparr>us_tags := tags\<rparr>))
      else Inr u)"

text \<open>The same statements when the length makes the position wrap around: the view is longer than any
  string may be, and goes on behind the input.\<close>

definition pbSetHuge :: "32 word \<Rightarrow> bytes \<Rightarrow> User \<Rightarrow> pb_result + User" where
  "pbSetHuge field bs u =
     (if field = 2 \<or> field = 3 then Inl PbThrow
      else if field = 6 then (case pbTags bs [] of Inl TooLong \<Rightarrow> Inl PbFalse | _ \<Rightarrow> Inl PbOverread)
      else Inr u)"

partial_function (option) pbDecode_loop :: "bytes \<Rightarrow> nat \<Rightarrow> User \<Rightarrow> pb_result option" where
  "pbDecode_loop inp p u =
     (if p < length inp then
        (case pbReadVarint (drop p inp) of
           Inl e \<Rightarrow> Some PbFalse
         | Inr (key, r1) \<Rightarrow>
             (let field = ucast (drop_bit 3 key) :: 32 word;
                  wire = key AND 0x7;
                  p1 = length inp - length r1
              in if wire = 0 then
                   (case pbReadVarint r1 of
                      Inl e \<Rightarrow> Some PbFalse
                    | Inr (v, r2) \<Rightarrow> pbDecode_loop inp (length inp - length r2) (pbSetInt field v u))
                 else if wire = 2 then
                   (case pbReadVarint r1 of
                      Inl e \<Rightarrow> Some PbFalse
                    | Inr (len, r2) \<Rightarrow>
                        (let p2 = length inp - length r2;
                             p3 = (p2 + unat len) mod 2 ^ 64
                         in if length inp < p3 then Some PbFalse
                            else
                              (case (if unat len \<le> length r2 then pbSetBytes field (take (unat len) r2) u
                                     else pbSetHuge field r2 u) of
                                 Inl r \<Rightarrow> Some r
                               | Inr u1 \<Rightarrow> pbDecode_loop inp p3 u1)))
                 else if wire = 5 then pbDecode_loop inp (p1 + 4) u
                 else if wire = 1 then pbDecode_loop inp (p1 + 8) u
                 else Some PbFalse))
      else Some (PbTrue u))"

definition pbDecode :: "bytes \<Rightarrow> User \<Rightarrow> pb_result option" where
  "pbDecode inp u = pbDecode_loop inp 0 u"

subsection \<open>Round trip\<close>

lemma pbVarint_last: "v < 0x80 \<Longrightarrow> pbVarint v = [ucast v]"
  by (subst pbVarint.simps) (auto simp: not_le)

lemma pbVarint_more: "0x80 \<le> v \<Longrightarrow> pbVarint v = ucast ((v AND 0x7F) OR 0x80) # pbVarint (drop_bit 7 v)"
  by (subst pbVarint.simps) simp

lemma bit_0x7F: "bit (0x7F :: int) n \<longleftrightarrow> n < 7" and bit_0x80: "bit (0x80 :: int) n \<longleftrightarrow> n = 7"
proof -
  have "(0x7F :: int) = mask 7" "(0x80 :: int) = 2 ^ 7" by (simp_all add: mask_eq_exp_minus_1)
  then show "bit (0x7F :: int) n \<longleftrightarrow> n < 7" "bit (0x80 :: int) n \<longleftrightarrow> n = 7"
    by (auto simp only: bit_mask_iff bit_exp_iff possible_bit_int)
qed

lemma varint_bytes:
  fixes v :: "64 word"
  shows "ucast ((ucast ((v AND 0x7F) OR 0x80) :: byte) AND 0x7F) = v AND 0x7F"
    and "(ucast ((v AND 0x7F) OR 0x80) :: byte) AND 0x80 \<noteq> 0"
    and "v < 0x80 \<Longrightarrow> ucast ((ucast v :: byte) AND 0x7F) = v"
    and "v < 0x80 \<Longrightarrow> (ucast v :: byte) AND 0x80 = 0"
proof -
  show "ucast ((ucast ((v AND 0x7F) OR 0x80) :: byte) AND 0x7F) = v AND 0x7F"
    by (rule bit_word_eqI) (auto simp: bit_simps bit_0x7F bit_0x80)
  have "bit ((ucast ((v AND 0x7F) OR 0x80) :: byte) AND 0x80) 7" by (simp add: bit_simps bit_0x7F bit_0x80)
  then show "(ucast ((v AND 0x7F) OR 0x80) :: byte) AND 0x80 \<noteq> 0" by auto
  assume v: "v < 0x80"
  note h = small_word_bit [OF v]
  show "ucast ((ucast v :: byte) AND 0x7F) = v"
    by (rule bit_word_eqI) (auto simp: bit_simps bit_0x7F dest: h intro: less_trans [of _ 7])
  show "(ucast v :: byte) AND 0x80 = 0"
    by (rule bit_word_eqI) (auto simp: bit_simps bit_0x80 dest: h)
qed

lemma pbReadVarint_loop_varint:
  assumes "shift \<le> 63" and "unat v < 2 ^ (64 - shift)"
  shows "pbReadVarint_loop (pbVarint v @ rest) shift w = Inr (w OR push_bit shift v, rest)"
  using assms
proof (induction v arbitrary: shift w rule: pbVarint.induct)
  case (1 v)
  show ?case
  proof (cases "0x80 \<le> v")
    case False
    then show ?thesis using 1(2) varint_bytes(3,4) [of v]
      by (subst pbReadVarint_loop.simps) (simp add: pbVarint_last not_le)
  next
    case True
    have "128 \<le> unat v" using True by (simp add: word_le_nat_alt)
    with 1(3) have "2 ^ 7 < (2 :: nat) ^ (64 - shift)" by simp
    then have "7 < 64 - shift" by (simp only: power_strict_increasing_iff)
    then have s: "shift + 7 \<le> 63" and e: "64 - shift = 7 + (64 - (shift + 7))" by simp_all
    have "unat v < 2 ^ 7 * 2 ^ (64 - (shift + 7))" using 1(3) by (simp only: e power_add)
    then have u: "unat (drop_bit 7 v) < 2 ^ (64 - (shift + 7))"
      by (simp add: drop_bit_eq_div unat_div_distrib less_mult_imp_div_less mult.commute)
    have "(w OR push_bit shift (v AND 0x7F)) OR push_bit (shift + 7) (drop_bit 7 v) = w OR push_bit shift v"
    proof (rule bit_word_eqI)
      fix n
      assume n: "n < LENGTH(64)"
      show "bit ((w OR push_bit shift (v AND 0x7F)) OR push_bit (shift + 7) (drop_bit 7 v)) n = bit (w OR push_bit shift v) n"
      proof (cases "shift + 7 \<le> n")
        case True
        then have "7 + (n - (shift + 7)) = n - shift" by simp
        with True n show ?thesis by (auto simp: bit_simps bit_0x7F)
      qed (use n in \<open>auto simp: bit_simps bit_0x7F\<close>)
    qed
    with 1(1) [OF True s u] 1(2) True varint_bytes(1,2) [of v] show ?thesis
      by (subst pbReadVarint_loop.simps) (simp add: pbVarint_more Let_def)
  qed
qed

lemma pbReadVarint_varint: "pbReadVarint (pbVarint v @ rest) = Inr (v, rest)"
  using pbReadVarint_loop_varint [of 0 v rest 0] unsigned_less [of v] by (simp add: pbReadVarint_def)

lemma pbTags_packed: "pbTags (pbPacked ts) tags = Inr (tags @ ts)"
proof (induction ts arbitrary: tags)
  case Nil
  show ?case by (subst pbTags.simps) (simp add: pbPacked_def)
next
  case (Cons t ts)
  have "pbPacked (t # ts) = pbVarint (ucast t) @ pbPacked ts" by (simp add: pbPacked_def)
  moreover have "pbVarint v \<noteq> []" for v by (subst pbVarint.simps) simp
  moreover have "ucast (ucast t :: 64 word) = t" by (rule bit_word_eqI) (simp add: bit_simps)
  ultimately show ?case using Cons.IH by (subst pbTags.simps) (simp add: pbReadVarint_varint)
qed

lemma pbVarint_nonempty [simp]: "pbVarint v \<noteq> []"
  by (subst pbVarint.simps) simp

definition key_ok :: "64 word \<Rightarrow> 64 word \<Rightarrow> bool" where
  "key_ok f w \<longleftrightarrow> drop_bit 3 (push_bit 3 f OR w) = f \<and> (push_bit 3 f OR w) AND 0x7 = w"

lemma pbDecode_int:
  assumes "inp = pre @ pbTag f 0 @ pbVarint v @ post" and "key_ok f 0"
  shows "pbDecode_loop inp (length pre) u
    = pbDecode_loop inp (length (pre @ pbTag f 0 @ pbVarint v)) (pbSetInt (ucast f) v u)"
proof -
  have "length pre < length inp" "drop (length pre) inp = pbVarint (push_bit 3 f OR 0) @ pbVarint v @ post"
    "length inp - length post = length (pre @ pbTag f 0 @ pbVarint v)"
    using assms(1) by (simp_all add: pbTag_def)
  with assms(2) show ?thesis
    by (subst pbDecode_loop.simps) (simp add: pbReadVarint_varint key_ok_def)
qed

lemma pbDecode_bytes:
  assumes "inp = pre @ pbTag f 2 @ pbVarint (of_nat (length s)) @ s @ post" and "key_ok f 2"
    and "length inp < 2 ^ 64" and "pbSetBytes (ucast f) s u = Inr u'"
  shows "pbDecode_loop inp (length pre) u
    = pbDecode_loop inp (length (pre @ pbTag f 2 @ pbVarint (of_nat (length s)) @ s)) u'"
proof -
  have l: "length inp - length (s @ post) = length (pre @ pbTag f 2 @ pbVarint (of_nat (length s)))"
    "length pre < length inp" "drop (length pre) inp = pbVarint (push_bit 3 f OR 2) @ pbVarint (of_nat (length s)) @ s @ post"
    using assms(1) by (simp_all add: pbTag_def)
  have len: "unat (of_nat (length s) :: 64 word) = length s" using assms(1,3) by (simp add: unat_of_nat)
  have e: "(length (pre @ pbTag f 2 @ pbVarint (of_nat (length s))) + length s) mod 2 ^ 64
      = length (pre @ pbTag f 2 @ pbVarint (of_nat (length s)) @ s)"
    "length (pre @ pbTag f 2 @ pbVarint (of_nat (length s)) @ s) \<le> length inp"
    using assms(1,3) by simp_all
  have c: "length s \<le> length (s @ post)" by simp
  show ?thesis
    using assms(2,4) l len e c
    by (subst pbDecode_loop.simps) (simp add: pbReadVarint_varint key_ok_def Let_def del: length_append)
qed

lemma pbDecode_end: "pbDecode_loop inp (length inp) u = Some (PbTrue u)"
  by (subst pbDecode_loop.simps) simp

text \<open>The protobuf format gives back every record. Whatever the decoder's target held before, decoding
  the text of a record returns, succeeds and stores the record; only the whole text must fit into memory.\<close>

lemma protobuf_roundtrip:
  assumes "length (pbEncode u) < 2 ^ 64"
  shows "pbDecode (pbEncode u) v = Some (PbTrue u)"
proof -
  let ?i = "pbEncode u"
  let ?a = "pbTag 1 0 @ pbVarint (us_id u)"
  let ?b = "?a @ pbString 2 (us_name u)"
  let ?c = "?b @ pbString 3 (us_email u)"
  let ?d = "?c @ pbTag 4 0 @ pbVarint (if us_active u then 1 else 0)"
  let ?e = "?d @ pbTag 5 0 @ pbVarint (ucast (us_score u))"
  have k: "key_ok 1 0" "key_ok 2 2" "key_ok 3 2" "key_ok 4 0" "key_ok 5 0" "key_ok 6 2" by (simp_all add: key_ok_def)
  have s: "ucast (ucast (us_score u) :: 64 word) = us_score u" by (rule bit_word_eqI) (simp add: bit_simps)
  note defs = pbEncode_def pbString_def pbSetBytes_def
  have "pbDecode ?i v = pbDecode_loop ?i (length ?a) (v\<lparr>us_id := us_id u\<rparr>)"
    using pbDecode_int [of ?i "[]" 1, OF _ k(1)] by (simp add: pbDecode_def pbEncode_def pbSetInt_def)
  also have "\<dots> = pbDecode_loop ?i (length ?b) (v\<lparr>us_id := us_id u, us_name := us_name u\<rparr>)"
    using pbDecode_bytes [of ?i ?a 2 "us_name u", OF _ k(2) assms] by (simp add: defs)
  also have "\<dots> = pbDecode_loop ?i (length ?c) (v\<lparr>us_id := us_id u, us_name := us_name u, us_email := us_email u\<rparr>)"
    using pbDecode_bytes [of ?i ?b 3 "us_email u", OF _ k(3) assms] by (simp add: defs)
  also have "\<dots> = pbDecode_loop ?i (length ?d) (v\<lparr>us_id := us_id u, us_name := us_name u, us_email := us_email u,
      us_active := us_active u\<rparr>)"
    using pbDecode_int [of ?i ?c 4 "if us_active u then 1 else 0", OF _ k(4)] by (simp add: pbEncode_def pbSetInt_def)
  also have "\<dots> = pbDecode_loop ?i (length ?e) (v\<lparr>us_id := us_id u, us_name := us_name u, us_email := us_email u,
      us_active := us_active u, us_score := us_score u\<rparr>)"
    using pbDecode_int [of ?i ?d 5 "ucast (us_score u)", OF _ k(5)] by (simp add: pbEncode_def pbSetInt_def s)
  also have "\<dots> = pbDecode_loop ?i (length ?i) (v\<lparr>us_id := us_id u, us_name := us_name u, us_email := us_email u,
      us_active := us_active u, us_score := us_score u, us_tags := us_tags u\<rparr>)"
    using pbDecode_bytes [of ?i ?e 6 "pbPacked (us_tags u)", OF _ k(6) assms] by (simp add: defs pbTags_packed)
  finally show ?thesis by (simp add: pbDecode_end)
qed

definition pb_supports :: "User \<Rightarrow> bool" where
  "pb_supports u \<longleftrightarrow> length (pbEncode u) < 2 ^ 64"

text \<open>What a caller that only looks at the returned \<open>bool\<close> sees.\<close>

definition pbDecode_bool :: "bytes \<Rightarrow> User \<Rightarrow> User option" where
  "pbDecode_bool inp u = (case pbDecode inp u of Some (PbTrue u1) \<Rightarrow> Some u1 | _ \<Rightarrow> None)"

interpretation protobuf: record_codec pbEncode pbDecode_bool pb_supports
  by unfold_locales (simp add: pb_supports_def pbDecode_bool_def protobuf_roundtrip)

definition endless_input :: bytes where
  "endless_input = pbTag 7 2 @ pbVarint (- 11)"

lemma endless_input_parts:
  "length endless_input = 11" "pbReadVarint endless_input = Inr (0x3A, pbVarint (- 11))"
  "pbReadVarint (pbVarint (- 11)) = Inr (- 11, [])"
proof -
  show "pbReadVarint endless_input = Inr (0x3A, pbVarint (- 11))"
    using pbReadVarint_varint [of "0x3A" "pbVarint (- 11)"] by (simp add: endless_input_def pbTag_def)
  show "pbReadVarint (pbVarint (- 11)) = Inr (- 11, [])"
    using pbReadVarint_varint [of "- 11" "[]"] by simp
  have "length (pbVarint (- 11)) = 10" by (simp add: pbVarint_more pbVarint_last)
  then show "length endless_input = 11" by (simp add: endless_input_def pbTag_def pbVarint_last)
qed

text \<open>C39: eleven bytes keep the decoder busy for ever. They are a key of a field the decoder does not know
  and a length that wraps its position around to the beginning: the check of the length passes, and the
  loop starts over. \<^const>\<open>None\<close> is the value of a call that does not return.\<close>

theorem protobuf_decode_hangs: "pbDecode endless_input u = None"
proof -
  have "inp = endless_input \<longrightarrow> p \<noteq> 0" if "pbDecode_loop inp p v = Some y" for inp p v y
  proof (rule pbDecode_loop.raw_induct [where P = "\<lambda>inp p v y. inp = endless_input \<longrightarrow> p \<noteq> 0", OF _ that], goal_cases)
    case (1 f inp p v y)
    show ?case
    proof (intro impI notI)
      assume "inp = endless_input" "p = 0"
      with 1(2) 1(1) [of endless_input 0 v y] show False
        by (simp add: endless_input_parts Let_def pbSetHuge_def)
    qed
  qed
  then show ?thesis unfolding pbDecode_def by (metis not_None_eq)
qed

end
