(* ===== verification/Bench_Main.thy ===== *)
theory Bench_Main
  imports Http_Request Bench_Json Bench_Msgpack Bench_Protobuf
begin

section \<open>The benchmark program\<close>

text \<open>
  The checksums, the comparison and \<open>main\<close> of \<open>bench/serialization_bench.cpp\<close>. The program checks the
  round trip of each codec, times it and prints a table. The times are not modelled; a run is its exit
  code, the rest of the table and the checksum printed below it. \<^const>\<open>None\<close> in place of the code is an
  argument \<open>atoi\<close> has no defined result for.
\<close>

subsection \<open>Checksums\<close>

definition rawChecksum :: "User \<Rightarrow> 64 word" where
  "rawChecksum u =
     foldl (\<lambda>sum tag. sum + scast tag)
       (us_id u + scast (us_score u) + (if us_active u then 1 else 0)
        + of_nat (length (us_name u)) + of_nat (length (us_email u))) (us_tags u)"

definition flatChecksum :: "FlatView \<Rightarrow> 64 word" where
  "flatChecksum v =
     foldl (\<lambda>sum i. sum + scast (getLE 4 (drop (i * 4) (fv_tagsBytes v)) :: 32 word))
       (fv_id v + scast (fv_score v) + (if fv_active v then 1 else 0)
        + of_nat (length (fv_name v)) + of_nat (length (fv_email v))) [0..<unat (fv_tagCount v)]"

definition sameUser :: "User \<Rightarrow> User \<Rightarrow> bool" where
  "sameUser a b \<longleftrightarrow>
     us_id a = us_id b \<and> us_score a = us_score b \<and> us_active a = us_active b
     \<and> us_tags a = us_tags b \<and> us_name a = us_name b \<and> us_email a = us_email b"

lemma sameUser_eq: "sameUser a b \<longleftrightarrow> a = b"
  by (auto simp: sameUser_def)

text \<open>The two checksums agree on a record and a view of it, so both loops of the benchmark do the same
  work.\<close>

lemma flatChecksum_sameUser:
  assumes "sameUser_flat v u"
  shows "flatChecksum v = rawChecksum u"
proof -
  from assms have f: "fv_id v = us_id u" "fv_score v = us_score u" "fv_active v = us_active u"
    "unat (fv_tagCount v) = length (us_tags u)" "fv_name v = us_name u" "fv_email v = us_email u"
    and t: "\<forall>i < length (us_tags u). getLE 4 (drop (i * 4) (fv_tagsBytes v)) = us_tags u ! i"
    by (auto simp: sameUser_flat_def list_all_iff split: if_splits)
  have "foldl (\<lambda>sum i. sum + scast (getLE 4 (drop (i * 4) (fv_tagsBytes v)) :: 32 word)) c [0..<length (us_tags u)]
      = foldl (\<lambda>sum i. sum + scast (us_tags u ! i)) c [0..<length (us_tags u)]" for c :: "64 word"
    using t by (intro foldl_cong) auto
  also have "\<dots> c = foldl (\<lambda>sum tag. sum + scast tag) c (map ((!) (us_tags u)) [0..<length (us_tags u)])" for c :: "64 word"
    by (simp add: foldl_map)
  finally show ?thesis unfolding flatChecksum_def rawChecksum_def f by (simp add: map_nth)
qed

subsection \<open>The program\<close>

definition atoi :: "bytes \<Rightarrow> int option" where
  "atoi s =
     (case stoi s of
        Inr n \<Rightarrow> Some n
      | Inl invalid_argument \<Rightarrow> Some 0
      | Inl out_of_range \<Rightarrow> None)"

fun bench_args :: "bytes list \<Rightarrow> int \<Rightarrow> int \<Rightarrow> nat option + int \<times> int" where
  "bench_args [] iterations repeat = Inr (iterations, repeat)"
| "bench_args (arg # args) iterations repeat =
     (if arg = ascii ''--iterations'' \<and> args \<noteq> [] then
        (case atoi (hd args) of None \<Rightarrow> Inl None | Some n \<Rightarrow> bench_args (tl args) n repeat)
      else if arg = ascii ''--repeat'' \<and> args \<noteq> [] then
        (case atoi (hd args) of None \<Rightarrow> Inl None | Some n \<Rightarrow> bench_args (tl args) iterations n)
      else Inl (Some 2))"

text \<open>What is left of the two loops that take the times: the bytes of one encoding, whether every call
  decoded, and the sum that ends up in \<open>gSink\<close>.\<close>

definition timeEncode :: "nat \<Rightarrow> nat \<Rightarrow> User \<Rightarrow> (User \<Rightarrow> bytes) \<Rightarrow> 64 word \<Rightarrow> nat \<times> 64 word" where
  "timeEncode iterations repeat u encode gSink =
     (length (encode u),
      fold (\<lambda>r sink. fold (\<lambda>i sum. sum + of_nat (length (encode u))) [0..<iterations] 0) [0..<repeat] gSink)"

primrec decode_times :: "'o option \<Rightarrow> ('o \<Rightarrow> 64 word) \<Rightarrow> nat \<Rightarrow> 64 word \<Rightarrow> 64 word option" where
  "decode_times decoded checksum 0 acc = Some acc"
| "decode_times decoded checksum (Suc n) acc =
     (case decoded of None \<Rightarrow> None | Some out \<Rightarrow> decode_times decoded checksum n (acc + checksum out))"

primrec timeDecode :: "nat \<Rightarrow> nat \<Rightarrow> 'o option \<Rightarrow> ('o \<Rightarrow> 64 word) \<Rightarrow> 64 word \<Rightarrow> bool \<times> 64 word" where
  "timeDecode iterations 0 decoded checksum gSink = (True, gSink)"
| "timeDecode iterations (Suc r) decoded checksum gSink =
     (case decode_times decoded checksum iterations 0 of
        None \<Rightarrow> (False, gSink)
      | Some acc \<Rightarrow> timeDecode iterations r decoded checksum acc)"

text \<open>A row is its name, whether the decoder was timed, and the size; a value-initialised target of the
  decoder holds the defaults of its type.\<close>

type_synonym BenchRow = "string \<times> bool \<times> nat"

definition bench_row ::
  "string \<Rightarrow> (User \<Rightarrow> bytes) \<Rightarrow> (bytes \<Rightarrow> 'o option) \<Rightarrow> ('o \<Rightarrow> User \<Rightarrow> bool) \<Rightarrow> ('o \<Rightarrow> 64 word) \<Rightarrow>
    nat \<Rightarrow> nat \<Rightarrow> 64 word \<Rightarrow> (BenchRow \<times> 64 word) option" where
  "bench_row name encode decode same checksum iterations repeat gSink =
     (let encoded = encode defaultUser
      in case decode encoded of
           None \<Rightarrow> None
         | Some decoded \<Rightarrow>
             if \<not> same decoded defaultUser then None
             else
               (let (size, gSink1) = timeEncode iterations repeat defaultUser encode gSink;
                    (timed, gSink2) = timeDecode iterations repeat (decode encoded) checksum gSink1
                in Some ((name, timed, size), gSink2)))"

definition emptyView :: FlatView where
  "emptyView =
     \<lparr>fv_id = 0, fv_score = 0, fv_active = False, fv_tagsBytes = [], fv_tagCount = 0, fv_name = [], fv_email = []\<rparr>"

primrec bench_blocks :: "(64 word \<Rightarrow> (BenchRow \<times> 64 word) option) list \<Rightarrow> 64 word \<Rightarrow> (BenchRow list \<times> 64 word) option" where
  "bench_blocks [] gSink = Some ([], gSink)"
| "bench_blocks (block # blocks) gSink =
     (case block gSink of
        None \<Rightarrow> None
      | Some (row, gSink1) \<Rightarrow>
          (case bench_blocks blocks gSink1 of None \<Rightarrow> None | Some (rows, gSink2) \<Rightarrow> Some (row # rows, gSink2)))"

definition bench_rows :: "nat \<Rightarrow> nat \<Rightarrow> (BenchRow list \<times> 64 word) option" where
  "bench_rows iterations repeat =
     bench_blocks
       [bench_row ''raw binary'' rawEncode (\<lambda>e. rawDecode e defaultUser) sameUser rawChecksum iterations repeat,
        bench_row ''json'' bench_jsonEncode (\<lambda>e. bench_jsonDecode e defaultUser) sameUser rawChecksum iterations repeat,
        bench_row ''msgpack'' mpEncode (\<lambda>e. mpDecode e defaultUser) sameUser rawChecksum iterations repeat,
        bench_row ''protobuf wire'' pbEncode (\<lambda>e. pbDecode_bool e defaultUser) sameUser rawChecksum iterations repeat,
        bench_row ''flatbuffers-style'' flatEncode (\<lambda>e. flatDecode e emptyView) sameUser_flat flatChecksum
          iterations repeat] 0"

definition bench_main :: "bytes list \<Rightarrow> nat option \<times> (BenchRow list \<times> 64 word) option" where
  "bench_main args =
     (case bench_args args 200000 5 of
        Inl code \<Rightarrow> (code, None)
      | Inr (iterations, repeat) \<Rightarrow>
          if iterations \<le> 0 \<or> repeat \<le> 0 then (Some 2, None)
          else
            (case bench_rows (nat iterations) (nat repeat) of
               None \<Rightarrow> (Some 1, None)
             | Some table \<Rightarrow> (Some 0, Some table)))"

lemma decode_times_Some: "decode_times (Some out) checksum n acc = Some (acc + of_nat n * checksum out)"
  by (induction n arbitrary: acc) (simp_all add: algebra_simps)

lemma timeDecode_Some:
  "timeDecode n r (Some out) checksum sink = (True, if r = 0 then sink else of_nat n * checksum out)"
  by (induction r arbitrary: sink) (simp_all add: decode_times_Some)

lemma bench_row_Some:
  assumes "decode (encode defaultUser) = Some out" and "same out defaultUser" and "0 < repeat"
  shows "bench_row name encode decode same checksum iterations repeat sink
    = Some ((name, True, length (encode defaultUser)), of_nat iterations * checksum out)"
  using assms by (simp add: bench_row_def timeEncode_def timeDecode_Some)

context record_codec
begin

lemma row_ok:
  "supports defaultUser \<Longrightarrow> 0 < repeat \<Longrightarrow>
     bench_row name encode (\<lambda>e. decode e defaultUser) sameUser rawChecksum iterations repeat sink
       = Some ((name, True, length (encode defaultUser)), of_nat iterations * rawChecksum defaultUser)"
  by (rule bench_row_Some) (simp_all add: gives_back sameUser_eq)

end

lemma defaultUser_supported:
  "raw_supports defaultUser" "json_supports defaultUser" "mp_supports defaultUser" "pb_supports defaultUser"
  "flat_supports defaultUser"
  by (simp_all add: raw_supports_def json_supports_def mp_supports_def pb_supports_def flat_supports_def defaultUser_def
      pbEncode_def pbTag_def pbString_def pbPacked_def pbVarint_last)

lemma encoded_sizes:
  "length (rawEncode defaultUser) = 60" "length (bench_jsonEncode defaultUser) = 94"
  "length (mpEncode defaultUser) = 65" "length (pbEncode defaultUser) = 38" "length (flatEncode defaultUser) = 62"
  subgoal by (simp add: rawEncode_def defaultUser_def)
  subgoal by (simp add: bench_jsonEncode_def key_text_def to_string_signed_def defaultUser_def dec_digits.simps)
  subgoal by (simp add: mpEncode_def mpPutStr_def mpPutUint_def mpPutScore_def defaultUser_def)
  subgoal by (simp add: pbEncode_def pbTag_def pbString_def pbPacked_def pbVarint_last defaultUser_def)
  subgoal by (subst flatEncode_layout) (simp_all add: defaultUser_def)
  done

lemma rawChecksum_default: "rawChecksum defaultUser = 162"
  by (simp add: rawChecksum_def defaultUser_def)

lemma bench_rows_ok:
  assumes "0 < repeat"
  shows "bench_rows iterations repeat =
     Some ([(''raw binary'', True, 60), (''json'', True, 94), (''msgpack'', True, 65), (''protobuf wire'', True, 38),
            (''flatbuffers-style'', True, 62)], of_nat iterations * 162)"
proof -
  obtain w where w: "flatDecode (flatEncode defaultUser) emptyView = Some w" "sameUser_flat w defaultUser"
    using flat_roundtrip [of defaultUser emptyView] defaultUser_supported(5) by (auto simp: flat_supports_def)
  have "bench_row ''flatbuffers-style'' flatEncode (\<lambda>e. flatDecode e emptyView) sameUser_flat flatChecksum iterations repeat sink
      = Some ((''flatbuffers-style'', True, 62), of_nat iterations * 162)" for sink
    using bench_row_Some [where encode = flatEncode and decode = "\<lambda>e. flatDecode e emptyView" and same = sameUser_flat, OF w assms]
    by (simp add: encoded_sizes flatChecksum_sameUser [OF w(2)] rawChecksum_default)
  then show ?thesis
    by (simp add: bench_rows_def defaultUser_supported encoded_sizes benchraw.row_ok bench_json.row_ok msgpack.row_ok
        protobuf.row_ok assms)
qed

lemma bench_args_code: "bench_args args iterations repeat \<noteq> Inl (Some 1)"
  by (induction args iterations repeat rule: bench_args.induct) (auto split: option.splits)

text \<open>Run with arguments that give positive numbers of iterations and repeats, the benchmark passes
  its own checks of all five formats, prints a row with a decoding time and the size for each, and the
  checksum it prints is the number of iterations times 162; it exits with 0. It never exits with 1.\<close>

theorem bench_main_passes:
  "fst (bench_main args) \<noteq> Some 1 \<and>
   (\<forall>iterations repeat. bench_args args 200000 5 = Inr (iterations, repeat) \<and> 0 < iterations \<and> 0 < repeat \<longrightarrow>
      bench_main args =
        (Some 0, Some ([(''raw binary'', True, 60), (''json'', True, 94), (''msgpack'', True, 65),
                        (''protobuf wire'', True, 38), (''flatbuffers-style'', True, 62)], of_int iterations * 162)))"
proof -
  have c: "of_nat (nat i) = (of_int i :: 64 word)" if "0 < i" for i using that by simp
  then show ?thesis
    using bench_args_code [of args 200000 5]
    by (auto simp: bench_main_def bench_rows_ok split: sum.splits prod.splits)
qed

theorem bench_main_passes_witness:
  "bench_main [ascii ''--iterations'', ascii ''10''] =
     (Some 0, Some ([(''raw binary'', True, 60), (''json'', True, 94), (''msgpack'', True, 65),
                     (''protobuf wire'', True, 38), (''flatbuffers-style'', True, 62)], 1620))"
proof -
  have "bench_args [ascii ''--iterations'', ascii ''10''] 200000 5 = Inr (10, 5)"
    by (simp add: atoi_def stoi_def isspace_def isDigit_def dec_value_def)
  then show ?thesis using bench_main_passes [of "[ascii ''--iterations'', ascii ''10'']"] by simp
qed

definition blankUser :: User where
  "blankUser = \<lparr>us_id = 0, us_score = 0, us_active = False, us_tags = [], us_name = [], us_email = []\<rparr>"

text \<open>C25: every format of the benchmark gives back every record it supports, whatever the target of the
  decoder held before. Raw: fewer than 256 tags and strings below \<open>2\<^sup>3\<^sup>2\<close> bytes. JSON: no quotation mark
  in the strings, no negative tag, an identifier below \<open>2\<^sup>6\<^sup>3\<close>. MessagePack: four tags below 128, a score
  of eight bits, strings of at most 31 bytes. Protobuf: a message below \<open>2\<^sup>6\<^sup>4\<close> bytes. FlatBuffers style,
  where the result is a view that agrees with the record in every field and in its checksum: at most
  four tags and 32-bit offsets.\<close>

theorem bench_codecs_roundtrip:
  "(raw_supports u \<longrightarrow> rawDecode (rawEncode u) v = Some u)
   \<and> (json_supports u \<longrightarrow> bench_jsonDecode (bench_jsonEncode u) v = Some u)
   \<and> (mp_supports u \<longrightarrow> mpDecode (mpEncode u) v = Some u)
   \<and> (pb_supports u \<longrightarrow> pbDecode (pbEncode u) v = Some (PbTrue u))
   \<and> (flat_supports u \<longrightarrow>
        (\<exists>w. flatDecode (flatEncode u) view = Some w \<and> sameUser_flat w u \<and> flatChecksum w = rawChecksum u))"
  using flatChecksum_sameUser flat_roundtrip [of u view] protobuf_roundtrip [of u v]
  by (auto simp: benchraw.gives_back bench_json.gives_back msgpack.gives_back flat_supports_def pb_supports_def)

theorem bench_codecs_roundtrip_witness:
  "rawDecode (rawEncode defaultUser) blankUser = Some defaultUser
   \<and> bench_jsonDecode (bench_jsonEncode defaultUser) blankUser = Some defaultUser
   \<and> mpDecode (mpEncode defaultUser) blankUser = Some defaultUser
   \<and> pbDecode (pbEncode defaultUser) blankUser = Some (PbTrue defaultUser)
   \<and> (\<exists>w. flatDecode (flatEncode defaultUser) emptyView = Some w \<and> sameUser_flat w defaultUser
        \<and> flatChecksum w = rawChecksum defaultUser)"
  using bench_codecs_roundtrip [of defaultUser blankUser emptyView] by (simp add: defaultUser_supported)

end
