(* ===== verification/Spec2Isabelle.thy ===== *)
theory Spec2Isabelle
  imports Loop_Lifetime Event_Loop_Thread Timer_Runs Socket Tcp_Client Tcp_Server Serializer Rfc_Protocol Http_Server
    Echo_Examples Bench_Main
begin

text \<open>
  ReactorNet is a C++ library for servers and clients in the reactor style, with an RPC layer on top of it.
  This development models the library, the RPC layer, the examples and the serialization benchmark, and
  proves what they promise. Paths are those of the repository.

  \<^bold>\<open>The parts and how they interact.\<close> An \<open>EventLoop\<close> waits in a poller for the channels that are ready, lets
  each \<open>Channel\<close> run the callbacks of its owner, and then runs the functors that other threads have queued; an
  \<open>EventLoopThread\<close> runs one in a thread, and a \<open>TimerQueue\<close> is one of the owners of channels. A \<open>TcpConnection\<close> owns
  a \<open>Socket\<close>, a channel and two \<open>Buffer\<close>s. Connections come from an \<open>Acceptor\<close> by way of a \<open>TcpServer\<close>, which
  distributes them over loops, or from a \<open>Connector\<close> by way of a \<open>TcpClient\<close>. The RPC layer sees a connection as a
  \<open>Transport\<close>: \<open>RpcServer\<close> and \<open>RpcClient\<close> cut its stream into frames with a \<open>FrameReader\<close>, decode envelopes with
  a \<open>Codec\<close>, route requests through a \<open>ServiceRegistry\<close> and leave payloads to a \<open>Serializer\<close>.

  \<^bold>\<open>Shape of the models.\<close> An object is a record of its members, an operation is a function from the state before
  to the state after. A pointer range or a position in an input is the list of the bytes from there on;
  integers are words of their width where they wrap around or are taken apart, numbers otherwise. An
  assertion that fails, an abort or a use of something that is not there is \<^const>\<open>None\<close>; an exception is
  a value of a sum. The operating system, the file system, memory addresses and the conversions between
  \<open>double\<close> and text are arguments of the definitions; what is assumed of them is a named predicate
  (\<open>readv_ok\<close>, \<open>write_ok\<close>, \<open>peer_alive\<close>, \<open>attempts_ok\<close>, \<open>malloc_ok\<close>, \<open>fs_ok\<close>, \<open>pton_ok\<close>, \<open>double_io\<close>), and each has an
  instance with which it holds. User code is an argument as well: a callback that may use the library again
  is a finite tree of the calls it makes. Threads are interleaved step by step.

  \<^bold>\<open>The reactor.\<close>
  \<^item> \<open>Channel\<close> (\<open>src/Channel.cpp\<close>, \<open>src/EPollPoller.cpp\<close>): event masks, registration, dispatch. What the kernel
    watches, read off the \<open>epoll_ctl\<close> calls, is at every moment what the channels ask for, and no call fails.
  \<^item> \<open>Event_Loop\<close> (\<open>src/EventLoop.cpp\<close>): the loop, its functor queue, \<open>quit\<close> and the wake-up, as steps that
    interleave with other threads. The loop does not sleep on a queued functor unless its own thread has queued it
    before \<open>loop()\<close>, runs functors once and in order, and gets to each of them. \<open>Loop_Lifetime\<close>: construction and destruction leave no descriptor and no
    registration behind.
  \<^item> \<open>Event_Loop_Thread\<close> (\<open>src/EventLoopThread.cpp\<close>): both threads with the mutex. The loop exists whenever it is
    used through the published pointer; the destructor ends if the loop is running, and never if it is not yet.
  \<^item> \<open>Std_Heap\<close>, \<open>Timer_Queue\<close>, \<open>Timer_Runs\<close> (\<open>src/Timer.cpp\<close>, \<open>src/TimerQueue.cpp\<close>): the binary heap of the standard
    library behind the locale \<open>heap_algorithms\<close>, the queue with callbacks that add and cancel timers, and its runs
    over time. No timer is slept through, an expiry runs what is due in order, a cancelled timer does not run.

  \<^bold>\<open>Connections.\<close>
  \<^item> \<open>Byte_Stream\<close>, \<open>Buffer\<close> (\<open>src/Buffer.cpp\<close>): the vector with two indices refines a queue of bytes, the locale
    \<open>byte_stream\<close>; the output side of a connection is its second instance.
  \<^item> \<open>Socket\<close>, \<open>Inet_Address\<close> (\<open>src/Socket.cpp\<close>, \<open>src/InetAddress.cpp\<close>): every descriptor has one owner and is closed
    once; addresses and their texts.
  \<^item> \<open>Transport\<close>, \<open>Tcp_Connection\<close>, \<open>Tcp_Lifecycle\<close> (\<open>src/TcpConnection.cpp\<close>): the locale \<open>transport\<close> and its
    implementation. What is sent goes to the wire in order, partial writes and calls from other threads
    included; states and callbacks follow the protocol; orderly shutdown flushes; which assertion can fail. One of
    the cases is an event that closes a connection twice (\<open>closes_twice\<close>): runs of connections, of clients and of
    servers are taken up to such an event.
  \<^item> \<open>Connector\<close>, \<open>Tcp_Client\<close> (\<open>src/Connector.cpp\<close>, \<open>src/TcpClient.cpp\<close>): a connect attempt with deadline, retry
    and cancellation accounts for every descriptor; a deadline that is cancelled may still fire, as in an expiry
    that had already collected it; a client releases its connection.
  \<^item> \<open>Tcp_Server\<close> (\<open>src/Acceptor.cpp\<close>, \<open>src/TcpServer.cpp\<close>): accepting with the reserve descriptor, and the table of
    connections, each of them a connection of \<open>Tcp_Connection\<close> with its own events, while the tasks of all loops
    interleave.

  \<^bold>\<open>The RPC layer.\<close>
  \<^item> \<open>Protocol\<close>, \<open>Frame_Reader\<close>, \<open>Codec\<close>, \<open>Service_Registry\<close> (\<open>rpc/src/protocol.cpp\<close>, \<open>frame_reader.cpp\<close>,
    \<open>raw_codec.cpp\<close>, \<open>service_registry.cpp\<close>): headers, frames and envelopes survive any cutting of the stream
    and decode to what was encoded, the reader bounds what it buffers, requests reach the method registered.
  \<^item> \<open>Json_Value\<close>, \<open>Json_Utf8\<close>, \<open>Charconv\<close>, \<open>Json_Writer\<close>, \<open>Json_Parser\<close>, \<open>Json_Roundtrip\<close>, \<open>Serializer\<close>: the payload
    values, the UTF-8 validator and its specification, numbers, the writer and the recursive-descent parser
    with their depth limit. What is written is read back; what is read can be written.
  \<^item> \<open>Rpc_Server\<close>, \<open>Rpc_Service\<close> (\<open>rpc/src/rpc_server.cpp\<close>): the message handler over an abstract transport and over
    TCP; every request is answered once and in order.
  \<^item> \<open>Rpc_Client\<close>, \<open>Rpc_Client_Runs\<close> (\<open>rpc/src/rpc_client.cpp\<close>): the table of calls with ids, deadlines and
    completions that start calls. Every call completes exactly once, with the response that carries its id,
    however the responses are cut into reads.
  \<^item> \<open>Rpc_Call\<close> puts client, connection and server together, and the property below is about all of them.
  \<^item> \<open>Rfc_Protocol\<close> states what \<open>docs/rfc/0001-rpc-protocol.md\<close> demands of a server for a frame. The server does it,
    except in four points; the reference vectors of the document are what the code sends.

  \<^bold>\<open>Programs.\<close>
  \<^item> \<open>Ordered_Map\<close>, \<open>Http_Request\<close>, \<open>Http_Server\<close> (\<open>src/HttpRequest.cpp\<close>, \<open>src/HttpResponse.cpp\<close>,
    \<open>example/http_server.cpp\<close>): requests, responses and the file server.
  \<^item> \<open>Echo_Examples\<close> (\<open>example/echo_server.cpp\<close>, \<open>rpc_echo_server.cpp\<close>, \<open>rpc_echo_client.cpp\<close>).
  \<^item> \<open>Bench_Codecs\<close>, \<open>Bench_Json\<close>, \<open>Bench_Msgpack\<close>, \<open>Bench_Protobuf\<close>, \<open>Bench_Main\<close>
    (\<open>bench/serialization_bench.cpp\<close>): five formats of one record, each an instance of the locale \<open>record_codec\<close>
    except the one that decodes to a view, and the program that checks and compares them.

  \<^bold>\<open>Bounds and termination.\<close> There is no fuel. Loops are recursive functions with termination proofs, except two:
  the search for a request id, which is proved to end while fewer than \<open>2\<^sup>3\<^sup>2 - 1 - 1024\<close> calls are in flight, and
  the protobuf decoder of the benchmark, which is proved not to end on some inputs; both are partial
  functions whose value \<^const>\<open>None\<close> is a run without end. The event loop itself runs for ever and is a relation
  between states. Sizes are unbounded numbers where the code uses \<open>size_t\<close>, except where sums of them wrap
  around on purpose or by mistake. So are times and intervals, which the code holds in an \<open>int64_t\<close> of
  microseconds, and sequence numbers of timers. The number of a server's connections is an \<open>int\<close> with its bound.

  \<^bold>\<open>Not modelled.\<close> Log lines and usage texts. \<open>include/noncopyable.h\<close> and the abstract class \<open>Poller\<close>, which have
  no code. Ignoring \<open>SIGPIPE\<close>. The choice of the system calls' flags. The conversion of seconds in \<open>double\<close> to
  microseconds: times and intervals are whole microseconds. Name and addresses of a client's connection.
  Waiting on futures, and the time the benchmark measures. Data races: an atomic member and what a mutex
  protects is read and written in one step each. Exceptions for lack of memory. The tests.
\<close>

section \<open>A call from end to end\<close>

text \<open>C1: a remote call returns what the method returns. A client with an open connection starts a
  call; the bytes it sends are cut into any reads and given to a server that speaks the same
  payload format; the bytes the server sends back are cut into any reads as well and given to the
  client. Then the call has completed, once, with the status and payload of the method registered for
  the request, or the status for an unknown service, an unknown method or a handler that has thrown,
  and the client's table is as it was before the call.\<close>

theorem rpc_end_to_end:
  assumes "client_reachable T st" and "rc_connection st = Some conn" and "rc_connected st"
    and "length (rc_pendings st) < 2 ^ 32 - 1 - 1024" and "encodeRequest request = Some body"
    and "sv_serializerId S = rc_serializerId st" and "reader_inv (sv_frameReader S)"
    and "fr_maxFrameSize (sv_frameReader S) \<le> input_limit S" and "length body \<le> maxBodyOf (sv_frameReader S)"
    and "length (rs_payload (service_result S request)) \<le> maxBodyOf (rc_frameReader st)"
    and "tcp_reachable k prog c" and "tcp_connected c" and "peer_alive k" and "contents (tc_input c) = []"
  shows "\<exists>st1 sent. CallAsync T request n deadline st = Some st1
    \<and> rc_connection st1 = Some (t_send T sent conn)
    \<and> (\<forall>chunks. concat chunks = sent \<and> [] \<notin> set chunks \<longrightarrow>
        (\<exists>c' reply. server_reads S k chunks c = Some c' \<and> outbox c' = outbox c @ reply
          \<and> (\<forall>b rchunks. buffer_inv b \<and> contents b = [] \<and> concat rchunks = reply \<and> [] \<notin> set rchunks \<longrightarrow>
              (\<exists>st2 b'. client_reads T rchunks st1 b = Some (st2, b') \<and> rc_pendings st2 = rc_pendings st
                \<and> rc_log st2 = rc_log st @
                    [(n, (service_result S request)\<lparr>rs_serializerId := rc_serializerId st\<rparr>)]))))"
  using assms by (rule call_completes)

theorem rpc_end_to_end_witness:
  "\<exists>st1 sent. CallAsync memory_ops echo_request 5 True sample_client = Some st1
    \<and> rc_connection st1 = Some (t_send memory_ops sent [])
    \<and> (\<forall>chunks. concat chunks = sent \<and> [] \<notin> set chunks \<longrightarrow>
        (\<exists>c' reply. server_reads echo_server (\<lambda>_. Inr 1) chunks sample_connection = Some c' \<and> outbox c' = reply
          \<and> (\<forall>b rchunks. buffer_inv b \<and> contents b = [] \<and> concat rchunks = reply \<and> [] \<notin> set rchunks \<longrightarrow>
              (\<exists>st2 b'. client_reads memory_ops rchunks st1 b = Some (st2, b') \<and> rc_pendings st2 = []
                \<and> rc_log st2 = [(5, mkResponse kOk (ascii ''hi''))]))))"
proof -
  have r: "service_result echo_server echo_request = mkResponse kOk (ascii ''hi'')"
    by (simp add: service_result_def echo_server_def server_start_def newRpcServer_def freeze_def
        registerMethod_def newServiceRegistry_def dispatch_def echo_request_def mkResponse_def Let_def)
  have c: "rc_connection sample_client = Some []" "rc_connected sample_client" "rc_pendings sample_client = []"
    "rc_serializerId sample_client = kSerializerRaw" "sv_serializerId echo_server = kSerializerRaw"
    "rc_log sample_client = []" "maxBodyOf (rc_frameReader sample_client) \<ge> 13"
    "maxBodyOf (sv_frameReader echo_server) \<ge> 13"
    by (simp_all add: sample_client_def newRpcClient_def echo_server_def server_start_def newRpcServer_def
        maxBodyOf_def newFrameReader_def setMaxFrameSize_def kDefaultMaxFrameSize_def kHeaderSize_def kMaxBodyLen_def)
  have "peer_alive (\<lambda>_. Inr 1)" by (simp add: peer_alive_def)
  from rpc_end_to_end [OF sample_client_reachable c(1,2) _ echo_body(1) [of 1] _ echo_reader(1) _ _ _
      sample_reachable(1,2) this sample_input(1), where n = 5 and deadline = True]
  show ?thesis
    using echo_body(2) [of 1] echo_reader(2) c by (simp add: r sample_input) (simp add: mkResponse_def)
qed

end
